(* ===== verification/Lru_Prelude.thy ===== *)
theory Lru_Prelude
  imports Main "HOL-Library.Word" "HOL-Library.Multiset"
begin

unbundle bit_operations_syntax

text \<open>
  Shared vocabulary of the development: the machine-integer types the headers use, the
  sentinel \<open>unlimited\<close> of \<^verbatim>\<open>core.hpp\<close>, the rule collections the component theories
  extend, and generic facts on words, lists and maps that several components need.
\<close>

section \<open>Machine integers\<close>

type_synonym u8 = "8 word"
type_synonym u32 = "32 word"
type_synonym u64 = "64 word"

text \<open>\<^verbatim>\<open>std::numeric_limits<std::size_t>::max()\<close>, as an item count.\<close>

definition unlimited :: nat where
  "unlimited = 2 ^ 64 - 1"

named_theorems word_field_simps \<open>reading one field of a packed word after an update\<close>
named_theorems heap_invs \<open>operations that keep the heap order\<close>
named_theorems seq_simps \<open>list views of the intrusive sequence operations\<close>

section \<open>Words\<close>

lemma unat_take_bit_word: "unat (take_bit n (w :: 'a::len word)) = unat w mod 2 ^ n"
  by (metis take_bit_eq_mod unsigned_take_bit_eq)

lemma unat_two_power:
  assumes "k < LENGTH('a)" shows "unat (2 ^ k :: 'a::len word) = 2 ^ k"
proof -
  have "(2 ^ k :: 'a word) = of_nat (2 ^ k)" by simp
  then have "unat (2 ^ k :: 'a word) = 2 ^ k mod 2 ^ LENGTH('a)" by (simp only: unat_of_nat)
  with assms show ?thesis by simp
qed

lemma bit_word_iff_odd_unat: "bit (w :: 'a::len word) n \<longleftrightarrow> odd (unat w div 2 ^ n)"
proof -
  have "bit w n = bit (unat w) n"
    by (simp add: bit_unsigned_iff)
  then show ?thesis by (simp add: bit_iff_odd)
qed

text \<open>The C++ test \<^verbatim>\<open>(v >> n) & 1\<close>.\<close>

lemma shift_and_one_iff_bit: "drop_bit n (w :: 'a::len word) AND 1 \<noteq> 0 \<longleftrightarrow> bit w n"
  by (simp add: and_one_eq bit_iff_odd_drop_bit odd_iff_mod_2_eq_one)

text \<open>
  Adding to, or subtracting from, the low \<open>m\<close> bits of a word without a carry leaves the
  bits above unchanged.
\<close>

lemma div_small_rest: "r < n \<Longrightarrow> (n * q + r) div n = (q :: nat)"
  by simp

lemma div_no_carry:
  fixes u d :: nat
  assumes "u mod 2 ^ m + d < 2 ^ m" and "m \<le> n"
  shows "(u + d) div 2 ^ n = u div 2 ^ n"
proof -
  have split: "x div 2 ^ n = (x div 2 ^ m) div 2 ^ (n - m)" for x :: nat
    using assms(2) by (metis div_mult2_eq le_add_diff_inverse power_add)
  have "(u + d) div 2 ^ m = (2 ^ m * (u div 2 ^ m) + (u mod 2 ^ m + d)) div 2 ^ m"
    by (simp only: add.assoc [symmetric] mult_div_mod_eq)
  also have "\<dots> = u div 2 ^ m"
    by (rule div_small_rest [OF assms(1)])
  finally have "(u + d) div 2 ^ m = u div 2 ^ m" .
  then show ?thesis by (simp add: split)
qed

lemma mod_of_max: "m \<le> n \<Longrightarrow> (2 ^ n - 1 :: nat) mod 2 ^ m = 2 ^ m - 1"
  by (metis mask_eq_exp_minus_1 mask_mod_exp min.absorb1)

lemma word_inc_low:
  fixes v :: "'a::len word"
  assumes "unat v mod 2 ^ m < 2 ^ m - 1" and "m \<le> LENGTH('a)"
  shows "unat (v + 1) = unat v + 1"
proof -
  have "unat v \<noteq> 2 ^ LENGTH('a) - 1"
    using assms mod_of_max [OF assms(2)] by auto
  moreover have "unat v < 2 ^ LENGTH('a)"
    by (rule unsigned_less)
  ultimately have "unat v + 1 < 2 ^ LENGTH('a)"
    by linarith
  then show ?thesis by (simp add: unat_word_ariths)
qed

lemma word_dec_low:
  fixes v :: "'a::len word"
  assumes "v \<noteq> 0"
  shows "unat (v - 1) = unat v - 1"
  using assms by (simp add: unat_minus_one)

end
