(* ===== verification/Refcount.thy ===== *)
theory Refcount
  imports Lru_Prelude
begin

unbundle bit_operations_syntax

text \<open>
  \<^verbatim>\<open>src/detail/refcount.hpp\<close>: one 64-bit word that packs the number of handles
  (\<open>access_ref\<close>, bits 0-31), the admin bits (\<open>kLinked\<close>, \<open>kAccessible\<close>,
  \<open>kExclusive\<close>, bits 32-34) and five user flags (bits 35-39).

  Every operation of the class is a compare-and-swap loop. Its body, which decides from
  the loaded word whether to return at once or which word to try to store, is a pure
  function here (\<open>incRef_try\<close> and its kin); \<open>cas_loop\<close> is the loop against an
  arbitrary sequence of failed exchanges, and \<open>rc_step\<close> interleaves the loops of any
  number of threads on one word.
\<close>

section \<open>Layout\<close>

definition kAccessRefBits :: nat where "kAccessRefBits = 32"
definition kAccessRefMask :: u64 where "kAccessRefMask = push_bit kAccessRefBits 1 - 1"
definition kAccessRefMax :: u64 where "kAccessRefMax = kAccessRefMask"
definition kLinkedBit :: nat where "kLinkedBit = 32"
definition kAccessibleBit :: nat where "kAccessibleBit = 33"
definition kExclusiveBit :: nat where "kExclusiveBit = 34"
definition kAdminRefMask :: u64 where
  "kAdminRefMask = (push_bit kLinkedBit 1 OR push_bit kAccessibleBit 1) OR push_bit kExclusiveBit 1"
definition kFlagsShift :: nat where "kFlagsShift = 35"

datatype Flags = kMMFlag0 | kMMFlag1 | kMMFlag2 | kIsChainedItem | kHasChainedItem

fun flag_bit :: "Flags \<Rightarrow> nat" where
  "flag_bit kMMFlag0 = 35"
| "flag_bit kMMFlag1 = 36"
| "flag_bit kMMFlag2 = 37"
| "flag_bit kIsChainedItem = 38"
| "flag_bit kHasChainedItem = 39"

datatype MarkForEvictionResult = kSuccess | kUnlinked | kExclusive | kRefHeld

datatype IncResult =
  kIncOk | kIncFailedMoving | kIncFailedEviction | kIncFailedOverflow | kIncFailedUnlinked

text \<open>The two reads every operation makes: \<^verbatim>\<open>(v >> n) & 1ULL\<close> and \<^verbatim>\<open>v & kAccessRefMask\<close>.\<close>

definition bit_at :: "nat \<Rightarrow> u64 \<Rightarrow> bool" where
  "bit_at n v \<longleftrightarrow> drop_bit n v AND 1 \<noteq> 0"

definition access_ref :: "u64 \<Rightarrow> u64" where
  "access_ref v = v AND kAccessRefMask"

section \<open>Loop bodies\<close>

text \<open>
  One pass of a loop: return without storing, or try to exchange the loaded word for
  \<open>desired\<close> and return the second component when the exchange succeeds.
\<close>

datatype 'r cas_attempt = Return_now 'r | Try_cas u64 'r

definition incRef_try :: "u64 \<Rightarrow> IncResult cas_attempt" where
  "incRef_try old =
     (if bit_at kExclusiveBit old
      then Return_now (if access_ref old = 0 then kIncFailedEviction else kIncFailedMoving)
      else if \<not> bit_at kLinkedBit old then Return_now kIncFailedUnlinked
      else if kAccessRefMax \<le> access_ref old then Return_now kIncFailedOverflow
      else Try_cas (old + 1) kIncOk)"

text \<open>\<^verbatim>\<open>decRef\<close> returns the new word, and here also whether it took the underflow branch.\<close>

definition decRef_try :: "u64 \<Rightarrow> (u64 \<times> bool) cas_attempt" where
  "decRef_try old =
     (if access_ref old = 0 then Return_now (old, True) else Try_cas (old - 1) (old - 1, False))"

definition markForEviction_try :: "u64 \<Rightarrow> MarkForEvictionResult cas_attempt" where
  "markForEviction_try old =
     (if \<not> bit_at kLinkedBit old then Return_now kUnlinked
      else if bit_at kExclusiveBit old then Return_now kExclusive
      else if 0 < access_ref old then Return_now kRefHeld
      else Try_cas (old OR push_bit kExclusiveBit 1) kSuccess)"

definition markMoving_try :: "u64 \<Rightarrow> bool cas_attempt" where
  "markMoving_try old =
     (if \<not> bit_at kLinkedBit old \<or> bit_at kExclusiveBit old \<or> 0 < access_ref old
      then Return_now False
      else Try_cas ((old OR push_bit kExclusiveBit 1) + 1) True)"

definition unmarkForEviction_try :: "u64 \<Rightarrow> u64 cas_attempt" where
  "unmarkForEviction_try old =
     (let desired = old AND NOT (push_bit kExclusiveBit 1) in Try_cas desired desired)"

definition unmarkMoving_try :: "u64 \<Rightarrow> u64 cas_attempt" where
  "unmarkMoving_try old =
     (let desired = (old AND NOT (push_bit kExclusiveBit 1)) - 1 in Try_cas desired desired)"

definition markInMMContainer_try :: "u64 \<Rightarrow> unit cas_attempt" where
  "markInMMContainer_try old = Try_cas (old OR push_bit kLinkedBit 1) ()"

definition unmarkInMMContainer_try :: "u64 \<Rightarrow> unit cas_attempt" where
  "unmarkInMMContainer_try old = Try_cas (old AND NOT (push_bit kLinkedBit 1)) ()"

definition markAccessible_try :: "u64 \<Rightarrow> unit cas_attempt" where
  "markAccessible_try old = Try_cas (old OR push_bit kAccessibleBit 1) ()"

definition unmarkAccessible_try :: "u64 \<Rightarrow> unit cas_attempt" where
  "unmarkAccessible_try old = Try_cas (old AND NOT (push_bit kAccessibleBit 1)) ()"

definition setFlag_try :: "Flags \<Rightarrow> u64 \<Rightarrow> unit cas_attempt" where
  "setFlag_try f old = Try_cas (old OR push_bit (flag_bit f) 1) ()"

definition unSetFlag_try :: "Flags \<Rightarrow> u64 \<Rightarrow> unit cas_attempt" where
  "unSetFlag_try f old = Try_cas (old AND NOT (push_bit (flag_bit f) 1)) ()"

section \<open>State queries\<close>

definition isMarkedForEviction :: "u64 \<Rightarrow> bool" where
  "isMarkedForEviction v \<longleftrightarrow> bit_at kExclusiveBit v \<and> access_ref v = 0"

definition isMoving :: "u64 \<Rightarrow> bool" where
  "isMoving v \<longleftrightarrow> bit_at kExclusiveBit v \<and> 0 < access_ref v"

definition getAccessRef :: "u64 \<Rightarrow> u64" where
  "getAccessRef v =
     (let access = access_ref v; exclusive = bit_at kExclusiveBit v
      in if exclusive \<and> 0 < access then access - 1 else access)"

definition isDrained :: "u64 \<Rightarrow> bool" where
  "isDrained v \<longleftrightarrow> v AND (kAccessRefMask OR kAdminRefMask) = 0"

definition isInMMContainer :: "u64 \<Rightarrow> bool" where
  "isInMMContainer v \<longleftrightarrow> bit_at kLinkedBit v"

definition isAccessible :: "u64 \<Rightarrow> bool" where
  "isAccessible v \<longleftrightarrow> bit_at kAccessibleBit v"

definition isFlagSet :: "Flags \<Rightarrow> u64 \<Rightarrow> bool" where
  "isFlagSet f v \<longleftrightarrow> bit_at (flag_bit f) v"

section \<open>The exchange loop\<close>

text \<open>
  \<open>cas_loop f old failures\<close>: the loop that loaded \<open>old\<close>; \<open>failures\<close> are the words
  the failed exchanges found, in order (a weak exchange may also fail spuriously and find
  the same word). The result is the return value and the word that is current afterwards.
\<close>

fun cas_loop :: "(u64 \<Rightarrow> 'r cas_attempt) \<Rightarrow> u64 \<Rightarrow> u64 list \<Rightarrow> 'r \<times> u64" where
  "cas_loop f old failures =
     (case f old of
        Return_now r \<Rightarrow> (r, old)
      | Try_cas desired r \<Rightarrow>
          (case failures of
             [] \<Rightarrow> (r, desired)
           | cur # rest \<Rightarrow> cas_loop f cur rest))"

declare cas_loop.simps [simp del]

text \<open>The operation as one atomic step on a word.\<close>

definition atomically :: "(u64 \<Rightarrow> 'r cas_attempt) \<Rightarrow> u64 \<Rightarrow> 'r \<times> u64" where
  "atomically f v = (case f v of Return_now r \<Rightarrow> (r, v) | Try_cas desired r \<Rightarrow> (r, desired))"

text \<open>Pause counts of \<^verbatim>\<open>refcount_cas_backoff\<close>: the new spin count and the pauses made.\<close>

definition kCasBackoffThreshold :: u32 where "kCasBackoffThreshold = 4"
definition kCasBackoffMaxPause :: u32 where "kCasBackoffMaxPause = 64"

definition refcount_cas_backoff :: "u32 \<Rightarrow> u32 \<times> u32" where
  "refcount_cas_backoff spin_count =
     (if spin_count < kCasBackoffThreshold then (spin_count + 1, 0)
      else let shift = spin_count - kCasBackoffThreshold;
               shift = (if shift > 31 then 31 else shift);
               pauses = push_bit (unat shift) 1;
               pauses = (if pauses > kCasBackoffMaxPause then kCasBackoffMaxPause else pauses)
           in (spin_count + 1, pauses))"

section \<open>Counters kept beside the word\<close>

text \<open>
  \<open>incRef\<close> records its result in a thread-local and counts overflows twice (process-wide
  and class-wide); \<open>decRef\<close> counts underflows. \<open>failures\<close> is as in \<open>cas_loop\<close>.
\<close>

record refcount_diag =
  tls_last_incRef_result :: IncResult
  global_incRef_overflow_count :: u64
  overflow_count :: u64
  s_underflow_count :: u64

definition incRef :: "u64 \<Rightarrow> u64 list \<Rightarrow> refcount_diag \<Rightarrow> (IncResult \<times> u64) \<times> refcount_diag" where
  "incRef old failures d =
     (let (r, v) = cas_loop incRef_try old failures;
          d = d\<lparr>tls_last_incRef_result := r\<rparr>
      in ((r, v),
          if r = kIncFailedOverflow
          then d\<lparr>global_incRef_overflow_count := global_incRef_overflow_count d + 1,
                 overflow_count := overflow_count d + 1\<rparr>
          else d))"

definition tls_last_incRef_was_overflow :: "refcount_diag \<Rightarrow> bool" where
  "tls_last_incRef_was_overflow d \<longleftrightarrow> tls_last_incRef_result d = kIncFailedOverflow"

definition tls_clear_incRef_overflow_flag :: "refcount_diag \<Rightarrow> refcount_diag" where
  "tls_clear_incRef_overflow_flag d = d\<lparr>tls_last_incRef_result := kIncOk\<rparr>"

definition reset_overflow_count :: "refcount_diag \<Rightarrow> refcount_diag" where
  "reset_overflow_count d = d\<lparr>overflow_count := 0\<rparr>"

definition decRef :: "u64 \<Rightarrow> u64 list \<Rightarrow> refcount_diag \<Rightarrow> (u64 \<times> u64) \<times> refcount_diag" where
  "decRef old failures d =
     (let ((r, underflow), v) = cas_loop decRef_try old failures
      in ((r, v),
          if underflow then d\<lparr>s_underflow_count := s_underflow_count d + 1\<rparr> else d))"


section \<open>Reading a field after an update\<close>

lemma bit_at_iff [simp]: "bit_at n v \<longleftrightarrow> bit v n"
  unfolding bit_at_def by (rule shift_and_one_iff_bit)

lemma access_ref_take_bit: "access_ref v = take_bit 32 v"
  by (simp add: access_ref_def kAccessRefMask_def kAccessRefBits_def push_bit_eq_mult
      take_bit_eq_mask mask_eq_exp_minus_1)

lemma unat_access_ref: "unat (access_ref v) = unat v mod 2 ^ 32"
  by (simp add: access_ref_take_bit unat_take_bit_word)

lemma access_ref_eq_0_iff: "access_ref v = 0 \<longleftrightarrow> unat (access_ref v) = 0"
  by (simp add: unat_eq_zero)

lemma access_ref_pos_iff: "0 < access_ref v \<longleftrightarrow> 0 < unat (access_ref v)"
  by (simp add: word_less_nat_alt)

lemma unat_kAccessRefMax: "unat kAccessRefMax = 2 ^ 32 - 1"
  by (simp add: kAccessRefMax_def kAccessRefMask_def kAccessRefBits_def)

lemma access_ref_below_max_iff:
  "\<not> kAccessRefMax \<le> access_ref v \<longleftrightarrow> unat (access_ref v) < 2 ^ 32 - 1"
  unfolding word_le_nat_alt unat_kAccessRefMax by (rule not_le)

lemma len64: "LENGTH(64) = 64" by simp

lemma bit_push_one: "bit (push_bit n (1 :: u64)) m \<longleftrightarrow> m = n \<and> n < 64"
  by (auto simp: bit_exp_iff)

lemma bit_set_iff [word_field_simps]:
  "n < 64 \<Longrightarrow> bit (v OR push_bit n (1 :: u64)) m \<longleftrightarrow> bit v m \<or> m = n"
  by (auto simp only: bit_or_iff bit_push_one)

lemma bit_clear_iff [word_field_simps]:
  "bit (v AND NOT (push_bit n (1 :: u64))) m \<longleftrightarrow> bit v m \<and> m \<noteq> n"
  using bit_imp_le_length [of v m] by (auto simp only: bit_and_iff bit_not_iff bit_push_one len64 possible_bit_word)

lemma access_ref_set [word_field_simps]:
  "32 \<le> n \<Longrightarrow> access_ref (v OR push_bit n 1) = access_ref v"
  by (rule bit_word_eqI) (auto simp only: access_ref_take_bit bit_take_bit_iff bit_or_iff
      bit_push_one)

lemma access_ref_clear [word_field_simps]:
  "32 \<le> n \<Longrightarrow> access_ref (v AND NOT (push_bit n 1)) = access_ref v"
  by (rule bit_word_eqI) (auto simp only: access_ref_take_bit bit_take_bit_iff bit_and_iff
      bit_not_iff bit_push_one possible_bit_word)

lemma unat_access_ref_inc [word_field_simps]:
  assumes "unat (access_ref v) < 2 ^ 32 - 1"
  shows "unat (access_ref (v + 1)) = unat (access_ref v) + 1"
proof -
  have "unat (v + 1) = unat v + 1"
    by (rule word_inc_low [where m = 32]) (use assms in \<open>simp_all add: unat_access_ref\<close>)
  then show ?thesis
    using assms by (simp add: unat_access_ref mod_Suc)
qed

lemma bit_inc [word_field_simps]:
  assumes "unat (access_ref v) < 2 ^ 32 - 1" and "32 \<le> n"
  shows "bit (v + 1) n \<longleftrightarrow> bit v n"
proof -
  have "unat (v + 1) = unat v + 1"
    by (rule word_inc_low [where m = 32]) (use assms(1) in \<open>simp_all add: unat_access_ref\<close>)
  moreover have "(unat v + 1) div 2 ^ n = unat v div 2 ^ n"
    by (rule div_no_carry [where m = 32]) (use assms in \<open>simp_all add: unat_access_ref\<close>)
  ultimately show ?thesis by (simp add: bit_word_iff_odd_unat)
qed

lemma dec_inc:
  assumes "0 < unat (access_ref v)"
  shows "unat (access_ref (v - 1)) = unat (access_ref v) - 1"
    and "unat (access_ref (v - 1)) < 2 ^ 32 - 1"
proof -
  have "v \<noteq> 0" using assms by (auto simp: access_ref_def)
  then have d: "unat (v - 1) = unat v - 1" by (rule word_dec_low)
  have pos: "0 < unat v mod 2 ^ 32" using assms by (simp add: unat_access_ref)
  moreover obtain w where "unat v = Suc w"
    using pos by (cases "unat v") auto
  ultimately have "(unat v - 1) mod 2 ^ 32 = unat v mod 2 ^ 32 - 1"
    by (auto simp: mod_Suc split: if_splits)
  then show eq: "unat (access_ref (v - 1)) = unat (access_ref v) - 1"
    by (simp add: unat_access_ref d)
  have "unat (access_ref v) < 2 ^ 32" by (simp add: unat_access_ref)
  with eq assms show "unat (access_ref (v - 1)) < 2 ^ 32 - 1" by linarith
qed

lemmas unat_access_ref_dec [word_field_simps] = dec_inc(1)

lemma bit_dec [word_field_simps]:
  assumes "0 < unat (access_ref v)" and "32 \<le> n"
  shows "bit (v - 1) n \<longleftrightarrow> bit v n"
  using bit_inc [OF dec_inc(2) [OF assms(1)] assms(2)] by simp

lemmas layout_defs =
  kLinkedBit_def kAccessibleBit_def kExclusiveBit_def

lemma bit_kAdminRefMask: "bit kAdminRefMask n \<longleftrightarrow> n = 32 \<or> n = 33 \<or> n = 34"
  by (auto simp only: kAdminRefMask_def layout_defs bit_or_iff bit_push_one)

lemma isDrained_iff:
  "isDrained v \<longleftrightarrow> access_ref v = 0 \<and> \<not> bit v 32 \<and> \<not> bit v 33 \<and> \<not> bit v 34"
proof -
  have "isDrained v \<longleftrightarrow> (\<forall>n. \<not> bit (v AND (kAccessRefMask OR kAdminRefMask)) n)"
    unfolding isDrained_def by (metis bit_0_eq bit_eqI bot_apply bot_bool_def)
  also have "\<dots> \<longleftrightarrow> (\<forall>n. \<not> bit (access_ref v) n) \<and> \<not> bit v 32 \<and> \<not> bit v 33 \<and> \<not> bit v 34"
    by (auto simp only: access_ref_def bit_kAdminRefMask bit_and_iff bit_or_iff)
  finally show ?thesis by (metis bit_0_eq bit_eqI bot_apply bot_bool_def)
qed

section \<open>A loop is one atomic step\<close>

lemma cas_loop_simps [simp]:
  "f old = Return_now r \<Longrightarrow> cas_loop f old fs = (r, old)"
  "f old = Try_cas d r \<Longrightarrow> cas_loop f old [] = (r, d)"
  "f old = Try_cas d r \<Longrightarrow> cas_loop f old (c # fs) = cas_loop f c fs"
  by (simp_all add: cas_loop.simps)

lemma cas_loop_atomically: "\<exists>v \<in> set (old # fs). cas_loop f old fs = atomically f v"
proof (induction fs arbitrary: old)
  case Nil
  show ?case by (cases "f old") (simp_all add: atomically_def)
next
  case (Cons c fs)
  show ?case
  proof (cases "f old")
    case (Return_now r)
    then show ?thesis by (auto simp: atomically_def)
  next
    case (Try_cas d r)
    with Cons.IH [of c] show ?thesis by auto
  qed
qed

text \<open>What each operation does to the fields, as an atomic step.\<close>

lemma atomically_incRef:
  "atomically incRef_try v =
     (if bit v 34 then (if access_ref v = 0 then kIncFailedEviction else kIncFailedMoving, v)
      else if \<not> bit v 32 then (kIncFailedUnlinked, v)
      else if kAccessRefMax \<le> access_ref v then (kIncFailedOverflow, v)
      else (kIncOk, v + 1))"
  by (simp add: atomically_def incRef_try_def layout_defs)

lemma atomically_decRef:
  "atomically decRef_try v =
     (if access_ref v = 0 then ((v, True), v) else ((v - 1, False), v - 1))"
  by (simp add: atomically_def decRef_try_def)

lemma getAccessRef_eq: "\<not> bit v 34 \<Longrightarrow> getAccessRef v = access_ref v"
  by (simp add: getAccessRef_def layout_defs)

end
