(* ===== verification/Refcount_Threads.thy ===== *)
theory Refcount_Threads
  imports Refcount
begin

text \<open>
  Any number of threads running the exchange loops of \<^verbatim>\<open>refcount_with_flags\<close> on one word.
  A step is a load, a returned loop pass, a successful exchange or a failed one; the
  scheduler picks the thread. The record keeps, beside the word and each thread's loop,
  who holds how many handles and who claimed the item, as the callers do.
\<close>

section \<open>The machine\<close>

datatype rc_op =
    OpIncRef | OpDecRef
  | OpMarkForEviction | OpUnmarkForEviction
  | OpMarkMoving | OpUnmarkMoving
  | OpMarkInMMContainer | OpUnmarkInMMContainer
  | OpMarkAccessible | OpUnmarkAccessible
  | OpSetFlag Flags | OpUnSetFlag Flags

text \<open>Whether the loop body exchanges, and for which word: \<open>None\<close> is a return without exchange.\<close>

fun attempt_word :: "'r cas_attempt \<Rightarrow> u64 option" where
  "attempt_word (Return_now r) = None"
| "attempt_word (Try_cas desired r) = Some desired"

fun desired_of :: "rc_op \<Rightarrow> u64 \<Rightarrow> u64 option" where
  "desired_of OpIncRef v = attempt_word (incRef_try v)"
| "desired_of OpDecRef v = attempt_word (decRef_try v)"
| "desired_of OpMarkForEviction v = attempt_word (markForEviction_try v)"
| "desired_of OpUnmarkForEviction v = attempt_word (unmarkForEviction_try v)"
| "desired_of OpMarkMoving v = attempt_word (markMoving_try v)"
| "desired_of OpUnmarkMoving v = attempt_word (unmarkMoving_try v)"
| "desired_of OpMarkInMMContainer v = attempt_word (markInMMContainer_try v)"
| "desired_of OpUnmarkInMMContainer v = attempt_word (unmarkInMMContainer_try v)"
| "desired_of OpMarkAccessible v = attempt_word (markAccessible_try v)"
| "desired_of OpUnmarkAccessible v = attempt_word (unmarkAccessible_try v)"
| "desired_of (OpSetFlag f) v = attempt_word (setFlag_try f v)"
| "desired_of (OpUnSetFlag f) v = attempt_word (unSetFlag_try f v)"

datatype rc_pc = Idle | Looping rc_op u64

record rc_sys =
  rc_word :: u64
  rc_pcs :: "nat \<Rightarrow> rc_pc"
  rc_held :: "nat \<Rightarrow> nat"
  rc_evictor :: "nat option"
  rc_mover :: "nat option"

text \<open>
  The callers' protocol: a handle is released by its holder, an eviction or move mark is
  taken back by whoever set it.
\<close>

fun may_start :: "rc_sys \<Rightarrow> nat \<Rightarrow> rc_op \<Rightarrow> bool" where
  "may_start s t OpDecRef = (0 < rc_held s t)"
| "may_start s t OpUnmarkForEviction = (rc_evictor s = Some t)"
| "may_start s t OpUnmarkMoving = (rc_mover s = Some t)"
| "may_start s t _ = True"

text \<open>What a successful exchange means for the holders.\<close>

fun commit :: "rc_op \<Rightarrow> nat \<Rightarrow> rc_sys \<Rightarrow> rc_sys" where
  "commit OpIncRef t s = s\<lparr>rc_held := (rc_held s)(t := rc_held s t + 1)\<rparr>"
| "commit OpDecRef t s = s\<lparr>rc_held := (rc_held s)(t := rc_held s t - 1)\<rparr>"
| "commit OpMarkForEviction t s = s\<lparr>rc_evictor := Some t\<rparr>"
| "commit OpUnmarkForEviction t s = s\<lparr>rc_evictor := None\<rparr>"
| "commit OpMarkMoving t s = s\<lparr>rc_mover := Some t\<rparr>"
| "commit OpUnmarkMoving t s = s\<lparr>rc_mover := None\<rparr>"
| "commit _ t s = s"

inductive rc_step :: "nat \<Rightarrow> rc_sys \<Rightarrow> rc_sys \<Rightarrow> bool" for n :: nat where
  load: "t < n \<Longrightarrow> rc_pcs s t = Idle \<Longrightarrow> may_start s t op \<Longrightarrow>
    rc_step n s (s\<lparr>rc_pcs := (rc_pcs s)(t := Looping op (rc_word s))\<rparr>)"
| return: "t < n \<Longrightarrow> rc_pcs s t = Looping op old \<Longrightarrow> desired_of op old = None \<Longrightarrow>
    rc_step n s (s\<lparr>rc_pcs := (rc_pcs s)(t := Idle)\<rparr>)"
| exchange: "t < n \<Longrightarrow> rc_pcs s t = Looping op old \<Longrightarrow> desired_of op old = Some desired \<Longrightarrow>
    rc_word s = old \<Longrightarrow>
    rc_step n s (commit op t (s\<lparr>rc_word := desired, rc_pcs := (rc_pcs s)(t := Idle)\<rparr>))"
| retry: "t < n \<Longrightarrow> rc_pcs s t = Looping op old \<Longrightarrow> desired_of op old = Some desired \<Longrightarrow>
    rc_step n s (s\<lparr>rc_pcs := (rc_pcs s)(t := Looping op (rc_word s))\<rparr>)"

definition rc_init :: rc_sys where
  "rc_init = \<lparr>rc_word = 0, rc_pcs = (\<lambda>_. Idle), rc_held = (\<lambda>_. 0),
              rc_evictor = None, rc_mover = None\<rparr>"

inductive rc_reachable :: "nat \<Rightarrow> rc_sys \<Rightarrow> bool" for n :: nat where
  init: "rc_reachable n rc_init"
| step: "rc_reachable n s \<Longrightarrow> rc_step n s s' \<Longrightarrow> rc_reachable n s'"

section \<open>The invariant\<close>

definition pins :: "nat \<Rightarrow> rc_sys \<Rightarrow> nat" where
  "pins n s = (\<Sum>t<n. rc_held s t)"

definition protocol_ok :: "nat \<Rightarrow> rc_sys \<Rightarrow> bool" where
  "protocol_ok n s \<longleftrightarrow>
     (\<forall>t op old. rc_pcs s t = Looping op old \<longrightarrow> may_start s t op)"

definition word_ok :: "nat \<Rightarrow> rc_sys \<Rightarrow> bool" where
  "word_ok n s \<longleftrightarrow>
     unat (access_ref (rc_word s)) = pins n s + (if rc_mover s = None then 0 else 1) \<and>
     (bit (rc_word s) 34 \<longleftrightarrow> rc_evictor s \<noteq> None \<or> rc_mover s \<noteq> None) \<and>
     (rc_evictor s = None \<or> rc_mover s = None) \<and>
     (rc_evictor s \<noteq> None \<or> rc_mover s \<noteq> None \<longrightarrow> pins n s = 0)"

lemma pins_update:
  "t < n \<Longrightarrow> pins n (s\<lparr>rc_held := (rc_held s)(t := k)\<rparr>) + rc_held s t = pins n s + k"
proof -
  assume "t < n"
  then have "finite {..<n}" "t \<in> {..<n}" by auto
  then show ?thesis
    unfolding pins_def by (simp add: sum.remove [of "{..<n}" t])
qed

lemma pins_simps [simp]:
  "pins n (s\<lparr>rc_word := w\<rparr>) = pins n s"
  "pins n (s\<lparr>rc_pcs := p\<rparr>) = pins n s"
  "pins n (s\<lparr>rc_evictor := e\<rparr>) = pins n s"
  "pins n (s\<lparr>rc_mover := e\<rparr>) = pins n s"
  by (simp_all add: pins_def)

lemma held_le_pins: "t < n \<Longrightarrow> rc_held s t \<le> pins n s"
  unfolding pins_def by (rule member_le_sum) auto

lemmas try_defs =
  incRef_try_def decRef_try_def markForEviction_try_def unmarkForEviction_try_def
  markMoving_try_def unmarkMoving_try_def markInMMContainer_try_def
  unmarkInMMContainer_try_def markAccessible_try_def unmarkAccessible_try_def
  setFlag_try_def unSetFlag_try_def layout_defs

lemma flag_bit_bounds: "35 \<le> flag_bit f" "flag_bit f < 64" "flag_bit f \<noteq> 34" "32 \<le> flag_bit f"
  by (cases f; simp)+

lemma word_ok_frame [simp]: "word_ok n (s\<lparr>rc_pcs := p\<rparr>) \<longleftrightarrow> word_ok n s"
  by (simp add: word_ok_def)

lemma access_zero_max: "access_ref v = 0 \<Longrightarrow> unat (access_ref v) < 2 ^ 32 - 1"
  by simp

lemma exchange_word_ok:
  assumes t: "t < n" and ok: "word_ok n s" and start: "may_start s t op"
    and d: "desired_of op (rc_word s) = Some d"
  shows "word_ok n (commit op t (s\<lparr>rc_word := d\<rparr>))"
proof -
  note [simp] = try_defs word_field_simps access_ref_eq_0_iff access_ref_pos_iff
    access_ref_below_max_iff word_ok_def flag_bit_bounds Let_def
  note [simp del] = not_le push_bit_of_1
  show ?thesis
  proof (cases op)
    case OpIncRef
    with d have v: "\<not> bit (rc_word s) 34" "unat (access_ref (rc_word s)) < 2 ^ 32 - 1" "d = rc_word s + 1"
      by (auto split: if_splits)
    with ok OpIncRef t show ?thesis
      using pins_update [OF t, of s "rc_held s t + 1"] by (auto simp: pins_def)
  next
    case OpDecRef
    with d have v: "0 < unat (access_ref (rc_word s))" "d = rc_word s - 1"
      by (auto split: if_splits)
    have "0 < rc_held s t" using start OpDecRef by simp
    with v ok OpDecRef t show ?thesis
      using pins_update [OF t, of s "rc_held s t - 1"] held_le_pins [OF t, of s] by (auto simp: pins_def)
  next
    case OpMarkForEviction
    with d ok show ?thesis by (auto split: if_splits)
  next
    case OpUnmarkForEviction
    with d ok start show ?thesis by (auto split: if_splits)
  next
    case OpMarkMoving
    with d ok show ?thesis by (auto split: if_splits)
  next
    case OpUnmarkMoving
    with d ok start show ?thesis by (auto split: if_splits)
  next
    case (OpSetFlag f)
    with d ok show ?thesis by (cases f) auto
  next
    case (OpUnSetFlag f)
    with d ok show ?thesis by (cases f) auto
  qed (use d ok in auto)
qed

lemma marks_need_free:
  assumes "word_ok n s" "desired_of op (rc_word s) = Some d"
    "op = OpMarkForEviction \<or> op = OpMarkMoving"
  shows "rc_evictor s = None \<and> rc_mover s = None"
  using assms by (auto simp: word_ok_def try_defs split: if_splits)

lemma may_start_frame [simp]:
  "may_start (s\<lparr>rc_pcs := p\<rparr>) t op = may_start s t op"
  "may_start (s\<lparr>rc_word := w\<rparr>) t op = may_start s t op"
  by (cases op; simp)+

lemma commit_frame [simp]:
  "rc_pcs (commit op t s) = rc_pcs s"
  "rc_word (commit op t s) = rc_word s"
  "commit op t (s\<lparr>rc_pcs := p\<rparr>) = (commit op t s)\<lparr>rc_pcs := p\<rparr>"
  by (cases op; simp)+

lemma commit_keeps_others:
  assumes "may_start s u op'" "may_start s t op" "u \<noteq> t"
    and "word_ok n s" "desired_of op (rc_word s) = Some d"
  shows "may_start (commit op t s) u op'"
proof -
  consider "op' = OpDecRef" | "op' = OpUnmarkForEviction" | "op' = OpUnmarkMoving"
    | "may_start (commit op t s) u op'"
    by (cases op') simp_all
  then show ?thesis
  proof cases
    case 1
    with assms(1,3) show ?thesis by (cases op) simp_all
  next
    case 2
    with assms(1,2,3) marks_need_free [OF assms(4,5)] show ?thesis by (cases op) simp_all
  next
    case 3
    with assms(1,2,3) marks_need_free [OF assms(4,5)] show ?thesis by (cases op) simp_all
  qed
qed

definition rc_inv :: "nat \<Rightarrow> rc_sys \<Rightarrow> bool" where
  "rc_inv n s \<longleftrightarrow> protocol_ok n s \<and> word_ok n s"

lemma rc_step_inv: "rc_step n s s' \<Longrightarrow> rc_inv n s \<Longrightarrow> rc_inv n s'"
proof (induction rule: rc_step.induct)
  case (load t s op)
  then show ?case by (auto simp: rc_inv_def protocol_ok_def)
next
  case (return t s op old)
  then show ?case by (auto simp: rc_inv_def protocol_ok_def split: if_splits)
next
  case (exchange t s op old desired)
  then have start: "may_start s t op" and ok: "word_ok n s"
    by (auto simp: rc_inv_def protocol_ok_def)
  have d: "desired_of op (rc_word s) = Some desired" using exchange by simp
  have "word_ok n (commit op t (s\<lparr>rc_word := desired\<rparr>))"
    by (rule exchange_word_ok [OF exchange.hyps(1) ok start d])
  moreover have "may_start (commit op t s) u op'"
    if "rc_pcs s u = Looping op' w" "u \<noteq> t" for u op' w
    using exchange.prems commit_keeps_others [OF _ start that(2) ok d] that(1)
    by (auto simp: rc_inv_def protocol_ok_def)
  moreover have "commit op t (s\<lparr>rc_word := desired\<rparr>) = (commit op t s)\<lparr>rc_word := desired\<rparr>"
    by (cases op) simp_all
  ultimately show ?case
    by (auto simp: rc_inv_def protocol_ok_def split: if_splits)
next
  case (retry t s op old desired)
  then show ?case by (auto simp: rc_inv_def protocol_ok_def)
qed

lemma rc_init_inv: "rc_inv n rc_init"
  by (simp add: rc_inv_def rc_init_def protocol_ok_def word_ok_def pins_def access_ref_def)

lemma rc_reachable_inv: "rc_reachable n s \<Longrightarrow> rc_inv n s"
  by (induction rule: rc_reachable.induct) (auto intro: rc_init_inv rc_step_inv)

section \<open>What the callers rely on\<close>

text \<open>
  C3. An item claimed for eviction has no handle: while some thread's
  \<^verbatim>\<open>markForEviction\<close> stands, every thread holds zero handles and \<open>access_ref\<close> is 0.
\<close>

theorem evicting_excludes_handles:
  assumes "rc_reachable n s" and "rc_evictor s = Some e" and "t < n"
  shows "rc_held s t = 0 \<and> access_ref (rc_word s) = 0 \<and> isMarkedForEviction (rc_word s)"
proof -
  from rc_reachable_inv [OF assms(1)] have ok: "word_ok n s" by (simp add: rc_inv_def)
  with assms have "pins n s = 0" by (simp add: word_ok_def)
  with held_le_pins [OF assms(3), of s] ok assms(2) show ?thesis
    by (auto simp: word_ok_def isMarkedForEviction_def layout_defs unat_eq_zero)
qed

text \<open>
  C14. The pin barrier: a step that gives a thread a new handle finds the word linked and
  not claimed, so no handle is ever obtained on an item that was unlinked or is being
  evicted or moved.
\<close>

theorem pin_barrier:
  assumes "rc_step n s s'" and "rc_held s t < rc_held s' t"
  shows "isInMMContainer (rc_word s) \<and> \<not> isMarkedForEviction (rc_word s) \<and> \<not> isMoving (rc_word s)"
  using assms
proof (cases rule: rc_step.cases)
  case (exchange u op old desired)
  with assms(2) have "op = OpIncRef" by (cases op) (auto split: if_splits)
  with exchange show ?thesis
    by (auto simp: isInMMContainer_def isMarkedForEviction_def isMoving_def try_defs
        split: if_splits)
qed auto

text \<open>
  C5. \<^verbatim>\<open>getAccessRef\<close> counts handles exactly: in every reachable state it is the number of
  handles the threads hold, the extra reference of a move not included.
\<close>

theorem getAccessRef_counts_handles:
  assumes "rc_reachable n s"
  shows "unat (getAccessRef (rc_word s)) = pins n s"
proof -
  from rc_reachable_inv [OF assms] have ok: "word_ok n s" by (simp add: rc_inv_def)
  show ?thesis
  proof (cases "rc_mover s")
    case None
    with ok show ?thesis
      by (auto simp: word_ok_def getAccessRef_def layout_defs Let_def access_ref_pos_iff)
  next
    case (Some m)
    with ok have "unat (access_ref (rc_word s)) = 1" "bit (rc_word s) 34" "pins n s = 0"
      by (auto simp: word_ok_def)
    moreover have "access_ref (rc_word s) = 1"
      using \<open>unat (access_ref (rc_word s)) = 1\<close> by (simp add: word_unat_eq_iff)
    ultimately show ?thesis by (simp add: getAccessRef_def layout_defs)
  qed
qed

lemma uncontended_op:
  assumes "rc_reachable n s" "t < n" "rc_pcs s t = Idle" "may_start s t op"
    "desired_of op (rc_word s) = Some d"
  shows "rc_reachable n (commit op t (s\<lparr>rc_word := d\<rparr>))"
proof -
  let ?s1 = "s\<lparr>rc_pcs := (rc_pcs s)(t := Looping op (rc_word s))\<rparr>"
  have "rc_reachable n ?s1"
    using assms by (blast intro: rc_reachable.step rc_step.load)
  moreover have "rc_step n ?s1
      (commit op t (?s1\<lparr>rc_word := d, rc_pcs := (rc_pcs ?s1)(t := Idle)\<rparr>))"
    by (rule rc_step.exchange) (use assms in simp_all)
  moreover have "commit op t (?s1\<lparr>rc_word := d, rc_pcs := (rc_pcs ?s1)(t := Idle)\<rparr>)
      = commit op t (s\<lparr>rc_word := d\<rparr>)"
    using assms(3) by (simp add: fun_upd_idem)
  ultimately show ?thesis by (metis rc_reachable.step)
qed

lemma linked_reachable: "rc_reachable 2 (rc_init\<lparr>rc_word := 2 ^ 32\<rparr>)"
  using uncontended_op [OF rc_reachable.init, of 0 2 OpMarkInMMContainer "2 ^ 32"]
  by (simp add: rc_init_def markInMMContainer_try_def kLinkedBit_def)

lemma claimed_reachable:
  "rc_reachable 2 (rc_init\<lparr>rc_word := 2 ^ 32 OR 2 ^ 34, rc_evictor := Some 0\<rparr>)"
proof -
  have "desired_of OpMarkForEviction (2 ^ 32) = Some (2 ^ 32 OR 2 ^ 34)"
    by (simp add: markForEviction_try_def layout_defs access_ref_def kAccessRefMask_def
        kAccessRefBits_def)
  then show ?thesis
    using uncontended_op [OF linked_reachable, of 0 OpMarkForEviction "2 ^ 32 OR 2 ^ 34"]
    by (simp add: rc_init_def)
qed

theorem evicting_excludes_handles_witness:
  "\<exists>s. rc_reachable 2 s \<and> rc_evictor s = Some 0 \<and> rc_held s 1 = 0 \<and>
       isMarkedForEviction (rc_word s)"
  using evicting_excludes_handles [OF claimed_reachable, of 0 1] claimed_reachable by fastforce

theorem pin_barrier_witness:
  "\<exists>s s'. rc_step 1 s s' \<and> rc_held s 0 < rc_held s' 0 \<and> isInMMContainer (rc_word s)"
proof -
  let ?s = "rc_init\<lparr>rc_word := 2 ^ 32, rc_pcs := (\<lambda>_. Looping OpIncRef (2 ^ 32))\<rparr>"
  have "desired_of OpIncRef (2 ^ 32) = Some (2 ^ 32 + 1)"
    by (simp add: incRef_try_def layout_defs access_ref_def kAccessRefMask_def
        kAccessRefMax_def kAccessRefBits_def)
  then have step: "rc_step 1 ?s (commit OpIncRef 0
      (?s\<lparr>rc_word := 2 ^ 32 + 1, rc_pcs := (rc_pcs ?s)(0 := Idle)\<rparr>))"
    by (intro rc_step.exchange) simp_all
  moreover have grows: "rc_held ?s 0 < rc_held (commit OpIncRef 0
      (?s\<lparr>rc_word := 2 ^ 32 + 1, rc_pcs := (rc_pcs ?s)(0 := Idle)\<rparr>)) 0"
    by simp
  ultimately show ?thesis using pin_barrier [OF step grows] by blast
qed

theorem getAccessRef_counts_handles_witness:
  "rc_reachable 2 (rc_init\<lparr>rc_word := 2 ^ 32\<rparr>) \<and>
   unat (getAccessRef (rc_word (rc_init\<lparr>rc_word := 2 ^ 32\<rparr>))) = pins 2 (rc_init\<lparr>rc_word := 2 ^ 32\<rparr>)"
  using getAccessRef_counts_handles [OF linked_reachable] linked_reachable by blast

end
