(* ===== verification/Intrusive_List.thy ===== *)
theory Intrusive_List
  imports Lru_Prelude "HOL-Library.Monad_Syntax"
begin

unbundle bit_operations_syntax

text \<open>
  \<^verbatim>\<open>src/detail/intrusive_list.hpp\<close>: the null-terminated doubly-linked list whose links
  live in a hook embedded in each item. A pointer is a 64-bit word with 0 as
  \<^verbatim>\<open>nullptr\<close>; the hooks of all items form a map from addresses.

  The class is a template over the hook type and reaches its links only through
  \<^verbatim>\<open>hook_pointer_traits\<close>. The model keeps that shape: \<open>hook_ops\<close> is the traits class as
  a record of functions, every list operation takes it as its first argument, and the
  locale \<open>hook_traits\<close> states what the list relies on. \<open>raw_traits\<close> (raw pointers) is
  interpreted here, the compressed hook in theory \<open>Compressed_Ptr\<close>.

  A setter returns \<open>None\<close> where the C++ setter throws (compressed hooks only); the state
  of a list whose operation threw is not described. The \<^verbatim>\<open>assert\<close>s of the source are
  the preconditions of \<open>seq_step\<close>.
\<close>

section \<open>Hooks\<close>

type_synonym ptr = u64

abbreviation nullptr :: ptr where "nullptr \<equiv> 0"

definition kTailFlag :: u8 where "kTailFlag = push_bit 0 1"
definition kAccessedFlag :: u8 where "kAccessedFlag = push_bit 1 1"
definition kLinkedFlag :: u8 where "kLinkedFlag = push_bit 2 1"
definition kTailClearMask :: u8 where "kTailClearMask = NOT kTailFlag"
definition kAccessedClearMask :: u8 where "kAccessedClearMask = NOT kAccessedFlag"
definition kLinkedClearMask :: u8 where "kLinkedClearMask = NOT kLinkedFlag"

record intrusive_hook =
  ih_prev :: ptr
  ih_next :: ptr
  ih_update_time :: u32
  ih_flags :: u8

definition ih_new :: intrusive_hook where
  "ih_new = \<lparr>ih_prev = nullptr, ih_next = nullptr, ih_update_time = 0, ih_flags = 0\<rparr>"

definition is_tail :: "intrusive_hook \<Rightarrow> bool" where
  "is_tail h \<longleftrightarrow> ih_flags h AND kTailFlag \<noteq> 0"
definition set_tail :: "intrusive_hook \<Rightarrow> intrusive_hook" where
  "set_tail h = h\<lparr>ih_flags := ih_flags h OR kTailFlag\<rparr>"
definition clear_tail :: "intrusive_hook \<Rightarrow> intrusive_hook" where
  "clear_tail h = h\<lparr>ih_flags := ih_flags h AND kTailClearMask\<rparr>"
definition is_accessed :: "intrusive_hook \<Rightarrow> bool" where
  "is_accessed h \<longleftrightarrow> ih_flags h AND kAccessedFlag \<noteq> 0"
definition set_accessed :: "intrusive_hook \<Rightarrow> intrusive_hook" where
  "set_accessed h = h\<lparr>ih_flags := ih_flags h OR kAccessedFlag\<rparr>"
definition clear_accessed :: "intrusive_hook \<Rightarrow> intrusive_hook" where
  "clear_accessed h = h\<lparr>ih_flags := ih_flags h AND kAccessedClearMask\<rparr>"
definition is_linked :: "intrusive_hook \<Rightarrow> bool" where
  "is_linked h \<longleftrightarrow> ih_flags h AND kLinkedFlag \<noteq> 0"
definition set_linked :: "intrusive_hook \<Rightarrow> intrusive_hook" where
  "set_linked h = h\<lparr>ih_flags := ih_flags h OR kLinkedFlag\<rparr>"
definition clear_linked :: "intrusive_hook \<Rightarrow> intrusive_hook" where
  "clear_linked h = h\<lparr>ih_flags := ih_flags h AND kLinkedClearMask\<rparr>"

text \<open>\<^verbatim>\<open>hook_pointer_traits<Hook>\<close>, with the flag operations the list itself calls.\<close>

record 'h hook_ops =
  ho_set_prev :: "'h \<Rightarrow> ptr \<Rightarrow> ptr \<Rightarrow> 'h option"
  ho_set_next :: "'h \<Rightarrow> ptr \<Rightarrow> ptr \<Rightarrow> 'h option"
  ho_get_prev :: "'h \<Rightarrow> ptr \<Rightarrow> ptr"
  ho_get_next :: "'h \<Rightarrow> ptr \<Rightarrow> ptr"
  ho_is_end_prev :: "'h \<Rightarrow> bool"
  ho_is_end_next :: "'h \<Rightarrow> bool"
  ho_is_linked :: "'h \<Rightarrow> bool"
  ho_set_linked :: "'h \<Rightarrow> 'h"
  ho_clear_linked :: "'h \<Rightarrow> 'h"

definition raw_traits :: "intrusive_hook hook_ops" where
  "raw_traits =
     \<lparr>ho_set_prev = (\<lambda>h p _. Some (h\<lparr>ih_prev := p\<rparr>)),
      ho_set_next = (\<lambda>h p _. Some (h\<lparr>ih_next := p\<rparr>)),
      ho_get_prev = (\<lambda>h _. ih_prev h),
      ho_get_next = (\<lambda>h _. ih_next h),
      ho_is_end_prev = (\<lambda>h. ih_prev h = nullptr),
      ho_is_end_next = (\<lambda>h. ih_next h = nullptr),
      ho_is_linked = is_linked,
      ho_set_linked = set_linked,
      ho_clear_linked = clear_linked\<rparr>"

section \<open>The list\<close>

record 'h ilist =
  il_hooks :: "ptr \<Rightarrow> 'h"
  head_ptr :: ptr
  tail_ptr :: ptr
  il_base :: ptr
  il_size :: u64

definition il_new :: "ptr \<Rightarrow> (ptr \<Rightarrow> 'h) \<Rightarrow> 'h ilist" where
  "il_new base hooks =
     \<lparr>il_hooks = hooks, head_ptr = nullptr, tail_ptr = nullptr, il_base = base, il_size = 0\<rparr>"

definition set_prev_of :: "'h hook_ops \<Rightarrow> ptr \<Rightarrow> ptr \<Rightarrow> 'h ilist \<Rightarrow> 'h ilist option" where
  "set_prev_of T p q L =
     map_option (\<lambda>h. L\<lparr>il_hooks := (il_hooks L)(p := h)\<rparr>)
       (ho_set_prev T (il_hooks L p) q (il_base L))"

definition set_next_of :: "'h hook_ops \<Rightarrow> ptr \<Rightarrow> ptr \<Rightarrow> 'h ilist \<Rightarrow> 'h ilist option" where
  "set_next_of T p q L =
     map_option (\<lambda>h. L\<lparr>il_hooks := (il_hooks L)(p := h)\<rparr>)
       (ho_set_next T (il_hooks L p) q (il_base L))"

definition il_get_prev :: "'h hook_ops \<Rightarrow> 'h ilist \<Rightarrow> ptr \<Rightarrow> ptr" where
  "il_get_prev T L p = ho_get_prev T (il_hooks L p) (il_base L)"

definition il_get_next :: "'h hook_ops \<Rightarrow> 'h ilist \<Rightarrow> ptr \<Rightarrow> ptr" where
  "il_get_next T L p = ho_get_next T (il_hooks L p) (il_base L)"

definition mark_linked :: "'h hook_ops \<Rightarrow> ptr \<Rightarrow> 'h ilist \<Rightarrow> 'h ilist" where
  "mark_linked T p L = L\<lparr>il_hooks := (il_hooks L)(p := ho_set_linked T (il_hooks L p))\<rparr>"

definition mark_unlinked :: "'h hook_ops \<Rightarrow> ptr \<Rightarrow> 'h ilist \<Rightarrow> 'h ilist" where
  "mark_unlinked T p L = L\<lparr>il_hooks := (il_hooks L)(p := ho_clear_linked T (il_hooks L p))\<rparr>"

definition il_empty :: "'h ilist \<Rightarrow> bool" where
  "il_empty L \<longleftrightarrow> il_size L = 0"

text \<open>The relink that \<^verbatim>\<open>link_at_head\<close> and \<^verbatim>\<open>move_to_head\<close> share, written out in both.\<close>

definition relink_head :: "'h hook_ops \<Rightarrow> ptr \<Rightarrow> 'h ilist \<Rightarrow> 'h ilist option" where
  "relink_head T item L = do {
     L \<leftarrow> set_prev_of T item nullptr L;
     L \<leftarrow> set_next_of T item (head_ptr L) L;
     L \<leftarrow> (if head_ptr L \<noteq> nullptr then set_prev_of T (head_ptr L) item L
           else Some (L\<lparr>tail_ptr := item\<rparr>));
     Some (L\<lparr>head_ptr := item\<rparr>)
   }"

definition link_at_head :: "'h hook_ops \<Rightarrow> ptr \<Rightarrow> 'h ilist \<Rightarrow> 'h ilist option" where
  "link_at_head T item L = do {
     L \<leftarrow> relink_head T item L;
     let L = mark_linked T item L;
     Some (L\<lparr>il_size := il_size L + 1\<rparr>)
   }"

definition link_at_tail :: "'h hook_ops \<Rightarrow> ptr \<Rightarrow> 'h ilist \<Rightarrow> 'h ilist option" where
  "link_at_tail T item L = do {
     L \<leftarrow> set_next_of T item nullptr L;
     L \<leftarrow> set_prev_of T item (tail_ptr L) L;
     L \<leftarrow> (if tail_ptr L \<noteq> nullptr then set_next_of T (tail_ptr L) item L
           else Some (L\<lparr>head_ptr := item\<rparr>));
     let L = mark_linked T item (L\<lparr>tail_ptr := item\<rparr>);
     Some (L\<lparr>il_size := il_size L + 1\<rparr>)
   }"

definition insert_before :: "'h hook_ops \<Rightarrow> ptr \<Rightarrow> ptr \<Rightarrow> 'h ilist \<Rightarrow> 'h ilist option" where
  "insert_before T next_node item L = do {
     let prev = il_get_prev T L next_node;
     L \<leftarrow> set_prev_of T item prev L;
     L \<leftarrow> set_next_of T item next_node L;
     L \<leftarrow> (if prev \<noteq> nullptr then set_next_of T prev item L
           else Some (L\<lparr>head_ptr := item\<rparr>));
     L \<leftarrow> set_prev_of T next_node item L;
     let L = mark_linked T item L;
     Some (L\<lparr>il_size := il_size L + 1\<rparr>)
   }"

text \<open>The pointer surgery that \<^verbatim>\<open>unlink\<close> and \<^verbatim>\<open>move_to_head\<close> share, written out in both.\<close>

definition bypass :: "'h hook_ops \<Rightarrow> ptr \<Rightarrow> 'h ilist \<Rightarrow> 'h ilist option" where
  "bypass T item L = do {
     let prev = il_get_prev T L item;
     let next = il_get_next T L item;
     L \<leftarrow> (if prev \<noteq> nullptr then set_next_of T prev next L
           else Some (L\<lparr>head_ptr := next\<rparr>));
     (if next \<noteq> nullptr then set_prev_of T next prev L
      else Some (L\<lparr>tail_ptr := prev\<rparr>))
   }"

definition unlink :: "'h hook_ops \<Rightarrow> ptr \<Rightarrow> 'h ilist \<Rightarrow> 'h ilist option" where
  "unlink T item L = do {
     L \<leftarrow> bypass T item L;
     let L = mark_unlinked T item L;
     Some (L\<lparr>il_size := il_size L - 1\<rparr>)
   }"

definition il_remove :: "'h hook_ops \<Rightarrow> ptr \<Rightarrow> 'h ilist \<Rightarrow> 'h ilist option" where
  "il_remove T item L = do {
     L \<leftarrow> unlink T item L;
     L \<leftarrow> set_prev_of T item nullptr L;
     set_next_of T item nullptr L
   }"

definition move_to_head :: "'h hook_ops \<Rightarrow> ptr \<Rightarrow> 'h ilist \<Rightarrow> 'h ilist option" where
  "move_to_head T item L =
     (if ho_is_end_prev T (il_hooks L item) then Some L
      else do {
        L \<leftarrow> bypass T item L;
        relink_head T item L
      })"

definition replace :: "'h hook_ops \<Rightarrow> ptr \<Rightarrow> ptr \<Rightarrow> 'h ilist \<Rightarrow> 'h ilist option" where
  "replace T old_node new_node L = do {
     let prev = il_get_prev T L old_node;
     let next = il_get_next T L old_node;
     L \<leftarrow> set_prev_of T new_node prev L;
     L \<leftarrow> set_next_of T new_node next L;
     L \<leftarrow> (if prev \<noteq> nullptr then set_next_of T prev new_node L
           else Some (L\<lparr>head_ptr := new_node\<rparr>));
     L \<leftarrow> (if next \<noteq> nullptr then set_prev_of T next new_node L
           else Some (L\<lparr>tail_ptr := new_node\<rparr>));
     L \<leftarrow> set_prev_of T old_node nullptr L;
     L \<leftarrow> set_next_of T old_node nullptr L;
     Some (mark_linked T new_node (mark_unlinked T old_node L))
   }"

text \<open>
  \<^verbatim>\<open>clear\<close> walks the chain from the head. The walk of a corrupted (cyclic) chain would not
  end, so the loop takes fuel; \<open>clear_refines\<close> shows that the length of the list is enough.
\<close>

fun clear_loop :: "'h hook_ops \<Rightarrow> nat \<Rightarrow> ptr \<Rightarrow> 'h ilist \<Rightarrow> 'h ilist option" where
  "clear_loop T fuel cur L =
     (if cur = nullptr then Some L
      else case fuel of
        0 \<Rightarrow> None
      | Suc fuel \<Rightarrow> do {
          let next = il_get_next T L cur;
          L \<leftarrow> set_prev_of T cur nullptr L;
          L \<leftarrow> set_next_of T cur nullptr L;
          clear_loop T fuel next (mark_unlinked T cur L)
        })"

declare clear_loop.simps [simp del]

definition clear :: "'h hook_ops \<Rightarrow> nat \<Rightarrow> 'h ilist \<Rightarrow> 'h ilist option" where
  "clear T fuel L = do {
     L \<leftarrow> clear_loop T fuel (head_ptr L) L;
     Some (L\<lparr>head_ptr := nullptr, tail_ptr := nullptr, il_size := 0\<rparr>)
   }"

definition pop_tail :: "'h hook_ops \<Rightarrow> 'h ilist \<Rightarrow> (ptr \<times> 'h ilist) option" where
  "pop_tail T L =
     (if il_empty L then Some (nullptr, L)
      else do {
        let item = tail_ptr L;
        L \<leftarrow> unlink T item L;
        L \<leftarrow> set_prev_of T item nullptr L;
        L \<leftarrow> set_next_of T item nullptr L;
        Some (item, L)
      })"

definition pop_head :: "'h hook_ops \<Rightarrow> 'h ilist \<Rightarrow> (ptr \<times> 'h ilist) option" where
  "pop_head T L =
     (if il_empty L then Some (nullptr, L)
      else do {
        let item = head_ptr L;
        L \<leftarrow> unlink T item L;
        L \<leftarrow> set_prev_of T item nullptr L;
        L \<leftarrow> set_next_of T item nullptr L;
        Some (item, L)
      })"

text \<open>Iterators: \<open>iter_fwd\<close> collects \<^verbatim>\<open>begin()..end()\<close>, \<open>iter_bwd\<close> \<^verbatim>\<open>rbegin()..rend()\<close>.\<close>

fun walk :: "(ptr \<Rightarrow> ptr) \<Rightarrow> nat \<Rightarrow> ptr \<Rightarrow> ptr list option" where
  "walk step fuel p =
     (if p = nullptr then Some []
      else case fuel of
        0 \<Rightarrow> None
      | Suc fuel \<Rightarrow> map_option (Cons p) (walk step fuel (step p)))"

declare walk.simps [simp del]

definition iter_fwd :: "'h hook_ops \<Rightarrow> nat \<Rightarrow> 'h ilist \<Rightarrow> ptr list option" where
  "iter_fwd T fuel L = walk (il_get_next T L) fuel (head_ptr L)"

definition iter_bwd :: "'h hook_ops \<Rightarrow> nat \<Rightarrow> 'h ilist \<Rightarrow> ptr list option" where
  "iter_bwd T fuel L = walk (il_get_prev T L) fuel (tail_ptr L)"

section \<open>Segments of a doubly-linked chain\<close>

definition first_or :: "ptr list \<Rightarrow> ptr \<Rightarrow> ptr" where
  "first_or xs c = (if xs = [] then c else hd xs)"

definition last_or :: "ptr \<Rightarrow> ptr list \<Rightarrow> ptr" where
  "last_or a xs = (if xs = [] then a else last xs)"

lemma first_or_simps [simp]:
  "first_or [] c = c" "first_or (x # xs) c = x" "first_or (xs @ ys) c = first_or xs (first_or ys c)"
  by (simp_all add: first_or_def)

lemma last_or_simps [simp]:
  "last_or a [] = a" "last_or a (x # xs) = last_or x xs"
  "last_or a (xs @ ys) = last_or (last_or a xs) ys"
  by (simp_all add: last_or_def)

text \<open>
  \<open>seg prv nxt a xs c\<close>: the nodes \<open>xs\<close> are chained in order, the first one's
  predecessor is \<open>a\<close> and the last one's successor is \<open>c\<close>.
\<close>

fun seg :: "(ptr \<Rightarrow> ptr) \<Rightarrow> (ptr \<Rightarrow> ptr) \<Rightarrow> ptr \<Rightarrow> ptr list \<Rightarrow> ptr \<Rightarrow> bool" where
  "seg prv nxt a [] c = True"
| "seg prv nxt a (x # xs) c = (prv x = a \<and> nxt x = first_or xs c \<and> seg prv nxt x xs c)"

lemma seg_append [simp]:
  "seg prv nxt a (xs @ ys) c \<longleftrightarrow> seg prv nxt a xs (first_or ys c) \<and> seg prv nxt (last_or a xs) ys c"
  by (induction xs arbitrary: a) auto

lemma seg_cong:
  "(\<And>x. x \<in> set xs \<Longrightarrow> prv x = prv' x) \<Longrightarrow> (\<And>x. x \<in> set xs \<Longrightarrow> nxt x = nxt' x) \<Longrightarrow>
   seg prv nxt a xs c = seg prv' nxt' a xs c"
  by (induction xs arbitrary: a) auto

lemma seg_frame [simp]:
  "p \<notin> set xs \<Longrightarrow> seg (prv(p := v)) nxt a xs c = seg prv nxt a xs c"
  "p \<notin> set xs \<Longrightarrow> seg prv (nxt(p := v)) a xs c = seg prv nxt a xs c"
  by (rule seg_cong; auto)+

text \<open>Redirecting the open end of a segment.\<close>

lemma seg_set_last:
  assumes "seg prv nxt a (xs @ [x]) c" and "x \<notin> set xs"
  shows "seg prv (nxt(x := c')) a (xs @ [x]) c'"
  using assms by simp

lemma seg_set_first:
  assumes "seg prv nxt a (x # xs) c" and "x \<notin> set xs"
  shows "seg (prv(x := a')) nxt a' (x # xs) c"
  using assms by simp

lemma walk_simps [simp]:
  "walk step fuel nullptr = Some []"
  "p \<noteq> nullptr \<Longrightarrow> walk step (Suc k) p = map_option (Cons p) (walk step k (step p))"
  by (simp_all add: walk.simps)

lemma walk_next:
  "seg prv nxt a xs nullptr \<Longrightarrow> nullptr \<notin> set xs \<Longrightarrow> length xs \<le> fuel \<Longrightarrow>
   walk nxt fuel (first_or xs nullptr) = Some xs"
proof (induction xs arbitrary: a fuel)
  case Nil
  then show ?case by simp
next
  case (Cons x xs)
  then obtain k where "fuel = Suc k" "length xs \<le> k" by (cases fuel) auto
  with Cons show ?case by auto
qed

lemma walk_prev:
  "seg prv nxt nullptr xs c \<Longrightarrow> nullptr \<notin> set xs \<Longrightarrow> length xs \<le> fuel \<Longrightarrow>
   walk prv fuel (last_or nullptr xs) = Some (rev xs)"
proof (induction xs arbitrary: c fuel rule: rev_induct)
  case Nil
  then show ?case by simp
next
  case (snoc x xs)
  then obtain k where "fuel = Suc k" "length xs \<le> k" by (cases fuel) auto
  with snoc show ?case by auto
qed

section \<open>What the list needs of its hooks\<close>

definition il_linked :: "'h hook_ops \<Rightarrow> 'h ilist \<Rightarrow> ptr \<Rightarrow> bool" where
  "il_linked T L p = ho_is_linked T (il_hooks L p)"

definition il_meta :: "('h \<Rightarrow> 'm) \<Rightarrow> 'h ilist \<Rightarrow> ptr \<Rightarrow> 'm" where
  "il_meta meta L p = meta (il_hooks L p)"

text \<open>
  \<open>represents T good_base valid L xs\<close>: the list in memory is the sequence \<open>xs\<close>, head
  first; \<open>valid b p\<close> says that the hook can store \<open>p\<close> relative to the base \<open>b\<close>.
\<close>

definition represents ::
  "'h hook_ops \<Rightarrow> (ptr \<Rightarrow> bool) \<Rightarrow> (ptr \<Rightarrow> ptr \<Rightarrow> bool) \<Rightarrow> 'h ilist \<Rightarrow> ptr list \<Rightarrow> bool" where
  "represents T good_base valid L xs \<longleftrightarrow>
     good_base (il_base L) \<and> distinct xs \<and> nullptr \<notin> set xs \<and>
     (\<forall>p\<in>set xs. valid (il_base L) p \<and> il_linked T L p) \<and>
     seg (il_get_prev T L) (il_get_next T L) nullptr xs nullptr \<and>
     head_ptr L = first_or xs nullptr \<and> tail_ptr L = last_or nullptr xs \<and>
     il_size L = of_nat (length xs)"

locale hook_traits =
  fixes T :: "'h hook_ops"
    and good_base :: "ptr \<Rightarrow> bool"
    and valid :: "ptr \<Rightarrow> ptr \<Rightarrow> bool"
    and meta :: "'h \<Rightarrow> 'm"
  assumes set_prev_ok: "good_base b \<Longrightarrow> p = nullptr \<or> valid b p \<Longrightarrow>
      \<exists>h'. ho_set_prev T h p b = Some h' \<and> ho_get_prev T h' b = p \<and>
           ho_get_next T h' b = ho_get_next T h b \<and>
           ho_is_linked T h' = ho_is_linked T h \<and> meta h' = meta h"
    and set_next_ok: "good_base b \<Longrightarrow> p = nullptr \<or> valid b p \<Longrightarrow>
      \<exists>h'. ho_set_next T h p b = Some h' \<and> ho_get_next T h' b = p \<and>
           ho_get_prev T h' b = ho_get_prev T h b \<and>
           ho_is_linked T h' = ho_is_linked T h \<and> meta h' = meta h"
    and set_linked_ok: "ho_get_prev T (ho_set_linked T h) b = ho_get_prev T h b"
      "ho_get_next T (ho_set_linked T h) b = ho_get_next T h b"
      "ho_is_linked T (ho_set_linked T h)" "meta (ho_set_linked T h) = meta h"
    and clear_linked_ok: "ho_get_prev T (ho_clear_linked T h) b = ho_get_prev T h b"
      "ho_get_next T (ho_clear_linked T h) b = ho_get_next T h b"
      "\<not> ho_is_linked T (ho_clear_linked T h)" "meta (ho_clear_linked T h) = meta h"
    and is_end_prev_ok: "good_base b \<Longrightarrow> ho_is_end_prev T h \<longleftrightarrow> ho_get_prev T h b = nullptr"
begin

text \<open>The state of a list as four functions, so that each pointer write is a function update.\<close>

abbreviation prv :: "'h ilist \<Rightarrow> ptr \<Rightarrow> ptr" where "prv L \<equiv> il_get_prev T L"
abbreviation nxt :: "'h ilist \<Rightarrow> ptr \<Rightarrow> ptr" where "nxt L \<equiv> il_get_next T L"
abbreviation lnk :: "'h ilist \<Rightarrow> ptr \<Rightarrow> bool" where "lnk L \<equiv> il_linked T L"
abbreviation met :: "'h ilist \<Rightarrow> ptr \<Rightarrow> 'm" where "met L \<equiv> il_meta meta L"

lemmas view_defs = il_get_prev_def il_get_next_def il_linked_def il_meta_def fun_eq_iff

text \<open>The effect of pointer writes: the chain functions, and that nothing else changed.\<close>

definition eff :: "'h ilist \<Rightarrow> 'h ilist \<Rightarrow> (ptr \<Rightarrow> ptr) \<Rightarrow> (ptr \<Rightarrow> ptr) \<Rightarrow> bool" where
  "eff L L' pv nx \<longleftrightarrow>
     prv L' = pv \<and> nxt L' = nx \<and> lnk L' = lnk L \<and> met L' = met L \<and>
     head_ptr L' = head_ptr L \<and> tail_ptr L' = tail_ptr L \<and> il_base L' = il_base L \<and>
     il_size L' = il_size L"

lemma set_prev_of_eff:
  assumes "good_base (il_base L)" "q = nullptr \<or> valid (il_base L) q"
  shows "\<exists>L'. set_prev_of T p q L = Some L' \<and> eff L L' ((prv L)(p := q)) (nxt L)"
proof -
  from set_prev_ok [OF assms, of "il_hooks L p"] obtain h' where h':
    "ho_set_prev T (il_hooks L p) q (il_base L) = Some h'" "ho_get_prev T h' (il_base L) = q"
    "ho_get_next T h' (il_base L) = ho_get_next T (il_hooks L p) (il_base L)"
    "ho_is_linked T h' = ho_is_linked T (il_hooks L p)" "meta h' = meta (il_hooks L p)"
    by blast
  show ?thesis
    by (rule exI [of _ "L\<lparr>il_hooks := (il_hooks L)(p := h')\<rparr>"])
      (auto simp: eff_def set_prev_of_def view_defs h')
qed

lemma set_next_of_eff:
  assumes "good_base (il_base L)" "q = nullptr \<or> valid (il_base L) q"
  shows "\<exists>L'. set_next_of T p q L = Some L' \<and> eff L L' (prv L) ((nxt L)(p := q))"
proof -
  from set_next_ok [OF assms, of "il_hooks L p"] obtain h' where h':
    "ho_set_next T (il_hooks L p) q (il_base L) = Some h'" "ho_get_next T h' (il_base L) = q"
    "ho_get_prev T h' (il_base L) = ho_get_prev T (il_hooks L p) (il_base L)"
    "ho_is_linked T h' = ho_is_linked T (il_hooks L p)" "meta h' = meta (il_hooks L p)"
    by blast
  show ?thesis
    by (rule exI [of _ "L\<lparr>il_hooks := (il_hooks L)(p := h')\<rparr>"])
      (auto simp: eff_def set_next_of_def view_defs h')
qed

lemma mark_linked_simps [simp]:
  "prv (mark_linked T p L) = prv L" "nxt (mark_linked T p L) = nxt L"
  "lnk (mark_linked T p L) = (lnk L)(p := True)" "met (mark_linked T p L) = met L"
  "head_ptr (mark_linked T p L) = head_ptr L" "tail_ptr (mark_linked T p L) = tail_ptr L"
  "il_base (mark_linked T p L) = il_base L" "il_size (mark_linked T p L) = il_size L"
  by (auto simp: mark_linked_def view_defs set_linked_ok)

lemma mark_unlinked_simps [simp]:
  "prv (mark_unlinked T p L) = prv L" "nxt (mark_unlinked T p L) = nxt L"
  "lnk (mark_unlinked T p L) = (lnk L)(p := False)" "met (mark_unlinked T p L) = met L"
  "head_ptr (mark_unlinked T p L) = head_ptr L" "tail_ptr (mark_unlinked T p L) = tail_ptr L"
  "il_base (mark_unlinked T p L) = il_base L" "il_size (mark_unlinked T p L) = il_size L"
  by (auto simp: mark_unlinked_def view_defs clear_linked_ok)

lemma field_update_simps [simp]:
  "prv (L\<lparr>head_ptr := q\<rparr>) = prv L" "nxt (L\<lparr>head_ptr := q\<rparr>) = nxt L"
  "prv (L\<lparr>tail_ptr := q\<rparr>) = prv L" "nxt (L\<lparr>tail_ptr := q\<rparr>) = nxt L"
  "prv (L\<lparr>il_size := n\<rparr>) = prv L" "nxt (L\<lparr>il_size := n\<rparr>) = nxt L"
  "lnk (L\<lparr>head_ptr := q\<rparr>) = lnk L" "met (L\<lparr>head_ptr := q\<rparr>) = met L"
  "lnk (L\<lparr>tail_ptr := q\<rparr>) = lnk L" "met (L\<lparr>tail_ptr := q\<rparr>) = met L"
  "lnk (L\<lparr>il_size := n\<rparr>) = lnk L" "met (L\<lparr>il_size := n\<rparr>) = met L"
  by (auto simp: view_defs)

abbreviation rep :: "'h ilist \<Rightarrow> ptr list \<Rightarrow> bool" where
  "rep \<equiv> represents T good_base valid"

lemma rep_good: "rep L xs \<Longrightarrow> good_base (il_base L)"
  by (simp add: represents_def)

text \<open>
  An operation \<open>refines\<close> a sequence operation: it returns a list that represents the new
  sequence over the same base, and leaves the metadata of every hook alone.
\<close>

definition refines :: "'h ilist option \<Rightarrow> 'h ilist \<Rightarrow> ptr list \<Rightarrow> bool" where
  "refines r L ys \<longleftrightarrow> (\<exists>L'. r = Some L' \<and> rep L' ys \<and> met L' = met L \<and> il_base L' = il_base L)"

text \<open>The chain without the flags and the count.\<close>

definition chain :: "'h ilist \<Rightarrow> ptr list \<Rightarrow> bool" where
  "chain L xs \<longleftrightarrow>
     good_base (il_base L) \<and> distinct xs \<and> nullptr \<notin> set xs \<and> (\<forall>p\<in>set xs. valid (il_base L) p) \<and>
     seg (prv L) (nxt L) nullptr xs nullptr \<and>
     head_ptr L = first_or xs nullptr \<and> tail_ptr L = last_or nullptr xs"

definition keeps :: "'h ilist \<Rightarrow> 'h ilist \<Rightarrow> bool" where
  "keeps L L' \<longleftrightarrow> lnk L' = lnk L \<and> met L' = met L \<and> il_base L' = il_base L \<and> il_size L' = il_size L"

lemma rep_chain:
  "rep L xs \<longleftrightarrow> chain L xs \<and> (\<forall>p\<in>set xs. lnk L p) \<and> il_size L = of_nat (length xs)"
  by (auto simp: represents_def chain_def)

lemma chain_frame [simp]:
  "chain (mark_linked T p L) xs = chain L xs" "chain (mark_unlinked T p L) xs = chain L xs"
  "chain (L\<lparr>il_size := n\<rparr>) xs = chain L xs"
  by (simp_all add: chain_def)

lemma relink_head_chain:
  assumes "chain L xs" "x \<notin> set xs" "x \<noteq> nullptr" "valid (il_base L) x"
  shows "\<exists>L'. relink_head T x L = Some L' \<and> chain L' (x # xs) \<and> keeps L L'"
proof -
  have gb: "good_base (il_base L)" using assms(1) by (simp add: chain_def)
  obtain L1 where L1: "set_prev_of T x nullptr L = Some L1" "eff L L1 ((prv L)(x := nullptr)) (nxt L)"
    using set_prev_of_eff [OF gb, of nullptr x] by auto
  obtain L2 where L2: "set_next_of T x (head_ptr L1) L1 = Some L2"
      "eff L1 L2 (prv L1) ((nxt L1)(x := head_ptr L1))"
    using set_next_of_eff [of L1 "head_ptr L1" x] L1 assms(1)
    by (cases xs) (auto simp: eff_def chain_def)
  show ?thesis
  proof (cases xs)
    case Nil
    with assms L1 L2 show ?thesis
      by (auto simp: relink_head_def chain_def eff_def keeps_def)
  next
    case (Cons y ys)
    obtain L3 where L3: "set_prev_of T y x L2 = Some L3" "eff L2 L3 ((prv L2)(y := x)) (nxt L2)"
      using set_prev_of_eff [of L2 x y] L1 L2 gb assms(4) by (auto simp: eff_def)
    from Cons assms L1 L2 L3 show ?thesis
      by (auto simp: relink_head_def chain_def eff_def keeps_def)
  qed
qed

lemma bypass_chain:
  assumes "chain L (ys @ x # zs)"
  shows "\<exists>L'. bypass T x L = Some L' \<and> chain L' (ys @ zs) \<and> keeps L L'"
proof -
  have gb: "good_base (il_base L)" using assms by (simp add: chain_def)
  have p: "prv L x = last_or nullptr ys" and n: "nxt L x = first_or zs nullptr"
    using assms by (simp_all add: chain_def)
  obtain L1 where L1: "(if prv L x \<noteq> nullptr then set_next_of T (prv L x) (nxt L x) L
       else Some (L\<lparr>head_ptr := nxt L x\<rparr>)) = Some L1"
    and e1: "prv L1 = prv L" "nxt L1 = (if ys = [] then nxt L else (nxt L)(last ys := nxt L x))"
      "head_ptr L1 = first_or (ys @ zs) nullptr" "tail_ptr L1 = tail_ptr L" "keeps L L1"
  proof (cases ys rule: rev_cases)
    case Nil
    with p n show thesis by (intro that [of "L\<lparr>head_ptr := nxt L x\<rparr>"]) (auto simp: keeps_def)
  next
    case (snoc us u)
    have "nxt L x = nullptr \<or> valid (il_base L) (nxt L x)"
      using n assms by (cases zs) (auto simp: chain_def)
    from set_next_of_eff [OF gb this, of u] snoc p assms show thesis
      by (auto simp: eff_def keeps_def chain_def intro!: that)
  qed
  obtain L2 where L2: "(if nxt L x \<noteq> nullptr then set_prev_of T (nxt L x) (prv L x) L1
       else Some (L1\<lparr>tail_ptr := prv L x\<rparr>)) = Some L2"
    and e2: "prv L2 = (if zs = [] then prv L1 else (prv L1)(hd zs := prv L x))" "nxt L2 = nxt L1"
      "head_ptr L2 = head_ptr L1" "tail_ptr L2 = last_or nullptr (ys @ zs)" "keeps L L2"
  proof (cases zs)
    case Nil
    with p n e1 show thesis by (intro that [of "L1\<lparr>tail_ptr := prv L x\<rparr>"]) (auto simp: keeps_def)
  next
    case (Cons z ws)
    have gb1: "good_base (il_base L1)" and "prv L x = nullptr \<or> valid (il_base L1) (prv L x)"
      using p assms gb e1(5) by (cases ys rule: rev_cases; auto simp: chain_def keeps_def)+
    from set_prev_of_eff [OF this, of z] Cons n e1 assms show thesis
      by (auto simp: eff_def keeps_def chain_def intro!: that)
  qed
  have "chain L2 (ys @ zs)"
    using assms p n e1 e2
    by (cases ys rule: rev_cases; cases zs) (auto simp: chain_def keeps_def)
  moreover have "bypass T x L = Some L2"
    using L1 L2 by (simp add: bypass_def)
  ultimately show ?thesis using e2(5) by blast
qed

lemma chain_length: "chain L xs \<Longrightarrow> length xs < 2 ^ 64"
proof -
  assume "chain L xs"
  then have "distinct xs" "nullptr \<notin> set xs" by (simp_all add: chain_def)
  then have "length xs = card (set xs)" "set xs \<subset> (UNIV :: ptr set)"
    by (auto simp: distinct_card)
  then have "length xs < card (UNIV :: ptr set)"
    by (simp add: psubset_card_mono)
  then show ?thesis by (simp add: card_word)
qed

lemma link_at_head_refines:
  assumes "rep L xs" "x \<notin> set xs" "x \<noteq> nullptr" "valid (il_base L) x"
  shows "refines (link_at_head T x L) L (x # xs)"
  using relink_head_chain [of L xs x] assms
  by (auto simp: refines_def link_at_head_def rep_chain keeps_def)

lemma link_at_tail_refines:
  assumes "rep L xs" "x \<notin> set xs" "x \<noteq> nullptr" "valid (il_base L) x"
  shows "refines (link_at_tail T x L) L (xs @ [x])"
proof -
  have gb: "good_base (il_base L)" by (rule rep_good [OF assms(1)])
  obtain L1 where L1: "set_next_of T x nullptr L = Some L1" "eff L L1 (prv L) ((nxt L)(x := nullptr))"
    using set_next_of_eff [OF gb, of nullptr x] by auto
  obtain L2 where L2: "set_prev_of T x (tail_ptr L1) L1 = Some L2"
      "eff L1 L2 ((prv L1)(x := tail_ptr L1)) (nxt L1)"
    using set_prev_of_eff [of L1 "tail_ptr L1" x] L1 assms(1)
    by (cases xs rule: rev_cases) (auto simp: eff_def represents_def)
  show ?thesis
  proof (cases xs rule: rev_cases)
    case Nil
    with assms L1 L2 show ?thesis
      by (auto simp: refines_def link_at_tail_def represents_def eff_def)
  next
    case (snoc ys y)
    obtain L3 where L3: "set_next_of T y x L2 = Some L3" "eff L2 L3 (prv L2) ((nxt L2)(y := x))"
      using set_next_of_eff [of L2 x y] L1 L2 gb assms(4) by (auto simp: eff_def)
    from snoc assms L1 L2 L3 show ?thesis
      by (auto simp: refines_def link_at_tail_def represents_def eff_def)
  qed
qed

lemma insert_before_refines:
  assumes "rep L (ys @ n # zs)" "x \<notin> set (ys @ n # zs)" "x \<noteq> nullptr" "valid (il_base L) x"
  shows "refines (insert_before T n x L) L (ys @ x # n # zs)"
proof -
  have gb: "good_base (il_base L)" by (rule rep_good [OF assms(1)])
  have p: "prv L n = last_or nullptr ys" using assms(1) by (simp add: represents_def)
  then have pv: "prv L n = nullptr \<or> valid (il_base L) (prv L n)"
    using assms(1) by (cases ys rule: rev_cases) (auto simp: represents_def)
  obtain L1 where L1: "set_prev_of T x (prv L n) L = Some L1" "eff L L1 ((prv L)(x := prv L n)) (nxt L)"
    using set_prev_of_eff [OF gb pv, of x] by auto
  obtain L2 where L2: "set_next_of T x n L1 = Some L2" "eff L1 L2 (prv L1) ((nxt L1)(x := n))"
    using set_next_of_eff [of L1 n x] L1 gb assms(1) by (auto simp: eff_def represents_def)
  obtain L3 where L3: "(if prv L n \<noteq> nullptr then set_next_of T (prv L n) x L2
       else Some (L2\<lparr>head_ptr := x\<rparr>)) = Some L3"
    and e3: "prv L3 = prv L2" "nxt L3 = (if ys = [] then nxt L2 else (nxt L2)(last ys := x))"
      "head_ptr L3 = first_or ys x" "tail_ptr L3 = tail_ptr L" "keeps L L3"
  proof (cases ys rule: rev_cases)
    case Nil
    with p L1 L2 show thesis
      by (intro that [of "L2\<lparr>head_ptr := x\<rparr>"]) (auto simp: keeps_def eff_def)
  next
    case (snoc us u)
    have "good_base (il_base L2)" "x = nullptr \<or> valid (il_base L2) x"
      using L1 L2 gb assms(4) by (auto simp: eff_def)
    from set_next_of_eff [OF this, of u] snoc p L1 L2 assms show thesis
      by (auto simp: eff_def keeps_def represents_def intro!: that)
  qed
  obtain L4 where L4: "set_prev_of T n x L3 = Some L4" "eff L3 L4 ((prv L3)(n := x)) (nxt L3)"
    using set_prev_of_eff [of L3 x n] e3(5) gb assms(4) by (auto simp: keeps_def)
  have pv4: "prv L4 = (prv L)(x := last_or nullptr ys, n := x)"
    and nx4: "nxt L4 = (if ys = [] then (nxt L)(x := n) else (nxt L)(x := n, last ys := x))"
    and ends: "head_ptr L4 = first_or ys x" "tail_ptr L4 = tail_ptr L" and k4: "keeps L L4"
    using L1(2) L2(2) L4(2) e3 p by (simp_all add: eff_def keeps_def)
  have c: "chain L (ys @ n # zs)" using assms(1) by (simp add: rep_chain)
  have "seg (prv L4) (nxt L4) nullptr (ys @ x # n # zs) nullptr"
    using c assms(2) unfolding pv4 nx4
    by (cases ys rule: rev_cases) (auto simp: chain_def)
  then have "chain L4 (ys @ x # n # zs)"
    using c assms(2,3,4) ends k4 by (simp add: chain_def keeps_def)
  moreover have "insert_before T n x L = Some (mark_linked T x L4\<lparr>il_size := il_size L4 + 1\<rparr>)"
    using L1(1) L2(1) L3 L4(1) by (simp add: insert_before_def)
  ultimately show ?thesis
    using assms(1) k4 by (simp add: refines_def rep_chain keeps_def)
qed

lemma unlink_chain:
  assumes "rep L (ys @ x # zs)"
  shows "\<exists>L'. unlink T x L = Some L' \<and> rep L' (ys @ zs) \<and> met L' = met L \<and> il_base L' = il_base L"
proof -
  from assms have "chain L (ys @ x # zs)" by (simp add: rep_chain)
  from bypass_chain [OF this] assms show ?thesis
    by (auto simp: unlink_def rep_chain keeps_def chain_def)
qed

text \<open>Clearing the links of a node outside the chain.\<close>

lemma detach_refines:
  assumes "rep L xs" "x \<notin> set xs"
  shows "refines (do { L \<leftarrow> set_prev_of T x nullptr L; set_next_of T x nullptr L }) L xs"
proof -
  have gb: "good_base (il_base L)" by (rule rep_good [OF assms(1)])
  obtain L1 where L1: "set_prev_of T x nullptr L = Some L1" "eff L L1 ((prv L)(x := nullptr)) (nxt L)"
    using set_prev_of_eff [OF gb, of nullptr x] by auto
  obtain L2 where "set_next_of T x nullptr L1 = Some L2" "eff L1 L2 (prv L1) ((nxt L1)(x := nullptr))"
    using set_next_of_eff [of L1 nullptr x] L1 gb by (auto simp: eff_def)
  with L1 assms show ?thesis
    by (auto simp: refines_def represents_def eff_def)
qed

lemma il_remove_refines:
  assumes "rep L (ys @ x # zs)"
  shows "refines (il_remove T x L) L (ys @ zs)"
proof -
  obtain L1 where L1: "unlink T x L = Some L1" "rep L1 (ys @ zs)" "met L1 = met L" "il_base L1 = il_base L"
    using unlink_chain [OF assms] by blast
  have "x \<notin> set (ys @ zs)" using assms by (auto simp: represents_def)
  from detach_refines [OF L1(2) this] L1 show ?thesis
    by (auto simp: refines_def il_remove_def)
qed

lemma move_to_head_refines:
  assumes "rep L (ys @ x # zs)"
  shows "refines (move_to_head T x L) L (x # ys @ zs)"
proof (cases "ys = []")
  case True
  have "good_base (il_base L)" by (rule rep_good [OF assms])
  with True assms have "ho_is_end_prev T (il_hooks L x)"
    by (simp add: is_end_prev_ok [of "il_base L"] represents_def il_get_prev_def)
  with True assms show ?thesis by (simp add: refines_def move_to_head_def)
next
  case False
  then have "last ys \<in> set ys" by simp
  moreover have "nullptr \<notin> set ys" using assms by (simp add: represents_def)
  ultimately have "last ys \<noteq> nullptr" by metis
  with False assms have "prv L x \<noteq> nullptr" "good_base (il_base L)"
    by (auto simp: represents_def last_or_def)
  then have ne: "\<not> ho_is_end_prev T (il_hooks L x)"
    by (simp add: is_end_prev_ok [of "il_base L"] il_get_prev_def)
  from assms have c: "chain L (ys @ x # zs)" by (simp add: rep_chain)
  obtain L1 where L1: "bypass T x L = Some L1" "chain L1 (ys @ zs)" "keeps L L1"
    using bypass_chain [OF c] by blast
  have x: "x \<notin> set (ys @ zs)" "x \<noteq> nullptr" "valid (il_base L1) x"
    using c L1(3) by (auto simp: chain_def keeps_def)
  obtain L2 where L2: "relink_head T x L1 = Some L2" "chain L2 (x # ys @ zs)" "keeps L1 L2"
    using relink_head_chain [OF L1(2) x] by blast
  with ne L1(1) have "move_to_head T x L = Some L2" by (simp add: move_to_head_def)
  moreover have "keeps L L2" using L1(3) L2(3) by (simp add: keeps_def)
  ultimately show ?thesis
    using assms L2(2) by (simp add: refines_def rep_chain keeps_def)
qed

lemma replace_refines:
  assumes "rep L (ys @ old # zs)" "new \<notin> set (ys @ old # zs)" "new \<noteq> nullptr" "valid (il_base L) new"
  shows "refines (replace T old new L) L (ys @ new # zs)"
proof -
  have gb: "good_base (il_base L)" by (rule rep_good [OF assms(1)])
  have c: "chain L (ys @ old # zs)" using assms(1) by (simp add: rep_chain)
  have p: "prv L old = last_or nullptr ys" and n: "nxt L old = first_or zs nullptr"
    using c by (simp_all add: chain_def)
  have pv: "prv L old = nullptr \<or> valid (il_base L) (prv L old)"
    using c p by (cases ys rule: rev_cases) (auto simp: chain_def)
  have nv: "nxt L old = nullptr \<or> valid (il_base L) (nxt L old)"
    using c n by (cases zs) (auto simp: chain_def)
  obtain L1 where L1: "set_prev_of T new (prv L old) L = Some L1"
      "eff L L1 ((prv L)(new := prv L old)) (nxt L)"
    using set_prev_of_eff [OF gb pv, of new] by auto
  obtain L2 where L2: "set_next_of T new (nxt L old) L1 = Some L2"
      "eff L1 L2 (prv L1) ((nxt L1)(new := nxt L old))"
    using set_next_of_eff [of L1 "nxt L old" new] L1 gb nv by (auto simp: eff_def)
  obtain L3 where L3: "(if prv L old \<noteq> nullptr then set_next_of T (prv L old) new L2
       else Some (L2\<lparr>head_ptr := new\<rparr>)) = Some L3"
    and e3: "prv L3 = prv L2" "nxt L3 = (if ys = [] then nxt L2 else (nxt L2)(last ys := new))"
      "head_ptr L3 = first_or ys new" "tail_ptr L3 = tail_ptr L" "keeps L L3"
  proof (cases ys rule: rev_cases)
    case Nil
    with p L1 L2 show thesis
      by (intro that [of "L2\<lparr>head_ptr := new\<rparr>"]) (auto simp: keeps_def eff_def)
  next
    case (snoc us u)
    have "good_base (il_base L2)" "new = nullptr \<or> valid (il_base L2) new"
      using L1 L2 gb assms(4) by (auto simp: eff_def)
    from set_next_of_eff [OF this, of u] snoc p L1 L2 c show thesis
      by (auto simp: eff_def keeps_def chain_def intro!: that)
  qed
  obtain L4 where L4: "(if nxt L old \<noteq> nullptr then set_prev_of T (nxt L old) new L3
       else Some (L3\<lparr>tail_ptr := new\<rparr>)) = Some L4"
    and e4: "prv L4 = (if zs = [] then prv L3 else (prv L3)(hd zs := new))" "nxt L4 = nxt L3"
      "head_ptr L4 = head_ptr L3" "tail_ptr L4 = last_or new zs" "keeps L L4"
  proof (cases zs)
    case Nil
    with n e3 show thesis by (intro that [of "L3\<lparr>tail_ptr := new\<rparr>"]) (auto simp: keeps_def)
  next
    case (Cons z ws)
    have "good_base (il_base L3)" "new = nullptr \<or> valid (il_base L3) new"
      using e3(5) gb assms(4) by (auto simp: keeps_def)
    from set_prev_of_eff [OF this, of z] Cons n e3 c show thesis
      by (auto simp: eff_def keeps_def chain_def intro!: that)
  qed
  obtain L5 where L5: "set_prev_of T old nullptr L4 = Some L5" "eff L4 L5 ((prv L4)(old := nullptr)) (nxt L4)"
    using set_prev_of_eff [of L4 nullptr old] e4(5) gb by (auto simp: keeps_def)
  obtain L6 where L6: "set_next_of T old nullptr L5 = Some L6" "eff L5 L6 (prv L5) ((nxt L5)(old := nullptr))"
    using set_next_of_eff [of L5 nullptr old] L5 e4(5) gb by (auto simp: eff_def keeps_def)
  have pv6: "prv L6 = (if zs = [] then (prv L)(new := last_or nullptr ys)
        else (prv L)(new := last_or nullptr ys, hd zs := new))(old := nullptr)"
    and nx6: "nxt L6 = (if ys = [] then (nxt L)(new := first_or zs nullptr)
        else (nxt L)(new := first_or zs nullptr, last ys := new))(old := nullptr)"
    and ends: "head_ptr L6 = first_or ys new" "tail_ptr L6 = last_or new zs" and k6: "keeps L L6"
    using L1(2) L2(2) e3 e4 L5(2) L6(2) p n by (simp_all add: eff_def keeps_def)
  have "seg (prv L6) (nxt L6) nullptr (ys @ new # zs) nullptr"
    using c assms(2) unfolding pv6 nx6
    by (cases ys rule: rev_cases; cases zs) (auto simp: chain_def)
  then have "chain L6 (ys @ new # zs)"
    using c assms(2,3,4) ends k6 by (simp add: chain_def keeps_def)
  moreover have "replace T old new L = Some (mark_linked T new (mark_unlinked T old L6))"
    using L1(1) L2(1) L3 L4 L5(1) L6(1) by (simp add: replace_def)
  moreover have "\<forall>q\<in>set (ys @ new # zs). lnk (mark_linked T new (mark_unlinked T old L6)) q"
    using assms(1) k6 by (auto simp: rep_chain keeps_def chain_def)
  moreover have "old \<notin> set ys" "old \<notin> set zs" using c by (auto simp: chain_def)
  ultimately show ?thesis
    using assms(1) k6 by (simp add: refines_def rep_chain keeps_def)
qed

lemma il_empty_iff: "rep L xs \<Longrightarrow> il_empty L \<longleftrightarrow> xs = []"
  using chain_length [of L xs]
  by (auto simp: rep_chain il_empty_def word_of_nat_eq_0_iff dest: nat_dvd_not_less)

lemma pop_tail_refines:
  assumes "rep L (xs @ [x])"
  shows "\<exists>L'. pop_tail T L = Some (x, L') \<and> rep L' xs \<and> met L' = met L \<and> il_base L' = il_base L"
proof -
  have "tail_ptr L = x" using assms by (simp add: represents_def)
  moreover have "\<not> il_empty L" using il_empty_iff [OF assms] by simp
  moreover have "refines (il_remove T x L) L xs"
    using il_remove_refines [of L xs x "[]"] assms by simp
  ultimately show ?thesis
    by (auto simp: pop_tail_def refines_def il_remove_def bind_eq_Some_conv)
qed

lemma pop_head_refines:
  assumes "rep L (x # xs)"
  shows "\<exists>L'. pop_head T L = Some (x, L') \<and> rep L' xs \<and> met L' = met L \<and> il_base L' = il_base L"
proof -
  have "head_ptr L = x" using assms by (simp add: represents_def)
  moreover have "\<not> il_empty L" using il_empty_iff [OF assms] by simp
  moreover have "refines (il_remove T x L) L xs"
    using il_remove_refines [of L "[]" x xs] assms by simp
  ultimately show ?thesis
    by (auto simp: pop_head_def refines_def il_remove_def bind_eq_Some_conv)
qed

lemma clear_loop_ends:
  assumes "good_base (il_base L)" "seg (prv L) (nxt L) a xs nullptr" "nullptr \<notin> set xs"
    "distinct xs" "length xs \<le> fuel"
  shows "\<exists>L'. clear_loop T fuel (first_or xs nullptr) L = Some L' \<and> met L' = met L \<and>
     il_base L' = il_base L \<and> (\<forall>p. lnk L' p \<longleftrightarrow> lnk L p \<and> p \<notin> set xs)"
  using assms
proof (induction xs arbitrary: a L fuel)
  case Nil
  then show ?case by (simp add: clear_loop.simps)
next
  case (Cons x xs)
  then obtain k where k: "fuel = Suc k" "length xs \<le> k" by (cases fuel) auto
  have gb: "good_base (il_base L)" by fact
  obtain L1 where L1: "set_prev_of T x nullptr L = Some L1" "eff L L1 ((prv L)(x := nullptr)) (nxt L)"
    using set_prev_of_eff [OF gb, of nullptr x] by auto
  obtain L2 where L2: "set_next_of T x nullptr L1 = Some L2" "eff L1 L2 (prv L1) ((nxt L1)(x := nullptr))"
    using set_next_of_eff [of L1 nullptr x] L1 gb by (auto simp: eff_def)
  let ?L3 = "mark_unlinked T x L2"
  have "seg (prv ?L3) (nxt ?L3) x xs nullptr" "good_base (il_base ?L3)"
    using Cons.prems L1 L2 by (auto simp: eff_def)
  from Cons.IH [OF this(2,1) _ _ k(2)] Cons.prems obtain L' where
    "clear_loop T k (first_or xs nullptr) ?L3 = Some L'" "met L' = met ?L3"
    "il_base L' = il_base ?L3" "\<forall>p. lnk L' p \<longleftrightarrow> lnk ?L3 p \<and> p \<notin> set xs" by auto
  with Cons.prems L1 L2 k show ?case
    by (auto simp: clear_loop.simps [of T "Suc k" x] eff_def)
qed

lemma clear_refines:
  assumes "rep L xs" "length xs \<le> fuel"
  shows "\<exists>L'. clear T fuel L = Some L' \<and> rep L' [] \<and> met L' = met L \<and> il_base L' = il_base L \<and>
    (\<forall>p\<in>set xs. \<not> lnk L' p)"
proof -
  from assms clear_loop_ends [of L nullptr xs fuel] obtain L' where
    "clear_loop T fuel (head_ptr L) L = Some L'" "met L' = met L" "il_base L' = il_base L"
    "\<forall>p. lnk L' p \<longleftrightarrow> lnk L p \<and> p \<notin> set xs"
    by (auto simp: represents_def)
  with assms show ?thesis by (auto simp: clear_def represents_def)
qed

lemma iter_fwd_rep: "rep L xs \<Longrightarrow> length xs \<le> fuel \<Longrightarrow> iter_fwd T fuel L = Some xs"
  using walk_next by (auto simp: represents_def iter_fwd_def)

lemma iter_bwd_rep: "rep L xs \<Longrightarrow> length xs \<le> fuel \<Longrightarrow> iter_bwd T fuel L = Some (rev xs)"
  using walk_prev by (auto simp: represents_def iter_bwd_def)

end

section \<open>The list as a sequence\<close>

text \<open>
  The contract of the class: each call as an operation on the sequence of items, head
  first. \<open>None\<close> marks a call the class does not support: linking an item that is
  already linked, or removing, moving or replacing one that is not.
\<close>

datatype seq_op =
    LinkHead ptr
  | LinkTail ptr
  | InsertBefore ptr ptr
  | Remove ptr
  | MoveToHead ptr
  | Replace ptr ptr
  | PopTail
  | PopHead
  | Clear

fun seq_step :: "(ptr \<Rightarrow> bool) \<Rightarrow> seq_op \<Rightarrow> ptr list \<Rightarrow> (ptr \<times> ptr list) option" where
  "seq_step ok (LinkHead x) xs =
     (if ok x \<and> x \<noteq> nullptr \<and> x \<notin> set xs then Some (nullptr, x # xs) else None)"
| "seq_step ok (LinkTail x) xs =
     (if ok x \<and> x \<noteq> nullptr \<and> x \<notin> set xs then Some (nullptr, xs @ [x]) else None)"
| "seq_step ok (InsertBefore n x) xs =
     (if ok x \<and> x \<noteq> nullptr \<and> x \<notin> set xs \<and> n \<in> set xs
      then Some (nullptr, takeWhile (\<lambda>y. y \<noteq> n) xs @ x # dropWhile (\<lambda>y. y \<noteq> n) xs) else None)"
| "seq_step ok (Remove x) xs = (if x \<in> set xs then Some (nullptr, remove1 x xs) else None)"
| "seq_step ok (MoveToHead x) xs = (if x \<in> set xs then Some (nullptr, x # remove1 x xs) else None)"
| "seq_step ok (Replace old new) xs =
     (if ok new \<and> new \<noteq> nullptr \<and> new \<notin> set xs \<and> old \<in> set xs
      then Some (nullptr, map (\<lambda>y. if y = old then new else y) xs) else None)"
| "seq_step ok PopTail xs = Some (if xs = [] then (nullptr, []) else (last xs, butlast xs))"
| "seq_step ok PopHead xs = Some (if xs = [] then (nullptr, []) else (hd xs, tl xs))"
| "seq_step ok Clear xs = Some (nullptr, [])"

fun seq_run :: "(ptr \<Rightarrow> bool) \<Rightarrow> seq_op list \<Rightarrow> ptr list \<Rightarrow> (ptr list \<times> ptr list) option" where
  "seq_run ok [] xs = Some ([], xs)"
| "seq_run ok (a # as) xs = do {
     (r, ys) \<leftarrow> seq_step ok a xs;
     (rs, zs) \<leftarrow> seq_run ok as ys;
     Some (r # rs, zs)
   }"

text \<open>The same calls on the list in memory; calls that return nothing return \<open>nullptr\<close>.\<close>

fun il_step :: "'h hook_ops \<Rightarrow> seq_op \<Rightarrow> 'h ilist \<Rightarrow> (ptr \<times> 'h ilist) option" where
  "il_step T (LinkHead x) L = map_option (Pair nullptr) (link_at_head T x L)"
| "il_step T (LinkTail x) L = map_option (Pair nullptr) (link_at_tail T x L)"
| "il_step T (InsertBefore n x) L = map_option (Pair nullptr) (insert_before T n x L)"
| "il_step T (Remove x) L = map_option (Pair nullptr) (il_remove T x L)"
| "il_step T (MoveToHead x) L = map_option (Pair nullptr) (move_to_head T x L)"
| "il_step T (Replace old new) L = map_option (Pair nullptr) (replace T old new L)"
| "il_step T PopTail L = pop_tail T L"
| "il_step T PopHead L = pop_head T L"
| "il_step T Clear L = map_option (Pair nullptr) (clear T (unat (il_size L)) L)"

fun il_run :: "'h hook_ops \<Rightarrow> seq_op list \<Rightarrow> 'h ilist \<Rightarrow> (ptr list \<times> 'h ilist) option" where
  "il_run T [] L = Some ([], L)"
| "il_run T (a # as) L = do {
     (r, L) \<leftarrow> il_step T a L;
     (rs, L) \<leftarrow> il_run T as L;
     Some (r # rs, L)
   }"

lemma split_at:
  assumes "x \<in> set xs"
  obtains ys zs where "xs = ys @ x # zs" "x \<notin> set ys" "takeWhile (\<lambda>y. y \<noteq> x) xs = ys"
    "dropWhile (\<lambda>y. y \<noteq> x) xs = x # zs" "remove1 x xs = ys @ zs"
proof -
  from split_list_first [OF assms] obtain ys zs where "xs = ys @ x # zs" "x \<notin> set ys" by blast
  moreover from this have "takeWhile (\<lambda>y. y \<noteq> x) xs = ys" "dropWhile (\<lambda>y. y \<noteq> x) xs = x # zs"
    by (simp_all add: takeWhile_tail dropWhile_append3 dropWhile_append2) (metis takeWhile_eq_all_conv)+
  ultimately show thesis using that by (simp add: remove1_append)
qed

context hook_traits
begin

lemma rep_il_new: "good_base b \<Longrightarrow> rep (il_new b hs) []"
  by (simp add: represents_def il_new_def)

lemma size_rep: "rep L xs \<Longrightarrow> unat (il_size L) = length xs"
  using chain_length [of L xs] by (auto simp: rep_chain unat_of_nat)

lemma il_step_refines:
  assumes "rep L xs" "seq_step (valid (il_base L)) a xs = Some (r, ys)"
  shows "\<exists>L'. il_step T a L = Some (r, L') \<and> rep L' ys \<and> met L' = met L \<and> il_base L' = il_base L"
proof (cases a)
  case (LinkHead x)
  with assms link_at_head_refines [of L xs x] show ?thesis by (auto simp: refines_def split: if_splits)
next
  case (LinkTail x)
  with assms link_at_tail_refines [of L xs x] show ?thesis by (auto simp: refines_def split: if_splits)
next
  case (InsertBefore n x)
  with assms obtain us vs where "xs = us @ n # vs" "ys = us @ x # n # vs" "r = nullptr"
    "x \<notin> set xs" "x \<noteq> nullptr" "valid (il_base L) x"
    by (auto split: if_splits elim!: split_at)
  with assms(1) insert_before_refines [of L us n vs x] InsertBefore show ?thesis
    by (auto simp: refines_def)
next
  case (Remove x)
  with assms obtain us vs where "xs = us @ x # vs" "ys = us @ vs" "r = nullptr"
    by (auto split: if_splits elim!: split_at)
  with assms(1) il_remove_refines [of L us x vs] Remove show ?thesis by (auto simp: refines_def)
next
  case (MoveToHead x)
  with assms obtain us vs where "xs = us @ x # vs" "ys = x # us @ vs" "r = nullptr"
    by (auto split: if_splits elim!: split_at)
  with assms(1) move_to_head_refines [of L us x vs] MoveToHead show ?thesis by (auto simp: refines_def)
next
  case (Replace old new)
  with assms obtain us vs where s: "xs = us @ old # vs"
    by (auto split: if_splits dest: split_list)
  have "distinct xs" using assms(1) by (simp add: represents_def)
  with s have "map (\<lambda>y. if y = old then new else y) us = us" "map (\<lambda>y. if y = old then new else y) vs = vs"
    by (auto intro!: map_idI)
  with assms(2) Replace s have "ys = us @ new # vs" "r = nullptr" "new \<notin> set xs" "new \<noteq> nullptr"
    "valid (il_base L) new" by (auto split: if_splits)
  with assms(1) s replace_refines [of L us old vs new] Replace show ?thesis by (auto simp: refines_def)
next
  case PopTail
  with assms pop_tail_refines [of L "butlast xs" "last xs"] il_empty_iff [OF assms(1)] show ?thesis
    by (cases "xs = []") (auto simp: pop_tail_def)
next
  case PopHead
  with assms pop_head_refines [of L "hd xs" "tl xs"] il_empty_iff [OF assms(1)] show ?thesis
    by (cases "xs = []") (auto simp: pop_head_def)
next
  case Clear
  with assms clear_refines [OF assms(1), of "unat (il_size L)"] size_rep [OF assms(1)] show ?thesis by auto
qed

lemma il_run_refines:
  assumes "rep L xs" "seq_run (valid (il_base L)) as xs = Some (rs, ys)"
  shows "\<exists>L'. il_run T as L = Some (rs, L') \<and> rep L' ys \<and> met L' = met L \<and> il_base L' = il_base L"
  using assms
proof (induction as arbitrary: L xs rs)
  case Nil
  then show ?case by simp
next
  case (Cons a as)
  then obtain r zs rs' where s: "seq_step (valid (il_base L)) a xs = Some (r, zs)"
    "seq_run (valid (il_base L)) as zs = Some (rs', ys)" "rs = r # rs'"
    by (auto simp: bind_eq_Some_conv)
  from il_step_refines [OF Cons.prems(1) s(1)] obtain L1 where L1: "il_step T a L = Some (r, L1)"
    "rep L1 zs" "met L1 = met L" "il_base L1 = il_base L" by blast
  from Cons.IH [OF L1(2)] s(2) L1 obtain L' where "il_run T as L1 = Some (rs', L')" "rep L' ys"
    "met L' = met L" "il_base L' = il_base L" by auto
  with L1 s show ?case by simp
qed

lemmas iter_rep = iter_fwd_rep iter_bwd_rep size_rep

end

text \<open>Raw hooks keep everything the links do not use: the time stamp and the other flags.\<close>

definition raw_meta :: "intrusive_hook \<Rightarrow> u32 \<times> bool \<times> bool" where
  "raw_meta h = (ih_update_time h, is_tail h, is_accessed h)"

lemmas flag_defs = is_linked_def set_linked_def clear_linked_def is_tail_def set_tail_def clear_tail_def
  is_accessed_def set_accessed_def clear_accessed_def kLinkedFlag_def kLinkedClearMask_def
  kTailFlag_def kTailClearMask_def kAccessedFlag_def kAccessedClearMask_def

lemma and_flag_bit: "w AND push_bit n (1 :: u8) \<noteq> 0 \<longleftrightarrow> bit w n"
proof
  assume "w AND push_bit n (1 :: u8) \<noteq> 0"
  then obtain m where "bit (w AND push_bit n (1 :: u8)) m" by (auto simp: bit_eq_iff)
  then show "bit w n" by (auto simp: bit_and_iff bit_exp_iff)
next
  assume "bit w n"
  then have "bit (w AND push_bit n (1 :: u8)) n"
    using bit_imp_le_length [of w n] by (simp add: bit_and_iff bit_exp_iff)
  then show "w AND push_bit n (1 :: u8) \<noteq> 0" by (metis bit_0_eq bot_apply bot_bool_def)
qed

lemma u8_flag_bits:
  "n < 8 \<Longrightarrow> bit (w OR push_bit n (1 :: u8)) m \<longleftrightarrow> bit w m \<or> m = n"
  "bit (w AND NOT (push_bit n (1 :: u8))) m \<longleftrightarrow> bit w m \<and> m \<noteq> n"
  using bit_imp_le_length [of w m]
  by (auto simp: bit_or_iff bit_and_iff bit_not_iff bit_exp_iff)

lemma ih_flags_upd: "ih_flags (h\<lparr>ih_flags := w\<rparr>) = w"
  by simp

lemma raw_flag_frame:
  "is_linked (set_linked h)" "\<not> is_linked (clear_linked h)"
  "is_tail (set_linked h) = is_tail h" "is_tail (clear_linked h) = is_tail h"
  "is_accessed (set_linked h) = is_accessed h" "is_accessed (clear_linked h) = is_accessed h"
  unfolding flag_defs and_flag_bit ih_flags_upd u8_flag_bits(2) by (simp_all only: u8_flag_bits) simp_all

lemma flag_link_frame [simp]:
  "is_linked (h\<lparr>ih_prev := p\<rparr>) = is_linked h" "is_linked (h\<lparr>ih_next := p\<rparr>) = is_linked h"
  "is_tail (h\<lparr>ih_prev := p\<rparr>) = is_tail h" "is_tail (h\<lparr>ih_next := p\<rparr>) = is_tail h"
  "is_accessed (h\<lparr>ih_prev := p\<rparr>) = is_accessed h" "is_accessed (h\<lparr>ih_next := p\<rparr>) = is_accessed h"
  by (simp_all add: is_linked_def is_tail_def is_accessed_def)

lemma link_flag_frame [simp]:
  "ih_prev (set_linked h) = ih_prev h" "ih_next (set_linked h) = ih_next h"
  "ih_prev (clear_linked h) = ih_prev h" "ih_next (clear_linked h) = ih_next h"
  "ih_update_time (set_linked h) = ih_update_time h"
  "ih_update_time (clear_linked h) = ih_update_time h"
  by (simp_all add: set_linked_def clear_linked_def)

interpretation raw: hook_traits raw_traits "\<lambda>_. True" "\<lambda>_ _. True" raw_meta
  by unfold_locales (simp_all add: raw_traits_def raw_meta_def raw_flag_frame)

section \<open>Properties\<close>

text \<open>
  C6. A list of raw hooks implements the sequence: whatever calls are made, in any order,
  as long as each is one the class supports, every call succeeds and returns what it returns
  on the sequence; afterwards a forward walk from the head sees exactly that sequence, a
  backward walk from the tail sees it reversed, \<^verbatim>\<open>size()\<close> is its length, every item on it
  carries the linked flag, and no call touched the time stamp, the tail flag or the
  accessed flag of any item.
\<close>

theorem intrusive_list_is_sequence:
  assumes "seq_run (\<lambda>_. True) as [] = Some (rs, ys)"
  shows "\<exists>L. il_run raw_traits as (il_new base hooks) = Some (rs, L) \<and>
     iter_fwd raw_traits (length ys) L = Some ys \<and>
     iter_bwd raw_traits (length ys) L = Some (rev ys) \<and>
     unat (il_size L) = length ys \<and>
     (\<forall>p \<in> set ys. is_linked (il_hooks L p)) \<and>
     (\<forall>p. raw_meta (il_hooks L p) = raw_meta (hooks p))"
proof -
  have "represents raw_traits (\<lambda>_. True) (\<lambda>_ _. True) (il_new base hooks) []"
    by (rule raw.rep_il_new) simp
  from raw.il_run_refines [OF this, of as rs ys] assms obtain L where L:
    "il_run raw_traits as (il_new base hooks) = Some (rs, L)"
    "represents raw_traits (\<lambda>_. True) (\<lambda>_ _. True) L ys"
    "il_meta raw_meta L = il_meta raw_meta (il_new base hooks)" by auto
  then have "\<forall>p. raw_meta (il_hooks L p) = raw_meta (hooks p)"
    by (simp add: il_meta_def fun_eq_iff il_new_def)
  moreover have "\<forall>p \<in> set ys. is_linked (il_hooks L p)"
    using L(2) by (simp add: represents_def il_linked_def raw_traits_def)
  ultimately show ?thesis using L raw.iter_rep by blast
qed

theorem intrusive_list_is_sequence_witness:
  "\<exists>L. il_run raw_traits
        [LinkHead 8, LinkHead 16, LinkTail 24, MoveToHead 8, InsertBefore 24 32, Replace 16 40,
         PopTail, Remove 8] (il_new 0 (\<lambda>_. ih_new)) = Some ([0, 0, 0, 0, 0, 0, 24, 0], L) \<and>
     iter_fwd raw_traits 2 L = Some [40, 32]"
proof -
  have "seq_run (\<lambda>_. True)
        [LinkHead 8, LinkHead 16, LinkTail 24, MoveToHead 8, InsertBefore 24 32, Replace 16 40,
         PopTail, Remove 8] [] = Some ([0, 0, 0, 0, 0, 0, 24, 0], [40, 32])"
    by simp
  from intrusive_list_is_sequence [OF this, of 0 "\<lambda>_. ih_new"] show ?thesis
    by (auto simp del: il_run.simps simp: numeral_2_eq_2)
qed

end
