(* ===== verification/Compressed_Ptr.thy ===== *)
theory Compressed_Ptr
  imports Intrusive_List
begin

unbundle bit_operations_syntax

text \<open>
  \<^verbatim>\<open>src/compressed_ptr.hpp\<close>: 32-bit offsets in place of 64-bit pointers
  (\<open>compressed_ptr\<close>), the list hook built on them (\<open>compressed_intrusive_hook\<close>) and the
  bump allocator that supplies their common base (\<open>compressed_region\<close>).

  The exceptions of the source are values of \<open>compress_error\<close> and \<open>region_error\<close>. The
  hook's traits class instantiates the locale \<open>hook_traits\<close>, so the list of theory
  \<open>Intrusive_List\<close> is shown to work over compressed hooks as well. The allocator
  \<^verbatim>\<open>operator new\<close> is a parameter of the region's constructor; an item constructor that
  throws is not modelled.
\<close>

section \<open>Compressed pointers\<close>

definition kNullOffset :: u32 where "kNullOffset = - 1"
definition kMaxOffset :: u64 where "kMaxOffset = ucast kNullOffset - 1"

datatype compress_error = Pointer_below_base | Offset_exceeds_limit

definition compress :: "ptr \<Rightarrow> ptr \<Rightarrow> compress_error + u32" where
  "compress ptr base =
     (if ptr = nullptr then Inr kNullOffset
      else if ptr < base then Inl Pointer_below_base
      else let diff = ptr - base in
        if diff > ucast (kNullOffset - 1) then Inl Offset_exceeds_limit
        else Inr (ucast diff))"

definition is_null :: "u32 \<Rightarrow> bool" where
  "is_null offset \<longleftrightarrow> offset = kNullOffset"

definition get :: "u32 \<Rightarrow> ptr \<Rightarrow> ptr" where
  "get offset base = (if is_null offset then nullptr else base + ucast offset)"

section \<open>The compressed hook\<close>

record compressed_intrusive_hook =
  prev_offset :: u32
  next_offset :: u32
  cih_update_time :: u32
  cih_flags :: u8
  cih_queue_id :: u8

definition cih_new :: compressed_intrusive_hook where
  "cih_new = \<lparr>prev_offset = 0, next_offset = 0, cih_update_time = 0, cih_flags = 0, cih_queue_id = 0\<rparr>"

definition is_prev_null :: "compressed_intrusive_hook \<Rightarrow> bool" where
  "is_prev_null h \<longleftrightarrow> prev_offset h = kNullOffset"
definition is_next_null :: "compressed_intrusive_hook \<Rightarrow> bool" where
  "is_next_null h \<longleftrightarrow> next_offset h = kNullOffset"

definition cih_prev :: "compressed_intrusive_hook \<Rightarrow> ptr \<Rightarrow> ptr" where
  "cih_prev h base = (if is_prev_null h then nullptr else base + ucast (prev_offset h))"
definition cih_next :: "compressed_intrusive_hook \<Rightarrow> ptr \<Rightarrow> ptr" where
  "cih_next h base = (if is_next_null h then nullptr else base + ucast (next_offset h))"

definition cih_set_prev ::
  "compressed_intrusive_hook \<Rightarrow> ptr \<Rightarrow> ptr \<Rightarrow> compress_error + compressed_intrusive_hook" where
  "cih_set_prev h ptr base =
     (if ptr = nullptr then Inr (h\<lparr>prev_offset := kNullOffset\<rparr>)
      else if ptr < base then Inl Pointer_below_base
      else let diff = ptr - base in
        if diff > ucast (kNullOffset - 1) then Inl Offset_exceeds_limit
        else Inr (h\<lparr>prev_offset := ucast diff\<rparr>))"

definition cih_set_next ::
  "compressed_intrusive_hook \<Rightarrow> ptr \<Rightarrow> ptr \<Rightarrow> compress_error + compressed_intrusive_hook" where
  "cih_set_next h ptr base =
     (if ptr = nullptr then Inr (h\<lparr>next_offset := kNullOffset\<rparr>)
      else if ptr < base then Inl Pointer_below_base
      else let diff = ptr - base in
        if diff > ucast (kNullOffset - 1) then Inl Offset_exceeds_limit
        else Inr (h\<lparr>next_offset := ucast diff\<rparr>))"

definition cih_is_tail :: "compressed_intrusive_hook \<Rightarrow> bool" where
  "cih_is_tail h \<longleftrightarrow> cih_flags h AND kTailFlag \<noteq> 0"
definition cih_is_accessed :: "compressed_intrusive_hook \<Rightarrow> bool" where
  "cih_is_accessed h \<longleftrightarrow> cih_flags h AND kAccessedFlag \<noteq> 0"
definition cih_is_linked :: "compressed_intrusive_hook \<Rightarrow> bool" where
  "cih_is_linked h \<longleftrightarrow> cih_flags h AND kLinkedFlag \<noteq> 0"
definition cih_set_linked :: "compressed_intrusive_hook \<Rightarrow> compressed_intrusive_hook" where
  "cih_set_linked h = h\<lparr>cih_flags := cih_flags h OR kLinkedFlag\<rparr>"
definition cih_clear_linked :: "compressed_intrusive_hook \<Rightarrow> compressed_intrusive_hook" where
  "cih_clear_linked h = h\<lparr>cih_flags := cih_flags h AND kLinkedClearMask\<rparr>"

text \<open>A setter that throws is \<open>None\<close> for the list.\<close>

definition no_throw :: "'e + 'a \<Rightarrow> 'a option" where
  "no_throw r = (case r of Inl _ \<Rightarrow> None | Inr x \<Rightarrow> Some x)"

definition compressed_traits :: "compressed_intrusive_hook hook_ops" where
  "compressed_traits =
     \<lparr>ho_set_prev = (\<lambda>h p base. no_throw (cih_set_prev h p base)),
      ho_set_next = (\<lambda>h p base. no_throw (cih_set_next h p base)),
      ho_get_prev = cih_prev,
      ho_get_next = cih_next,
      ho_is_end_prev = is_prev_null,
      ho_is_end_next = is_next_null,
      ho_is_linked = cih_is_linked,
      ho_set_linked = cih_set_linked,
      ho_clear_linked = cih_clear_linked\<rparr>"

section \<open>The region allocator\<close>

record compressed_region =
  cr_memory :: ptr
  cr_base :: ptr
  cr_item_size :: u64
  cr_capacity_items :: u64
  cr_used :: u64
  cr_destructors :: "ptr list"

datatype region_error = Invalid_argument | Bad_alloc

definition region_new :: "(u64 \<Rightarrow> ptr option) \<Rightarrow> u64 \<Rightarrow> u64 \<Rightarrow> region_error + compressed_region" where
  "region_new operator_new item_count item_size =
     (if item_size = 0 then Inl Invalid_argument
      else if item_count > (- 1) div item_size then Inl Bad_alloc
      else case operator_new (item_count * item_size) of
        None \<Rightarrow> Inl Bad_alloc
      | Some memory \<Rightarrow>
          Inr \<lparr>cr_memory = memory, cr_base = memory, cr_item_size = item_size,
               cr_capacity_items = item_count, cr_used = 0, cr_destructors = []\<rparr>)"

definition cr_capacity :: "compressed_region \<Rightarrow> u64" where
  "cr_capacity r = cr_capacity_items r * cr_item_size r"

definition cr_remaining :: "compressed_region \<Rightarrow> u64" where
  "cr_remaining r = cr_capacity_items r * cr_item_size r - cr_used r"

definition allocate :: "u64 \<Rightarrow> u64 \<Rightarrow> compressed_region \<Rightarrow> ptr \<times> compressed_region" where
  "allocate alignment sz r =
     (let aligned_used = (cr_used r + alignment - 1) AND NOT (alignment - 1) in
      if aligned_used + sz > cr_capacity r then (nullptr, r)
      else let ptr = cr_memory r + aligned_used in
        (ptr, r\<lparr>cr_used := aligned_used + sz, cr_destructors := cr_destructors r @ [ptr]\<rparr>))"

text \<open>The destructor calls of \<^verbatim>\<open>~compressed_region\<close>, in the order they are made.\<close>

definition region_destroy :: "compressed_region \<Rightarrow> ptr list" where
  "region_destroy r = rev (cr_destructors r)"

text \<open>A run of allocations: the requests as (alignment, size), the results as (pointer, size).\<close>

fun allocate_all :: "(u64 \<times> u64) list \<Rightarrow> compressed_region \<Rightarrow> (ptr \<times> u64) list \<times> compressed_region" where
  "allocate_all [] r = ([], r)"
| "allocate_all ((a, n) # reqs) r =
     (let (p, r) = allocate a n r; (ps, r) = allocate_all reqs r in ((p, n) # ps, r))"

section \<open>Encoding and decoding\<close>

text \<open>The pointers a 32-bit offset can hold, and the bases for which decoding cannot wrap.\<close>

definition encodable :: "ptr \<Rightarrow> ptr \<Rightarrow> bool" where
  "encodable base p \<longleftrightarrow> base \<le> p \<and> p - base \<le> kMaxOffset"

definition region_base :: "ptr \<Rightarrow> bool" where
  "region_base base \<longleftrightarrow> base \<noteq> nullptr \<and> unat base + 2 ^ 32 \<le> 2 ^ 64"

lemma kMaxOffset_eq: "kMaxOffset = 4294967294" "(ucast (kNullOffset - 1) :: u64) = 4294967294"
  by code_simp+

lemma ucast_ucast_small: "d \<le> 4294967294 \<Longrightarrow> ucast (ucast (d :: u64) :: u32) = d"
  by (rule unsigned_word_eqI [where 'a = nat]) (simp add: unsigned_ucast_eq unat_take_bit_word word_le_nat_alt)

lemma ucast_small_neq:
  assumes "d \<le> 4294967294" shows "ucast (d :: u64) \<noteq> kNullOffset"
proof
  assume "ucast d = kNullOffset"
  then have "(ucast (ucast d :: u32) :: u64) = 4294967295" by (simp only:) code_simp
  with ucast_ucast_small [OF assms] assms show False by simp
qed

lemma compress_encodable:
  "p \<noteq> nullptr \<Longrightarrow> encodable base p \<Longrightarrow> compress p base = Inr (ucast (p - base))"
  by (simp add: compress_def encodable_def kMaxOffset_eq Let_def not_less)

lemma cih_set_encodable:
  "p \<noteq> nullptr \<Longrightarrow> encodable base p \<Longrightarrow>
     cih_set_prev h p base = Inr (h\<lparr>prev_offset := ucast (p - base)\<rparr>)"
  "p \<noteq> nullptr \<Longrightarrow> encodable base p \<Longrightarrow>
     cih_set_next h p base = Inr (h\<lparr>next_offset := ucast (p - base)\<rparr>)"
  by (simp_all add: cih_set_prev_def cih_set_next_def encodable_def kMaxOffset_eq Let_def not_less)

lemma decode_encodable:
  assumes "encodable base p"
  shows "ucast (p - base) \<noteq> kNullOffset" "base + ucast (ucast (p - base) :: u32) = p"
  using assms ucast_small_neq [of "p - base"] ucast_ucast_small [of "p - base"]
  by (simp_all add: encodable_def kMaxOffset_eq)

lemma offset_nonnull:
  assumes "region_base base" 
  shows "base + ucast (off :: u32) \<noteq> nullptr"
proof -
  have "unat (ucast off :: u64) < 2 ^ 32"
    using unsigned_less [of off, where 'a = nat] by (simp add: unsigned_ucast_eq take_bit_nat_eq_self)
  then have "unat (base + ucast off) = unat base + unat (ucast off :: u64)"
    using assms unat_add_lem [of base "ucast off"] by (simp add: region_base_def)
  moreover have "unat base > 0" using assms by (simp add: region_base_def unat_gt_0)
  ultimately show ?thesis by auto
qed

text \<open>What the links do not use of a compressed hook.\<close>

definition cih_meta :: "compressed_intrusive_hook \<Rightarrow> u32 \<times> bool \<times> bool \<times> u8" where
  "cih_meta h = (cih_update_time h, cih_is_tail h, cih_is_accessed h, cih_queue_id h)"

lemmas cih_defs = cih_set_linked_def cih_clear_linked_def cih_is_linked_def cih_is_tail_def
  cih_is_accessed_def kLinkedFlag_def kLinkedClearMask_def kTailFlag_def kAccessedFlag_def

lemma cih_flags_upd: "cih_flags (h\<lparr>cih_flags := w\<rparr>) = w"
  by simp

lemma cih_flag_frame:
  "cih_is_linked (cih_set_linked h)" "\<not> cih_is_linked (cih_clear_linked h)"
  "cih_is_tail (cih_set_linked h) = cih_is_tail h" "cih_is_tail (cih_clear_linked h) = cih_is_tail h"
  "cih_is_accessed (cih_set_linked h) = cih_is_accessed h"
  "cih_is_accessed (cih_clear_linked h) = cih_is_accessed h"
  unfolding cih_defs and_flag_bit cih_flags_upd u8_flag_bits(2) by (simp_all only: u8_flag_bits) simp_all

lemma cih_link_frame [simp]:
  "cih_is_linked (h\<lparr>prev_offset := p\<rparr>) = cih_is_linked h"
  "cih_is_linked (h\<lparr>next_offset := p\<rparr>) = cih_is_linked h"
  "cih_meta (h\<lparr>prev_offset := p\<rparr>) = cih_meta h" "cih_meta (h\<lparr>next_offset := p\<rparr>) = cih_meta h"
  "cih_next (h\<lparr>prev_offset := p\<rparr>) base = cih_next h base"
  "cih_prev (h\<lparr>next_offset := p\<rparr>) base = cih_prev h base"
  "cih_prev (cih_set_linked h) base = cih_prev h base" "cih_next (cih_set_linked h) base = cih_next h base"
  "cih_prev (cih_clear_linked h) base = cih_prev h base"
  "cih_next (cih_clear_linked h) base = cih_next h base"
  "cih_meta (cih_set_linked h) = cih_meta h" "cih_meta (cih_clear_linked h) = cih_meta h"
  using cih_flag_frame
  by (simp_all add: cih_is_linked_def cih_is_tail_def cih_is_accessed_def cih_meta_def cih_next_def
      cih_prev_def is_prev_null_def is_next_null_def cih_set_linked_def cih_clear_linked_def)

lemma cih_set_prev_ok:
  assumes "p = nullptr \<or> encodable base p"
  shows "\<exists>h'. cih_set_prev h p base = Inr h' \<and> cih_prev h' base = p \<and>
    cih_next h' base = cih_next h base \<and> cih_is_linked h' = cih_is_linked h \<and> cih_meta h' = cih_meta h"
proof (cases "p = nullptr")
  case True
  then show ?thesis by (simp add: cih_set_prev_def) (simp add: cih_prev_def is_prev_null_def)
next
  case False
  with assms decode_encodable [of base p] show ?thesis
    by (simp add: cih_set_encodable) (simp add: cih_prev_def is_prev_null_def)
qed

lemma cih_set_next_ok:
  assumes "p = nullptr \<or> encodable base p"
  shows "\<exists>h'. cih_set_next h p base = Inr h' \<and> cih_next h' base = p \<and>
    cih_prev h' base = cih_prev h base \<and> cih_is_linked h' = cih_is_linked h \<and> cih_meta h' = cih_meta h"
proof (cases "p = nullptr")
  case True
  then show ?thesis by (simp add: cih_set_next_def) (simp add: cih_next_def is_next_null_def)
next
  case False
  with assms decode_encodable [of base p] show ?thesis
    by (simp add: cih_set_encodable) (simp add: cih_next_def is_next_null_def)
qed

interpretation compressed: hook_traits compressed_traits region_base encodable cih_meta
proof (unfold_locales, goal_cases)
  case (1 b p h)
  then show ?case using cih_set_prev_ok [of p b h] by (auto simp: compressed_traits_def no_throw_def)
next
  case (2 b p h)
  then show ?case using cih_set_next_ok [of p b h] by (auto simp: compressed_traits_def no_throw_def)
next
  case (11 b h)
  then show ?case
    using offset_nonnull [of b] by (simp add: compressed_traits_def cih_prev_def is_prev_null_def)
qed (simp_all add: compressed_traits_def cih_flag_frame)

section \<open>Allocation\<close>

lemma unat_and_not_low: "unat (w AND NOT (2 ^ k - 1 :: u64)) = unat w - unat w mod 2 ^ k"
proof -
  have "take_bit k w AND (w AND NOT (mask k)) = 0"
    by (auto simp: bit_eq_iff bit_simps)
  moreover have "take_bit k w OR (w AND NOT (mask k)) = w"
    by (auto simp: bit_eq_iff bit_simps)
  ultimately have "take_bit k w + (w AND NOT (mask k)) = w"
    by (simp add: disjunctive_add_eq_or)
  then have "w AND NOT (2 ^ k - 1) = w - take_bit k w"
    by (simp add: mask_eq_exp_minus_1 algebra_simps)
  moreover have "take_bit k w \<le> w" by (simp add: word_le_nat_alt unat_take_bit_word)
  ultimately show ?thesis by (simp add: unat_sub unat_take_bit_word)
qed

lemma align_up:
  assumes "k \<le> 62" "unat u \<le> 2 ^ 63"
  shows "\<exists>off. unat ((u + 2 ^ k - 1) AND NOT (2 ^ k - 1 :: u64)) = off \<and> unat u \<le> off \<and>
     off < unat u + 2 ^ k \<and> 2 ^ k dvd off"
proof -
  let ?a = "2 ^ k :: nat"
  have a: "?a \<le> 2 ^ 62" using assms(1) by (intro power_increasing) simp_all
  have "unat (2 ^ k :: u64) = ?a" using assms(1) by (intro unat_two_power) simp
  then have "unat (2 ^ k - 1 :: u64) = ?a - 1" by (simp add: unat_sub word_le_nat_alt)
  then have "unat (u + (2 ^ k - 1)) = unat u + (?a - 1)"
    using unat_add_lem [of u "2 ^ k - 1"] assms(2) a by auto
  then have "unat ((u + 2 ^ k - 1) AND NOT (2 ^ k - 1)) = (unat u + (?a - 1)) - (unat u + (?a - 1)) mod ?a"
    by (simp add: unat_and_not_low add_diff_eq)
  moreover define m where "m = unat u + (?a - 1)"
  ultimately have off: "unat ((u + 2 ^ k - 1) AND NOT (2 ^ k - 1)) = m - m mod ?a" by simp
  have "?a dvd m - m mod ?a" by (rule dvd_minus_mod)
  moreover have "m mod ?a < ?a" "m mod ?a \<le> m" by simp_all
  then have "unat u \<le> m - m mod ?a" "m - m mod ?a < unat u + ?a" using m_def by linarith+
  ultimately show ?thesis unfolding off by blast
qed

text \<open>
  A region as its constructor leaves it and allocation keeps it. Blocks of more than
  \<open>2\<^sup>6\<^sup>3\<close> bytes do not exist (\<^verbatim>\<open>PTRDIFF_MAX\<close>), and a block does not wrap around the
  address space. \<open>request_ok\<close>: the alignment and the size of a C++ type.
\<close>

definition region_ok :: "compressed_region \<Rightarrow> bool" where
  "region_ok r \<longleftrightarrow> cr_memory r \<noteq> nullptr \<and> cr_base r = cr_memory r \<and>
     unat (cr_memory r) + unat (cr_capacity r) < 2 ^ 64 \<and> unat (cr_capacity r) \<le> 2 ^ 63 \<and>
     cr_used r \<le> cr_capacity r"

definition request_ok :: "u64 \<times> u64 \<Rightarrow> bool" where
  "request_ok q \<longleftrightarrow> (\<exists>k \<le> 62. fst q = 2 ^ k) \<and> 0 < snd q \<and> unat (snd q) \<le> 2 ^ 62"

lemma allocate_cases:
  assumes "region_ok r" "request_ok (a, n)" "allocate a n r = (p, r')"
  obtains (exhausted) "p = nullptr" "r' = r"
  | (block) off u where "unat p = unat (cr_memory r) + off" "unat (cr_used r) \<le> off"
      "unat a dvd off" "off + unat n \<le> unat (cr_capacity r)" "unat u = off + unat n"
      "r' = r\<lparr>cr_used := u, cr_destructors := cr_destructors r @ [p]\<rparr>"
proof -
  from assms(2) obtain k where k: "k \<le> 62" "a = 2 ^ k" "unat n \<le> 2 ^ 62" by (auto simp: request_ok_def)
  let ?al = "(cr_used r + a - 1) AND NOT (a - 1)"
  have u: "unat (cr_used r) \<le> 2 ^ 63" using assms(1) by (simp add: region_ok_def word_le_nat_alt)
  from align_up [OF k(1) u] obtain off where off: "unat ?al = off" "unat (cr_used r) \<le> off"
    "off < unat (cr_used r) + 2 ^ k" "2 ^ k dvd off" using k by auto
  have "(2 :: nat) ^ k \<le> 2 ^ 62" using k by (intro power_increasing) simp_all
  then have sum: "unat (?al + n) = off + unat n"
    using unat_add_lem [of ?al n] off k u by simp
  show thesis
  proof (cases "?al + n > cr_capacity r")
    case True
    then show thesis using assms(3) exhausted by (simp add: allocate_def)
  next
    case False
    then have le: "off + unat n \<le> unat (cr_capacity r)" by (simp add: word_le_nat_alt sum not_less)
    have "unat (cr_memory r + ?al) = unat (cr_memory r) + off"
      using unat_add_lem [of "cr_memory r" ?al] assms(1) off le by (simp add: region_ok_def)
    moreover have "unat a = 2 ^ k" using k unat_two_power [of k, where 'a = 64] by simp
    ultimately show thesis using False assms(3) block [of off "?al + n"] off le sum
      by (auto simp: allocate_def Let_def)
  qed
qed

lemma allocate_all_blocks:
  assumes "region_ok r" "\<forall>q \<in> set reqs. request_ok q" "allocate_all reqs r = (bs, r')"
  shows "region_ok r' \<and> cr_memory r' = cr_memory r \<and> cr_capacity r' = cr_capacity r \<and>
     cr_used r \<le> cr_used r' \<and>
     cr_destructors r' = cr_destructors r @ filter (\<lambda>p. p \<noteq> nullptr) (map fst bs) \<and>
     sorted_wrt (\<lambda>(p, m) (q, n). unat p + unat m \<le> unat q) (filter (\<lambda>b. fst b \<noteq> nullptr) bs) \<and>
     (\<forall>(p, n) \<in> set bs. p \<noteq> nullptr \<longrightarrow>
        unat (cr_memory r) + unat (cr_used r) \<le> unat p \<and>
        unat p + unat n \<le> unat (cr_memory r) + unat (cr_used r'))"
  using assms
proof (induction reqs arbitrary: r bs)
  case Nil
  then show ?case by simp
next
  case (Cons q reqs)
  obtain a n where q: "q = (a, n)" by fastforce
  obtain p r1 where s: "allocate a n r = (p, r1)" by fastforce
  obtain bs' where bs: "allocate_all reqs r1 = (bs', r')" "bs = (p, n) # bs'"
    using Cons.prems q s by (auto split: prod.splits)
  have rq: "request_ok (a, n)" using Cons.prems q by simp
  from Cons.prems(1) rq s show ?case
  proof (cases rule: allocate_cases)
    case exhausted
    with Cons.IH [of r bs'] Cons.prems bs show ?thesis by simp
  next
    case (block off u)
    have cap: "cr_capacity r1 = cr_capacity r" "cr_memory r1 = cr_memory r"
      "cr_destructors r1 = cr_destructors r @ [p]"
      using block(6) by (simp_all add: cr_capacity_def)
    have used: "unat (cr_used r1) = off + unat n"
      using block by simp
    have ok: "region_ok r1" using block(4,6) cap used Cons.prems(1) by (simp add: region_ok_def word_le_nat_alt)
    have p0: "p \<noteq> nullptr"
      using block(1) Cons.prems(1) by (auto simp: region_ok_def unat_eq_0)
    have IH: "region_ok r' \<and> cr_memory r' = cr_memory r1 \<and> cr_capacity r' = cr_capacity r1 \<and>
     cr_used r1 \<le> cr_used r' \<and>
     cr_destructors r' = cr_destructors r1 @ filter (\<lambda>p. p \<noteq> nullptr) (map fst bs') \<and>
     sorted_wrt (\<lambda>(p, m) (q, n). unat p + unat m \<le> unat q) (filter (\<lambda>b. fst b \<noteq> nullptr) bs') \<and>
     (\<forall>(p, n) \<in> set bs'. p \<noteq> nullptr \<longrightarrow>
        unat (cr_memory r1) + unat (cr_used r1) \<le> unat p \<and>
        unat p + unat n \<le> unat (cr_memory r1) + unat (cr_used r'))"
      using Cons.IH [OF ok _ bs(1)] Cons.prems(2) by simp
    moreover have "off + unat n \<le> unat (cr_used r')" using IH used by (simp add: word_le_nat_alt)
    ultimately show ?thesis
      using bs(2) p0 cap used block by (fastforce simp: word_le_nat_alt)
  qed
qed

section \<open>Properties\<close>

text \<open>
  C15. Decoding undoes encoding. A pointer that \<^verbatim>\<open>compressed_ptr\<close> accepts is read back
  unchanged; it is accepted exactly when it is null or lies in the \<open>2\<^sup>3\<^sup>2 - 1\<close> bytes from the
  base, and a rejected one is reported as below the base or beyond the limit.
\<close>

theorem compress_roundtrip:
  "case compress p base of
     Inr off \<Rightarrow> get off base = p \<and> (p = nullptr \<or> base \<le> p \<and> unat (p - base) < 2 ^ 32 - 1)
   | Inl Pointer_below_base \<Rightarrow> p \<noteq> nullptr \<and> p < base
   | Inl Offset_exceeds_limit \<Rightarrow> p \<noteq> nullptr \<and> base \<le> p \<and> 2 ^ 32 - 1 \<le> unat (p - base)"
proof (cases "p = nullptr \<or> encodable base p")
  case True
  then show ?thesis
    using compress_encodable [of p base] decode_encodable [of base p]
    by (cases "p = nullptr") (auto simp: compress_def get_def is_null_def encodable_def kMaxOffset_eq word_le_nat_alt)
next
  case False
  then show ?thesis
    by (auto simp: compress_def encodable_def kMaxOffset_eq Let_def word_le_nat_alt word_less_nat_alt)
qed

text \<open>
  C16. The intrusive list works unchanged over compressed hooks: from any base below
  \<open>2\<^sup>6\<^sup>4 - 2\<^sup>3\<^sup>2\<close>, and as long as the linked items lie within the reach of a 32-bit offset,
  every run of supported calls succeeds without an exception and leaves exactly the
  sequence of items that the calls describe, in both directions, although a hook is
  constructed with offset 0, which is not the null offset.
\<close>

theorem compressed_list_is_sequence:
  assumes "region_base base" "seq_run (encodable base) as [] = Some (rs, ys)"
  shows "\<exists>L. il_run compressed_traits as (il_new base hooks) = Some (rs, L) \<and>
     iter_fwd compressed_traits (length ys) L = Some ys \<and>
     iter_bwd compressed_traits (length ys) L = Some (rev ys) \<and>
     unat (il_size L) = length ys \<and>
     (\<forall>p. cih_meta (il_hooks L p) = cih_meta (hooks p))"
proof -
  have "represents compressed_traits region_base encodable (il_new base hooks) []"
    using assms(1) by (rule compressed.rep_il_new)
  moreover have "il_base (il_new base hooks) = base" by (simp add: il_new_def)
  ultimately obtain L where L: "il_run compressed_traits as (il_new base hooks) = Some (rs, L)"
    "represents compressed_traits region_base encodable L ys"
    "il_meta cih_meta L = il_meta cih_meta (il_new base hooks)"
    using compressed.il_run_refines [of "il_new base hooks" "[]" as rs ys] assms(2) by auto
  then have "\<forall>p. cih_meta (il_hooks L p) = cih_meta (hooks p)"
    by (simp add: il_meta_def fun_eq_iff il_new_def)
  with L compressed.iter_rep show ?thesis by blast
qed

theorem compressed_list_is_sequence_witness:
  "\<exists>L. il_run compressed_traits [LinkHead 4096, LinkHead 4160, LinkTail 4224, Remove 4096]
      (il_new 4096 (\<lambda>_. cih_new)) = Some ([0, 0, 0, 0], L) \<and>
     iter_fwd compressed_traits 2 L = Some [4160, 4224]"
proof -
  have "seq_run (encodable 4096) [LinkHead 4096, LinkHead 4160, LinkTail 4224, Remove 4096] [] =
     Some ([0, 0, 0, 0], [4160, 4224])"
    by (simp add: encodable_def kMaxOffset_eq)
  moreover have "region_base 4096" by (simp add: region_base_def)
  ultimately show ?thesis
    using compressed_list_is_sequence [of 4096 _ _ _ "\<lambda>_. cih_new"]
    by (fastforce simp: numeral_2_eq_2 simp del: il_run.simps seq_run.simps)
qed

text \<open>
  The region never hands out overlapping memory. Over any run of requests, each for
  the alignment and size of a type, the blocks it returns are in increasing order and do not
  overlap, each lies inside \<^verbatim>\<open>[base, base + used())\<close>, and the bytes in use never exceed the
  capacity; the region registers one destructor per block, in the order of allocation.
\<close>

theorem region_blocks_disjoint:
  assumes "region_ok r" "\<forall>q \<in> set reqs. request_ok q" "allocate_all reqs r = (bs, r')"
  shows "sorted_wrt (\<lambda>(p, m) (q, n). unat p + unat m \<le> unat q) (filter (\<lambda>b. fst b \<noteq> nullptr) bs) \<and>
     (\<forall>(p, n) \<in> set bs. p \<noteq> nullptr \<longrightarrow> cr_base r \<le> p \<and>
        unat p + unat n \<le> unat (cr_base r) + unat (cr_used r')) \<and>
     cr_used r' \<le> cr_capacity r' \<and> cr_capacity r' = cr_capacity r \<and>
     region_destroy r' = rev (filter (\<lambda>p. p \<noteq> nullptr) (map fst bs)) @ region_destroy r"
  using allocate_all_blocks [OF assms] assms(1)
  by (auto simp: region_ok_def region_destroy_def word_le_nat_alt split: prod.splits)

theorem region_blocks_disjoint_witness:
  "allocate_all [(8, 24), (16, 32), (8, 64)]
     \<lparr>cr_memory = 4096, cr_base = 4096, cr_item_size = 32, cr_capacity_items = 3, cr_used = 0,
      cr_destructors = []\<rparr> =
     ([(4096, 24), (4128, 32), (0, 64)],
      \<lparr>cr_memory = 4096, cr_base = 4096, cr_item_size = 32, cr_capacity_items = 3, cr_used = 64,
       cr_destructors = [4096, 4128]\<rparr>) \<and>
   unat (4096 :: u64) + unat (24 :: u64) \<le> unat (4128 :: u64)"
proof -
  let ?r = "\<lparr>cr_memory = 4096, cr_base = 4096, cr_item_size = 32, cr_capacity_items = 3, cr_used = 0,
      cr_destructors = []\<rparr>"
  have run: "allocate_all [(8, 24), (16, 32), (8, 64)] ?r = ([(4096, 24), (4128, 32), (0, 64)],
      ?r\<lparr>cr_used := 64, cr_destructors := [4096, 4128]\<rparr>)"
    by (simp add: allocate_def cr_capacity_def Let_def)
  have "request_ok (8, 24)" "request_ok (16, 32)" "request_ok (8, 64)"
    unfolding request_ok_def by (auto intro: exI [of _ 3] exI [of _ 4])
  with region_blocks_disjoint [OF _ _ run] run show ?thesis
    by (simp add: region_ok_def cr_capacity_def)
qed

text \<open>A region of five blocks of 1 GB, as the constructor builds it.\<close>

definition gb_region :: compressed_region where
  "gb_region = \<lparr>cr_memory = 4096, cr_base = 4096, cr_item_size = 1073741824, cr_capacity_items = 5,
     cr_used = 0, cr_destructors = []\<rparr>"

definition gb_requests :: "(u64 \<times> u64) list" where
  "gb_requests = [(8, 1073741824), (8, 1073741824), (8, 1073741824), (8, 1073741824), (8, 1073741824)]"

lemma gb_region_new: "region_new (\<lambda>_. Some 4096) 5 1073741824 = Inr gb_region"
  by (simp add: region_new_def gb_region_def)

lemma gb_region_ok: "region_ok gb_region"
  by (simp add: region_ok_def cr_capacity_def gb_region_def)

lemma gb_region_run:
  "allocate_all gb_requests gb_region =
     ([(4096, 1073741824), (1073745920, 1073741824), (2147487744, 1073741824),
       (3221229568, 1073741824), (4294971392, 1073741824)],
      gb_region\<lparr>cr_used := 5368709120,
        cr_destructors := [4096, 1073745920, 2147487744, 3221229568, 4294971392]\<rparr>)"
  by (simp add: gb_requests_def gb_region_def allocate_def cr_capacity_def Let_def)

text \<open>
  C17. What \<^verbatim>\<open>allocate\<close> promises and the constructor does not check. The result of a
  successful allocation is an encodable pointer if the region has at most \<open>2\<^sup>3\<^sup>2 - 1\<close> bytes.
  The constructor accepts any size, and in a region of 5 GB made of 1 GB items the
  fifth block cannot be stored in a compressed pointer.
\<close>

theorem region_encodable_up_to_4gb:
  "(\<forall>r a n p r'. region_ok r \<longrightarrow> request_ok (a, n) \<longrightarrow> unat (cr_capacity r) < 2 ^ 32 \<longrightarrow>
      allocate a n r = (p, r') \<longrightarrow> p \<noteq> nullptr \<longrightarrow> (\<exists>off. compress p (cr_base r) = Inr off)) \<and>
   (\<exists>r r' bs. region_new (\<lambda>_. Some 4096) 5 1073741824 = Inr r \<and> region_ok r \<and>
      allocate_all gb_requests r = (bs, r') \<and>
      fst (last bs) \<noteq> nullptr \<and>
      compress (fst (last bs)) (cr_base r) = Inl Offset_exceeds_limit)"
proof (intro conjI allI impI)
  fix r a n p r'
  assume a: "region_ok r" "request_ok (a, n)" "unat (cr_capacity r) < 2 ^ 32" "allocate a n r = (p, r')"
    "p \<noteq> nullptr"
  from a(1,2,4) show "\<exists>off. compress p (cr_base r) = Inr off"
  proof (cases rule: allocate_cases)
    case (block off u)
    have "0 < unat n" using a(2) by (simp add: request_ok_def word_less_nat_alt)
    with block a have "encodable (cr_base r) p"
      by (simp add: encodable_def kMaxOffset_eq region_ok_def word_le_nat_alt unat_sub)
    with a(5) compress_encodable show ?thesis by blast
  qed (use a in simp)
next
  show "\<exists>r r' bs. region_new (\<lambda>_. Some 4096) 5 1073741824 = Inr r \<and> region_ok r \<and>
      allocate_all gb_requests r = (bs, r') \<and> fst (last bs) \<noteq> nullptr \<and>
      compress (fst (last bs)) (cr_base r) = Inl Offset_exceeds_limit"
    by (rule exI [of _ gb_region], rule exI, rule exI, intro conjI,
        rule gb_region_new, rule gb_region_ok, rule gb_region_run) (simp_all add: compress_def kMaxOffset_eq gb_region_def)
qed

theorem region_encodable_up_to_4gb_witness:
  "\<exists>off. compress 4096 4096 = Inr off \<and> get off 4096 = 4096"
proof -
  let ?r = "gb_region\<lparr>cr_item_size := 64\<rparr>"
  have "allocate 8 64 ?r = (4096, ?r\<lparr>cr_used := 64, cr_destructors := [4096]\<rparr>)"
    by (simp add: allocate_def cr_capacity_def gb_region_def Let_def)
  moreover have "request_ok (8, 64)" unfolding request_ok_def by (auto intro: exI [of _ 3])
  moreover have "region_ok ?r" "unat (cr_capacity ?r) < 2 ^ 32" "cr_base ?r = 4096"
    by (simp_all add: region_ok_def cr_capacity_def gb_region_def)
  ultimately have "\<exists>off. compress 4096 4096 = Inr off"
    using region_encodable_up_to_4gb by fastforce
  moreover have "get 0 4096 = 4096" by (simp add: get_def is_null_def kNullOffset_def)
  ultimately show ?thesis by (auto simp: compress_def)
qed

end
