(* ===== verification/Cache_Item.thy ===== *)
theory Cache_Item
  imports Refcount Intrusive_List
begin

unbundle bit_operations_syntax

text \<open>
  The node type of every eviction strategy (\<^verbatim>\<open>cache_item\<close> in
  \<^verbatim>\<open>src/detail/intrusive_list.hpp\<close>), the counters of \<^verbatim>\<open>cache_stats\<close>
  (\<^verbatim>\<open>src/core.hpp\<close>) that the strategies update, and the events they report to
  \<^verbatim>\<open>callback_manager\<close>.

  The links of the embedded hook are not part of the item here: theory
  \<open>Intrusive_List\<close> shows that the list behaves as a sequence of addresses and leaves
  the time stamp, the tail flag and the accessed flag alone, so a strategy keeps the sequence
  and an item keeps those three. Addresses are natural numbers, a null pointer is \<open>None\<close>,
  and an address is never used for two items, so an access to a retired item would show.
  A value that was moved from keeps its content in the model.
\<close>

section \<open>Items\<close>

type_synonym addr = nat

record ('k, 'v) cache_item =
  it_key :: 'k
  it_value :: 'v
  it_update_time :: u32
  it_tail :: bool
  it_accessed :: bool
  it_queue_id :: u8
  it_expiry_ns :: u64
  it_refcount :: u64

definition new_item :: "'k \<Rightarrow> 'v \<Rightarrow> ('k, 'v) cache_item" where
  "new_item k v = \<lparr>it_key = k, it_value = v, it_update_time = 0, it_tail = False,
     it_accessed = False, it_queue_id = 0, it_expiry_ns = 0, it_refcount = 0\<rparr>"

definition is_expired :: "u64 \<Rightarrow> ('k, 'v) cache_item \<Rightarrow> bool" where
  "is_expired now_ns i \<longleftrightarrow> it_expiry_ns i \<noteq> 0 \<and> now_ns \<ge> it_expiry_ns i"

definition has_ttl :: "('k, 'v) cache_item \<Rightarrow> bool" where
  "has_ttl i \<longleftrightarrow> it_expiry_ns i \<noteq> 0"

definition is_in_container :: "('k, 'v) cache_item \<Rightarrow> bool" where
  "is_in_container i = isInMMContainer (it_refcount i)"

definition has_active_handle :: "('k, 'v) cache_item \<Rightarrow> bool" where
  "has_active_handle i \<longleftrightarrow> getAccessRef (it_refcount i) > 0"

text \<open>An operation of the item's reference count, run to completion.\<close>

definition on_refcount :: "(u64 \<Rightarrow> 'r cas_attempt) \<Rightarrow> ('k, 'v) cache_item \<Rightarrow> 'r \<times> ('k, 'v) cache_item" where
  "on_refcount f i = (let (r, w) = atomically f (it_refcount i) in (r, i\<lparr>it_refcount := w\<rparr>))"

abbreviation refcount_step :: "(u64 \<Rightarrow> 'r cas_attempt) \<Rightarrow> ('k, 'v) cache_item \<Rightarrow> ('k, 'v) cache_item" where
  "refcount_step f i \<equiv> snd (on_refcount f i)"

text \<open>An item as it is while no strategy operation is in progress: not claimed for eviction or a move.\<close>

definition unclaimed :: "('k, 'v) cache_item \<Rightarrow> bool" where
  "unclaimed i \<longleftrightarrow> \<not> bit_at kExclusiveBit (it_refcount i)"

named_theorems item_simps

lemma on_refcount_frame [simp]:
  "it_key (snd (on_refcount f i)) = it_key i" "it_value (snd (on_refcount f i)) = it_value i"
  "it_update_time (snd (on_refcount f i)) = it_update_time i"
  "it_tail (snd (on_refcount f i)) = it_tail i" "it_accessed (snd (on_refcount f i)) = it_accessed i"
  "it_queue_id (snd (on_refcount f i)) = it_queue_id i"
  "it_expiry_ns (snd (on_refcount f i)) = it_expiry_ns i"
  by (simp_all add: on_refcount_def split: prod.splits)

lemma status_frame [simp]:
  "is_in_container (i\<lparr>it_update_time := t\<rparr>) = is_in_container i"
  "is_in_container (i\<lparr>it_tail := b\<rparr>) = is_in_container i"
  "is_in_container (i\<lparr>it_accessed := b\<rparr>) = is_in_container i"
  "is_in_container (i\<lparr>it_value := v\<rparr>) = is_in_container i"
  "is_in_container (i\<lparr>it_expiry_ns := e\<rparr>) = is_in_container i"
  "is_in_container (i\<lparr>it_queue_id := q\<rparr>) = is_in_container i"
  "has_active_handle (i\<lparr>it_update_time := t\<rparr>) = has_active_handle i"
  "has_active_handle (i\<lparr>it_tail := b\<rparr>) = has_active_handle i"
  "has_active_handle (i\<lparr>it_accessed := b\<rparr>) = has_active_handle i"
  "has_active_handle (i\<lparr>it_value := v\<rparr>) = has_active_handle i"
  "has_active_handle (i\<lparr>it_expiry_ns := e\<rparr>) = has_active_handle i"
  "has_active_handle (i\<lparr>it_queue_id := q\<rparr>) = has_active_handle i"
  "unclaimed (i\<lparr>it_update_time := t\<rparr>) = unclaimed i"
  "unclaimed (i\<lparr>it_tail := b\<rparr>) = unclaimed i"
  "unclaimed (i\<lparr>it_accessed := b\<rparr>) = unclaimed i"
  "unclaimed (i\<lparr>it_value := v\<rparr>) = unclaimed i"
  "unclaimed (i\<lparr>it_expiry_ns := e\<rparr>) = unclaimed i"
  "unclaimed (i\<lparr>it_queue_id := q\<rparr>) = unclaimed i"
  by (simp_all add: is_in_container_def has_active_handle_def unclaimed_def)

text \<open>The word after each operation, read through the three questions a strategy asks.\<close>

lemma layout_bounds:
  "kLinkedBit < 64" "kExclusiveBit < 64" "32 \<le> kLinkedBit" "32 \<le> kExclusiveBit"
  "kExclusiveBit = kLinkedBit \<longleftrightarrow> False" "kLinkedBit = kExclusiveBit \<longleftrightarrow> False"
  by (simp_all add: layout_defs)

lemmas set_linked_word = bit_set_iff [OF layout_bounds(1)] access_ref_set [OF layout_bounds(3)]
lemmas clear_linked_word = bit_clear_iff access_ref_clear [OF layout_bounds(3)]
lemmas set_exclusive_word = bit_set_iff [OF layout_bounds(2)] access_ref_set [OF layout_bounds(4)]
lemmas clear_exclusive_word = bit_clear_iff access_ref_clear [OF layout_bounds(4)]

lemmas question_defs = is_in_container_def isInMMContainer_def has_active_handle_def getAccessRef_def
  unclaimed_def bit_at_iff Let_def layout_bounds simp_thms

lemma refcount_step_try:
  "f (it_refcount i) = Try_cas w r \<Longrightarrow> on_refcount f i = (r, i\<lparr>it_refcount := w\<rparr>)"
  "f (it_refcount i) = Return_now r \<Longrightarrow> on_refcount f i = (r, i)"
  by (simp_all add: on_refcount_def atomically_def)

lemma it_refcount_upd: "it_refcount (i\<lparr>it_refcount := w\<rparr>) = w"
  by simp

lemma handle_unclaimed: "unclaimed i \<Longrightarrow> has_active_handle i \<longleftrightarrow> 0 < access_ref (it_refcount i)"
  by (simp add: question_defs)

lemma mark_in_container [item_simps]:
  "is_in_container (refcount_step markInMMContainer_try i)"
  "has_active_handle (refcount_step markInMMContainer_try i) = has_active_handle i"
  "unclaimed (refcount_step markInMMContainer_try i) = unclaimed i"
  unfolding refcount_step_try(1) [OF markInMMContainer_try_def] snd_conv
  by (simp_all only: question_defs it_refcount_upd set_linked_word)

lemma unmark_in_container [item_simps]:
  "\<not> is_in_container (refcount_step unmarkInMMContainer_try i)"
  "has_active_handle (refcount_step unmarkInMMContainer_try i) = has_active_handle i"
  "unclaimed (refcount_step unmarkInMMContainer_try i) = unclaimed i"
  unfolding refcount_step_try(1) [OF unmarkInMMContainer_try_def] snd_conv
  by (simp_all only: question_defs it_refcount_upd clear_linked_word)

text \<open>Claiming succeeds exactly on a linked, unclaimed item without handles.\<close>

lemma claim_iff [item_simps]:
  "unclaimed i \<Longrightarrow> fst (on_refcount markForEviction_try i) = kSuccess \<longleftrightarrow>
     is_in_container i \<and> \<not> has_active_handle i"
  by (auto simp add: on_refcount_def atomically_def markForEviction_try_def handle_unclaimed
      is_in_container_def isInMMContainer_def unclaimed_def)

lemma claim_fails [item_simps]:
  "fst (on_refcount markForEviction_try i) \<noteq> kSuccess \<Longrightarrow> refcount_step markForEviction_try i = i"
  by (auto simp: on_refcount_def atomically_def markForEviction_try_def split: if_splits)

lemma release_claim [item_simps]:
  assumes "fst (on_refcount markForEviction_try i) = kSuccess"
  shows "unclaimed (refcount_step unmarkForEviction_try (f (refcount_step markForEviction_try i)))"
  by (simp only: refcount_step_try(1) [of unmarkForEviction_try, OF unmarkForEviction_try_def [unfolded Let_def]]
      snd_conv it_refcount_upd question_defs clear_exclusive_word)

lemma unmark_exclusive [item_simps]:
  "unclaimed (refcount_step unmarkForEviction_try i)"
  "is_in_container (refcount_step unmarkForEviction_try i) = is_in_container i"
  unfolding refcount_step_try(1) [of unmarkForEviction_try, OF unmarkForEviction_try_def [unfolded Let_def]] snd_conv
  by (simp_all only: question_defs it_refcount_upd clear_exclusive_word)

lemma claim_container [item_simps]:
  "is_in_container (refcount_step markForEviction_try i) = is_in_container i"
proof (cases "fst (on_refcount markForEviction_try i) = kSuccess")
  case True
  then have "markForEviction_try (it_refcount i) = Try_cas (it_refcount i OR push_bit kExclusiveBit 1) kSuccess"
    by (auto simp: on_refcount_def atomically_def markForEviction_try_def split: if_splits)
  then have "on_refcount markForEviction_try i = (kSuccess, i\<lparr>it_refcount := it_refcount i OR push_bit kExclusiveBit 1\<rparr>)"
    by (rule refcount_step_try(1))
  then show ?thesis
    by (simp only: snd_conv question_defs it_refcount_upd set_exclusive_word)
next
  case False
  then show ?thesis by (simp add: claim_fails)
qed

text \<open>A handle: taken on a linked, unclaimed item whose count is not at its maximum.\<close>

lemma pin [item_simps]:
  "fst (on_refcount incRef_try i) = kIncOk \<Longrightarrow> unclaimed i \<and> is_in_container i"
  by (auto simp: on_refcount_def atomically_def incRef_try_def is_in_container_def isInMMContainer_def
      unclaimed_def split: if_splits)

lemma pin_effect [item_simps]:
  assumes "fst (on_refcount incRef_try i) = kIncOk"
  shows "has_active_handle (refcount_step incRef_try i)"
    "is_in_container (refcount_step incRef_try i)" "unclaimed (refcount_step incRef_try i)"
proof -
  let ?w = "it_refcount i"
  have *: "incRef_try ?w = Try_cas (?w + 1) kIncOk" "\<not> bit ?w kExclusiveBit" "bit ?w kLinkedBit"
    "unat (access_ref ?w) < 2 ^ 32 - 1"
    using assms access_ref_below_max_iff [of ?w]
    by (auto simp: on_refcount_def atomically_def incRef_try_def split: if_splits)
  have eq: "refcount_step incRef_try i = i\<lparr>it_refcount := ?w + 1\<rparr>"
    by (simp only: refcount_step_try(1) [of incRef_try i, OF *(1)] snd_conv)
  have b: "bit (?w + 1) n = bit ?w n" if "32 \<le> n" for n using bit_inc [OF *(4) that] .
  have "0 < access_ref (?w + 1)"
    using unat_access_ref_inc [OF *(4)] by (simp add: access_ref_pos_iff)
  then show "has_active_handle (refcount_step incRef_try i)"
    "is_in_container (refcount_step incRef_try i)" "unclaimed (refcount_step incRef_try i)"
    unfolding eq using *(2,3) b [OF layout_bounds(3)] b [OF layout_bounds(4)]
    by (simp_all add: question_defs)
qed

lemma pin_fails [item_simps]:
  "fst (on_refcount incRef_try i) \<noteq> kIncOk \<Longrightarrow> refcount_step incRef_try i = i"
  by (auto simp: on_refcount_def atomically_def incRef_try_def split: if_splits)

lemma new_item_status [simp]:
  "\<not> is_in_container (new_item k v)" "\<not> has_active_handle (new_item k v)" "unclaimed (new_item k v)"
  "it_key (new_item k v) = k" "it_value (new_item k v) = v" "it_expiry_ns (new_item k v) = 0"
  "\<not> it_tail (new_item k v)" "\<not> it_accessed (new_item k v)"
  by (simp_all add: new_item_def question_defs access_ref_def)

section \<open>Statistics\<close>

text \<open>
  The counters a strategy touches. Counters that only grow are natural numbers; the accounted
  memory is a 64-bit word, because it is also decremented. \<open>search_hist\<close> lists the
  samples given to \<^verbatim>\<open>eviction_search_steps_hist\<close>.
\<close>

record cache_stats =
  hits :: nat
  misses :: nat
  insertions :: nat
  evictions :: nat
  current_size :: nat
  current_memory :: u64
  st_max_size :: nat
  st_max_memory :: nat
  evictions_capacity :: nat
  evictions_ttl :: nat
  ttl_checked_count :: nat
  ttl_expired_count :: nat
  eviction_failed :: nat
  pinned_skip_count :: nat
  eviction_search_steps :: nat
  try_lock_fail_count :: nat
  search_hist :: "nat list"

definition register_hit :: "cache_stats \<Rightarrow> cache_stats" where
  "register_hit s = s\<lparr>hits := hits s + 1\<rparr>"
definition register_miss :: "cache_stats \<Rightarrow> cache_stats" where
  "register_miss s = s\<lparr>misses := misses s + 1\<rparr>"
definition register_insertion :: "cache_stats \<Rightarrow> cache_stats" where
  "register_insertion s = s\<lparr>insertions := insertions s + 1\<rparr>"
definition register_eviction :: "cache_stats \<Rightarrow> cache_stats" where
  "register_eviction s = s\<lparr>evictions := evictions s + 1\<rparr>"

definition new_stats :: cache_stats where
  "new_stats = \<lparr>hits = 0, misses = 0, insertions = 0, evictions = 0, current_size = 0,
     current_memory = 0, st_max_size = unlimited, st_max_memory = unlimited, evictions_capacity = 0,
     evictions_ttl = 0, ttl_checked_count = 0, ttl_expired_count = 0, eviction_failed = 0,
     pinned_skip_count = 0, eviction_search_steps = 0, try_lock_fail_count = 0, search_hist = []\<rparr>"

text \<open>What is reported to the callbacks.\<close>

datatype ('k, 'v) cache_event =
    On_hit 'k 'v
  | On_miss 'k
  | On_insert 'k 'v
  | On_update 'k 'v
  | On_evict 'k 'v
  | On_expire 'k 'v
  | On_reject 'k 'v

end
