(* ===== verification/Std_Heap.thy ===== *)
theory Std_Heap
  imports Lru_Prelude
begin

text \<open>
  The heap algorithms of the C++ standard library that the TTL indexes use:
  \<^verbatim>\<open>std::push_heap\<close> and \<^verbatim>\<open>std::pop_heap\<close> over a vector, for any comparator that is a
  strict weak order (locale \<open>weak_order\<close>). The vector is a list; as in the standard, the
  greatest element by the comparator is kept in front. The standard does not fix the
  layout of the result: the model sifts the way the textbook does, and its clients only
  use the contract stated in the locale \<open>heap_array\<close>.
\<close>

section \<open>The algorithms\<close>

abbreviation parent :: "nat \<Rightarrow> nat" where "parent i \<equiv> (i - 1) div 2"

definition swap :: "nat \<Rightarrow> nat \<Rightarrow> 'a list \<Rightarrow> 'a list" where
  "swap i j xs = xs[i := xs ! j, j := xs ! i]"

fun sift_up :: "('a \<Rightarrow> 'a \<Rightarrow> bool) \<Rightarrow> nat \<Rightarrow> 'a list \<Rightarrow> 'a list" where
  "sift_up lt i xs =
     (if 0 < i \<and> lt (xs ! parent i) (xs ! i)
      then sift_up lt (parent i) (swap i (parent i) xs) else xs)"

declare sift_up.simps [simp del]

definition push_heap :: "('a \<Rightarrow> 'a \<Rightarrow> bool) \<Rightarrow> 'a list \<Rightarrow> 'a list" where
  "push_heap lt xs = sift_up lt (length xs - 1) xs"

definition larger_child :: "('a \<Rightarrow> 'a \<Rightarrow> bool) \<Rightarrow> nat \<Rightarrow> nat \<Rightarrow> 'a list \<Rightarrow> nat" where
  "larger_child lt n i xs =
     (if 2 * i + 2 < n \<and> lt (xs ! (2 * i + 1)) (xs ! (2 * i + 2)) then 2 * i + 2 else 2 * i + 1)"

lemma larger_child_gt: "i < larger_child lt n i xs"
  by (simp add: larger_child_def)

function sift_down :: "('a \<Rightarrow> 'a \<Rightarrow> bool) \<Rightarrow> nat \<Rightarrow> nat \<Rightarrow> 'a list \<Rightarrow> 'a list" where
  "sift_down lt n i xs =
     (let c = larger_child lt n i xs in
      if c < n \<and> lt (xs ! i) (xs ! c) then sift_down lt n c (swap i c xs) else xs)"
  by auto

termination
  by (relation "measure (\<lambda>(lt, n, i, xs). n - i)") (auto simp: larger_child_def split: if_splits)

declare sift_down.simps [simp del]

text \<open>\<^verbatim>\<open>std::pop_heap\<close> moves the front to the back and makes a heap of the rest.\<close>

definition pop_heap :: "('a \<Rightarrow> 'a \<Rightarrow> bool) \<Rightarrow> 'a list \<Rightarrow> 'a list" where
  "pop_heap lt xs =
     (let n = length xs - 1 in
      if n = 0 then xs else sift_down lt n 0 (swap 0 n xs))"

definition heap_upto :: "('a \<Rightarrow> 'a \<Rightarrow> bool) \<Rightarrow> nat \<Rightarrow> 'a list \<Rightarrow> bool" where
  "heap_upto lt n xs \<longleftrightarrow> (\<forall>i. 0 < i \<and> i < n \<longrightarrow> \<not> lt (xs ! parent i) (xs ! i))"

definition is_heap :: "('a \<Rightarrow> 'a \<Rightarrow> bool) \<Rightarrow> 'a list \<Rightarrow> bool" where
  "is_heap lt xs = heap_upto lt (length xs) xs"

section \<open>Content\<close>

lemma length_swap [simp]: "length (swap i j xs) = length xs"
  by (simp add: swap_def)

lemma nth_swap [simp]:
  "i < length xs \<Longrightarrow> j < length xs \<Longrightarrow> k < length xs \<Longrightarrow>
   swap i j xs ! k = (if k = i then xs ! j else if k = j then xs ! i else xs ! k)"
  by (auto simp: swap_def nth_list_update)

lemma mset_swap_positions [simp]: "i < length xs \<Longrightarrow> j < length xs \<Longrightarrow> mset (swap i j xs) = mset xs"
  by (simp add: swap_def mset_swap)

lemma mset_sift_up [simp]: "i < length xs \<Longrightarrow> mset (sift_up lt i xs) = mset xs"
proof (induction lt i xs rule: sift_up.induct)
  case (1 lt i xs)
  then show ?case by (subst sift_up.simps) auto
qed

lemma sift_up_0 [simp]: "sift_up lt 0 xs = xs"
  by (subst sift_up.simps) simp

lemma mset_push_heap [simp]: "mset (push_heap lt xs) = mset xs"
  by (cases "xs = []") (auto simp: push_heap_def)

lemma length_push_heap [simp]: "length (push_heap lt xs) = length xs"
  by (metis mset_push_heap size_mset)

lemma mset_sift_down [simp]: "i < n \<Longrightarrow> n \<le> length xs \<Longrightarrow> mset (sift_down lt n i xs) = mset xs"
proof (induction lt n i xs rule: sift_down.induct)
  case (1 lt n i xs)
  then show ?case by (subst sift_down.simps) (auto simp: Let_def)
qed

lemma sift_down_beyond: "i < n \<Longrightarrow> n \<le> k \<Longrightarrow> k < length xs \<Longrightarrow> sift_down lt n i xs ! k = xs ! k"
proof (induction lt n i xs rule: sift_down.induct)
  case (1 lt n i xs)
  then show ?case by (subst sift_down.simps) (auto simp: Let_def)
qed

lemma mset_pop_heap [simp]: "mset (pop_heap lt xs) = mset xs"
  by (cases xs) (auto simp: pop_heap_def Let_def)

lemma length_pop_heap [simp]: "length (pop_heap lt xs) = length xs"
  by (metis mset_pop_heap size_mset)

lemma last_pop_heap: "xs \<noteq> [] \<Longrightarrow> last (pop_heap lt xs) = hd xs"
proof -
  assume ne: "xs \<noteq> []"
  show ?thesis
  proof (cases "length xs - 1 = 0")
    case True
    with ne have "length xs = Suc 0" by (cases xs) auto
    then show ?thesis by (auto simp: pop_heap_def length_Suc_conv)
  next
    case False
    let ?n = "length xs - 1"
    have "last (pop_heap lt xs) = pop_heap lt xs ! ?n"
      using ne by (metis last_conv_nth length_pop_heap length_0_conv)
    also have "\<dots> = xs ! 0"
      using False ne by (simp add: pop_heap_def Let_def sift_down_beyond)
    finally show ?thesis using ne by (simp add: hd_conv_nth)
  qed
qed

lemma mset_butlast_pop_heap:
  assumes "xs \<noteq> []"
  shows "mset xs = add_mset (hd xs) (mset (butlast (pop_heap lt xs)))"
proof -
  have "pop_heap lt xs \<noteq> []" using assms by (metis length_0_conv length_pop_heap)
  then have "mset (butlast (pop_heap lt xs) @ [last (pop_heap lt xs)]) = mset xs" by simp
  with last_pop_heap [OF assms] show ?thesis by simp
qed

section \<open>Order\<close>

locale weak_order =
  fixes lt :: "'a \<Rightarrow> 'a \<Rightarrow> bool"
  assumes lt_asym: "lt a b \<Longrightarrow> \<not> lt b a"
    and not_lt_trans: "\<not> lt a b \<Longrightarrow> \<not> lt b c \<Longrightarrow> \<not> lt a c"
begin

text \<open>One element may be too large for its place, but not for its children.\<close>

definition up_defect :: "nat \<Rightarrow> 'a list \<Rightarrow> bool" where
  "up_defect j xs \<longleftrightarrow> (\<forall>i. 0 < i \<and> i < length xs \<longrightarrow>
     (i \<noteq> j \<longrightarrow> \<not> lt (xs ! parent i) (xs ! i)) \<and>
     (parent i = j \<and> 0 < j \<longrightarrow> \<not> lt (xs ! parent j) (xs ! i)))"

lemma sift_up_heap:
  "j < length xs \<Longrightarrow> up_defect j xs \<Longrightarrow> is_heap lt (sift_up lt j xs)"
proof (induction j arbitrary: xs rule: less_induct)
  case (less j)
  show ?case
  proof (cases "0 < j \<and> lt (xs ! parent j) (xs ! j)")
    case False
    then have "sift_up lt j xs = xs" by (subst sift_up.simps) auto
    with False less(3) show ?thesis by (auto simp: is_heap_def heap_upto_def up_defect_def)
  next
    case True
    let ?p = "parent j" and ?ys = "swap j (parent j) xs"
    have p: "?p < j" "?p < length xs" using True less(2) by auto
    have jp: "\<not> lt (xs ! j) (xs ! ?p)" using True lt_asym by blast
    have d: "\<And>i. 0 < i \<Longrightarrow> i < length xs \<Longrightarrow> i \<noteq> j \<Longrightarrow> \<not> lt (xs ! parent i) (xs ! i)"
      "\<And>i. 0 < i \<Longrightarrow> i < length xs \<Longrightarrow> parent i = j \<Longrightarrow> \<not> lt (xs ! ?p) (xs ! i)"
      using less(3) True by (auto simp: up_defect_def)
    have "up_defect ?p ?ys"
      unfolding up_defect_def
    proof (intro allI impI conjI)
      fix i assume i: "0 < i \<and> i < length ?ys"
      then have pi: "parent i < length xs" by auto
      show "\<not> lt (?ys ! parent i) (?ys ! i)" if "i \<noteq> ?p"
        using that i pi p less(2) jp d(1) [of i] d(2) [of i] not_lt_trans [OF jp, of "xs ! i"] by auto
      show "\<not> lt (?ys ! parent ?p) (?ys ! i)" if "parent i = ?p \<and> 0 < ?p"
      proof -
        have "\<not> lt (xs ! parent ?p) (xs ! ?p)" using d(1) [of ?p] that p by auto
        moreover have "i \<noteq> j \<Longrightarrow> \<not> lt (xs ! ?p) (xs ! i)" using d(1) [of i] i that by auto
        moreover have "parent ?p < ?p" using that by linarith
        ultimately show ?thesis
          using i p less(2) that not_lt_trans [of "xs ! parent ?p" "xs ! ?p" "xs ! i"] by auto
      qed
    qed
    with less(1) [of ?p ?ys] p have "is_heap lt (sift_up lt ?p ?ys)" by simp
    with True show ?thesis by (subst sift_up.simps) auto
  qed
qed

lemma push_heap_heap:
  assumes "is_heap lt xs"
  shows "is_heap lt (push_heap lt (xs @ [x]))"
proof -
  have "up_defect (length xs) (xs @ [x])"
    using assms by (auto simp: up_defect_def is_heap_def heap_upto_def nth_append)
  then show ?thesis using sift_up_heap [of "length xs" "xs @ [x]"] by (simp add: push_heap_def)
qed

text \<open>One element may be too small for its place, but its parent is not.\<close>

definition down_defect :: "nat \<Rightarrow> nat \<Rightarrow> 'a list \<Rightarrow> bool" where
  "down_defect n j xs \<longleftrightarrow> (\<forall>i. 0 < i \<and> i < n \<longrightarrow>
     (parent i \<noteq> j \<longrightarrow> \<not> lt (xs ! parent i) (xs ! i)) \<and>
     (parent i = j \<and> 0 < j \<longrightarrow> \<not> lt (xs ! parent j) (xs ! i)))"

lemma child_of: "0 < i \<Longrightarrow> parent i = j \<longleftrightarrow> i = 2 * j + 1 \<or> i = 2 * j + 2"
  by auto

lemma larger_child_max:
  "0 < i \<Longrightarrow> i < n \<Longrightarrow> parent i = j \<Longrightarrow> \<not> lt (xs ! larger_child lt n j xs) (xs ! i)"
proof -
  assume i: "0 < i" "i < n" "parent i = j"
  then have "i = 2 * j + 1 \<or> i = 2 * j + 2" by (simp only: child_of)
  then show ?thesis using i(2) lt_asym by (auto simp: larger_child_def)
qed

lemma sift_down_step:
  assumes d: "down_defect n j xs" and n: "n \<le> length xs"
    and c: "c = larger_child lt n j xs" "c < n" "lt (xs ! j) (xs ! c)"
  shows "down_defect n c (swap j c xs)"
  unfolding down_defect_def
proof (intro allI impI conjI)
  have j: "j < c" "parent c = j" "j < length xs" "c < length xs"
    using c n by (auto simp: larger_child_def split: if_splits)
  fix i assume i: "0 < i \<and> i < n"
  then have pi: "parent i < i" "i < length xs" using n by auto
  have cj: "\<not> lt (xs ! c) (xs ! j)" using c(3) lt_asym by blast
  have pj: "\<not> lt (xs ! parent j) (xs ! c)" if "0 < j"
    using d that c(2) j by (auto simp: down_defect_def)
  have ok: "\<not> lt (xs ! parent i) (xs ! i)" if "parent i \<noteq> j"
    using d that i by (auto simp: down_defect_def)
  show "\<not> lt (swap j c xs ! parent i) (swap j c xs ! i)" if pc: "parent i \<noteq> c"
  proof (cases "parent i = j")
    case True
    then have "\<not> lt (xs ! c) (xs ! i)" using larger_child_max i c(1) by blast
    with True j pi cj show ?thesis by auto
  next
    case False
    then have "i \<noteq> c" using j by auto
    with False pc ok pj i j pi show ?thesis by (cases "i = j") auto
  qed
  show "\<not> lt (swap j c xs ! parent c) (swap j c xs ! i)" if "parent i = c \<and> 0 < c"
    using ok that j pi by auto
qed

lemma sift_down_heap:
  "j < n \<Longrightarrow> n \<le> length xs \<Longrightarrow> down_defect n j xs \<Longrightarrow> heap_upto lt n (sift_down lt n j xs)"
proof (induction "n - j" arbitrary: j xs rule: less_induct)
  case less
  let ?c = "larger_child lt n j xs"
  show ?case
  proof (cases "?c < n \<and> lt (xs ! j) (xs ! ?c)")
    case True
    have "n - ?c < n - j" using True larger_child_gt [of j lt n xs] by linarith
    with less True sift_down_step [of n j xs ?c] have "heap_upto lt n (sift_down lt n ?c (swap j ?c xs))"
      by simp
    with True show ?thesis by (subst sift_down.simps) (simp add: Let_def)
  next
    case False
    have "\<not> lt (xs ! parent i) (xs ! i)" if "0 < i" "i < n" for i
    proof (cases "parent i = j")
      case True
      have "?c < n" using that True by (auto simp: larger_child_def child_of)
      with False larger_child_max [OF that True] True not_lt_trans show ?thesis by blast
    next
      case False
      with less(4) that show ?thesis by (auto simp: down_defect_def)
    qed
    then have "heap_upto lt n xs" by (simp add: heap_upto_def)
    moreover have "sift_down lt n j xs = xs" using False by (subst sift_down.simps) (auto simp: Let_def)
    ultimately show ?thesis by simp
  qed
qed

lemma heap_upto_butlast: "heap_upto lt (length xs - 1) xs \<Longrightarrow> is_heap lt (butlast xs)"
  by (auto simp: is_heap_def heap_upto_def nth_butlast)

lemma pop_heap_heap:
  assumes "is_heap lt xs"
  shows "is_heap lt (butlast (pop_heap lt xs))"
proof (cases "length xs - 1 = 0")
  case True
  then show ?thesis by (simp add: pop_heap_def is_heap_def heap_upto_def)
next
  case False
  let ?n = "length xs - 1"
  have "down_defect ?n 0 (swap 0 ?n xs)"
    unfolding down_defect_def
  proof (intro allI impI conjI)
    fix i assume i: "0 < i \<and> i < ?n"
    have sw: "swap 0 ?n xs ! k = xs ! k" if "0 < k" "k < ?n" for k
      using that by (subst nth_swap) auto
    have "parent i < ?n" "\<not> lt (xs ! parent i) (xs ! i)"
      using assms i by (auto simp: is_heap_def heap_upto_def)
    with i show "\<not> lt (swap 0 ?n xs ! parent i) (swap 0 ?n xs ! i)" if "parent i \<noteq> 0"
      using that by (simp only: sw neq0_conv not_False_eq_True)
  qed simp
  with False have "heap_upto lt ?n (pop_heap lt xs)"
    using sift_down_heap [of 0 ?n "swap 0 ?n xs"] by (simp add: pop_heap_def Let_def)
  with heap_upto_butlast [of "pop_heap lt xs"] show ?thesis by simp
qed

lemma heap_front: "is_heap lt xs \<Longrightarrow> i < length xs \<Longrightarrow> \<not> lt (xs ! 0) (xs ! i)"
proof (induction i rule: less_induct)
  case (less i)
  show ?case
  proof (cases "i = 0")
    case True
    then show ?thesis using lt_asym by auto
  next
    case False
    then have "parent i < i" by auto
    with less False have "\<not> lt (xs ! 0) (xs ! parent i)" "\<not> lt (xs ! parent i) (xs ! i)"
      by (auto simp: is_heap_def heap_upto_def)
    then show ?thesis by (rule not_lt_trans)
  qed
qed

end

section \<open>The contract\<close>

text \<open>
  What a client of the two algorithms may rely on: a well-formed array stays
  well-formed, its content is kept, and what is popped is not below anything that stays.
\<close>

locale heap_array =
  fixes lt :: "'a \<Rightarrow> 'a \<Rightarrow> bool"
    and wf :: "'a list \<Rightarrow> bool"
    and push :: "'a \<Rightarrow> 'a list \<Rightarrow> 'a list"
    and pop :: "'a list \<Rightarrow> 'a list"
  assumes wf_empty: "wf []"
    and wf_push: "wf xs \<Longrightarrow> wf (push x xs)"
    and mset_push: "mset (push x xs) = add_mset x (mset xs)"
    and wf_pop: "wf xs \<Longrightarrow> wf (pop xs)"
    and mset_pop: "xs \<noteq> [] \<Longrightarrow> mset xs = add_mset (hd xs) (mset (pop xs))"
    and front_greatest: "wf xs \<Longrightarrow> x \<in> set xs \<Longrightarrow> \<not> lt (hd xs) x"
begin

lemma set_pop: "xs \<noteq> [] \<Longrightarrow> set xs = insert (hd xs) (set (pop xs))"
  using mset_pop by (metis set_mset_add_mset_insert set_mset_mset)

lemma length_pop: "xs \<noteq> [] \<Longrightarrow> length xs = Suc (length (pop xs))"
  using mset_pop by (metis size_add_mset size_mset)

lemma wf_fold_push: "wf xs \<Longrightarrow> wf (fold push ys xs)"
  by (induction ys arbitrary: xs) (auto intro: wf_push)

lemma mset_fold_push: "mset (fold push ys xs) = mset ys + mset xs"
  by (induction ys arbitrary: xs) (simp_all add: mset_push)

end

definition heap_insert :: "('a \<Rightarrow> 'a \<Rightarrow> bool) \<Rightarrow> 'a \<Rightarrow> 'a list \<Rightarrow> 'a list" where
  "heap_insert lt x xs = push_heap lt (xs @ [x])"

definition heap_delete :: "('a \<Rightarrow> 'a \<Rightarrow> bool) \<Rightarrow> 'a list \<Rightarrow> 'a list" where
  "heap_delete lt xs = butlast (pop_heap lt xs)"

sublocale weak_order \<subseteq> heap_array lt "is_heap lt" "heap_insert lt" "heap_delete lt"
proof
  show "is_heap lt []" by (simp add: is_heap_def heap_upto_def)
  show "is_heap lt xs \<Longrightarrow> is_heap lt (heap_insert lt x xs)" for x xs
    by (simp add: heap_insert_def push_heap_heap)
  show "mset (heap_insert lt x xs) = add_mset x (mset xs)" for x xs
    by (simp add: heap_insert_def)
  show "is_heap lt xs \<Longrightarrow> is_heap lt (heap_delete lt xs)" for xs
    by (simp add: heap_delete_def pop_heap_heap)
  show "xs \<noteq> [] \<Longrightarrow> mset xs = add_mset (hd xs) (mset (heap_delete lt xs))" for xs
    by (simp add: heap_delete_def mset_butlast_pop_heap)
  show "is_heap lt xs \<Longrightarrow> x \<in> set xs \<Longrightarrow> \<not> lt (hd xs) x" for xs x
    using heap_front by (metis hd_conv_nth in_set_conv_nth length_pos_if_in_set length_greater_0_conv)
qed

end
