(* ===== verification/Ttl_Heap.thy ===== *)
theory Ttl_Heap
  imports Std_Heap
begin

text \<open>
  \<^verbatim>\<open>src/detail/ttl_heap.hpp\<close>: the index that finds expired items (\<open>ttl_heap\<close>) and the
  mixin that gives an eviction strategy its TTL facility (\<open>mm_ttl_index_mixin\<close>).

  The callbacks of \<^verbatim>\<open>sweep\<close> (\<^verbatim>\<open>probe\<close>, \<^verbatim>\<open>erase\<close>) and the four answers a strategy gives the
  mixin are functions on the strategy's state \<open>'s\<close>. The clock reading is an argument.
  \<open>sweep\<close> is related to \<open>drain\<close>, which processes a list of entries one by one.
\<close>

section \<open>The index\<close>

datatype probe_result = Absent | Stale | Pinned | Ready

record 'k entry =
  expiry_ns :: u64
  entry_key :: 'k

record 'k ttl_heap =
  th_heap :: "'k entry list"
  th_deferred :: "'k entry list"

definition th_new :: "'k ttl_heap" where
  "th_new = \<lparr>th_heap = [], th_deferred = []\<rparr>"

definition min_on_expiry :: "'k entry \<Rightarrow> 'k entry \<Rightarrow> bool" where
  "min_on_expiry a b \<longleftrightarrow> expiry_ns a > expiry_ns b"

interpretation expiry: weak_order min_on_expiry
  by unfold_locales (auto simp: min_on_expiry_def)

definition th_push :: "'k \<Rightarrow> u64 \<Rightarrow> 'k ttl_heap \<Rightarrow> 'k ttl_heap" where
  "th_push key expiry H =
     (if expiry = 0 then H
      else H\<lparr>th_heap := push_heap min_on_expiry
               (th_heap H @ [\<lparr>expiry_ns = expiry, entry_key = key\<rparr>])\<rparr>)"

definition reinsert_deferred :: "'k ttl_heap \<Rightarrow> 'k ttl_heap" where
  "reinsert_deferred H =
     \<lparr>th_heap = fold (\<lambda>e heap. push_heap min_on_expiry (heap @ [e])) (th_deferred H) (th_heap H),
      th_deferred = []\<rparr>"

text \<open>
  The loop of \<^verbatim>\<open>sweep\<close>, with the number of erasures so far; it ends because every round pops
  an entry.
\<close>

function sweep_loop ::
  "u64 \<Rightarrow> nat \<Rightarrow> ('k \<Rightarrow> u64 \<Rightarrow> 's \<Rightarrow> probe_result) \<Rightarrow> ('k \<Rightarrow> 's \<Rightarrow> 's) \<Rightarrow>
   nat \<Rightarrow> 'k ttl_heap \<Rightarrow> 's \<Rightarrow> nat \<times> 'k ttl_heap \<times> 's" where
  "sweep_loop now budget probe erase evicted H s =
     (if th_heap H = [] then (evicted, H, s)
      else if budget \<noteq> 0 \<and> evicted \<ge> budget then (evicted, H, s)
      else let top = hd (th_heap H) in
        if expiry_ns top > now then (evicted, H, s)
        else let H = H\<lparr>th_heap := butlast (pop_heap min_on_expiry (th_heap H))\<rparr> in
          (case probe (entry_key top) (expiry_ns top) s of
             Absent \<Rightarrow> sweep_loop now budget probe erase evicted H s
           | Stale \<Rightarrow> sweep_loop now budget probe erase evicted H s
           | Pinned \<Rightarrow> sweep_loop now budget probe erase evicted
                        (H\<lparr>th_deferred := th_deferred H @ [top]\<rparr>) s
           | Ready \<Rightarrow> sweep_loop now budget probe erase (evicted + 1) H (erase (entry_key top) s)))"
  by auto

termination
  by (relation "measure (\<lambda>(_, _, _, _, _, H, _). length (th_heap H))") auto

declare sweep_loop.simps [simp del]

definition sweep ::
  "u64 \<Rightarrow> nat \<Rightarrow> ('k \<Rightarrow> u64 \<Rightarrow> 's \<Rightarrow> probe_result) \<Rightarrow> ('k \<Rightarrow> 's \<Rightarrow> 's) \<Rightarrow>
   'k ttl_heap \<Rightarrow> 's \<Rightarrow> nat \<times> 'k ttl_heap \<times> 's" where
  "sweep now budget probe erase H s =
     (let (evicted, H, s) = sweep_loop now budget probe erase 0 (H\<lparr>th_deferred := []\<rparr>) s in
      (evicted, reinsert_deferred H, s))"

definition needs_rebuild :: "'k ttl_heap \<Rightarrow> nat \<Rightarrow> nat \<Rightarrow> bool" where
  "needs_rebuild H live_items multiplier \<longleftrightarrow> length (th_heap H) > multiplier * live_items"

definition th_clear :: "'k ttl_heap \<Rightarrow> 'k ttl_heap" where
  "th_clear H = H\<lparr>th_heap := [], th_deferred := []\<rparr>"

text \<open>\<open>live\<close> lists the pairs that \<^verbatim>\<open>push_live\<close> emits, in order.\<close>

definition rebuild :: "('k \<times> u64) list \<Rightarrow> 'k ttl_heap \<Rightarrow> 'k ttl_heap" where
  "rebuild live H = fold (\<lambda>(key, expiry). th_push key expiry) live (th_clear H)"

section \<open>The mixin\<close>

text \<open>The strategy: its state, and the four answers it supplies.\<close>

record ('k, 's) ttl_strategy =
  ttl_probe_entry :: "'k \<Rightarrow> u64 \<Rightarrow> 's \<Rightarrow> probe_result"
  ttl_erase_expired :: "'k \<Rightarrow> 's \<Rightarrow> 's"
  ttl_live_count :: "'s \<Rightarrow> nat"
  ttl_for_each_live :: "'s \<Rightarrow> ('k \<times> u64) list"

definition kMaxTtlHeapMultiplier :: nat where "kMaxTtlHeapMultiplier = 4"

definition ttl_index_rebuild :: "('k, 's) ttl_strategy \<Rightarrow> 's \<Rightarrow> 'k ttl_heap \<Rightarrow> 'k ttl_heap" where
  "ttl_index_rebuild D s H = rebuild (ttl_for_each_live D s) H"

definition ttl_index_push :: "('k, 's) ttl_strategy \<Rightarrow> 's \<Rightarrow> 'k \<Rightarrow> u64 \<Rightarrow> 'k ttl_heap \<Rightarrow> 'k ttl_heap" where
  "ttl_index_push D s key expiry H =
     (let H = th_push key expiry H in
      if needs_rebuild H (ttl_live_count D s) kMaxTtlHeapMultiplier
      then ttl_index_rebuild D s H else H)"

definition ttl_index_sweep ::
  "('k, 's) ttl_strategy \<Rightarrow> u64 \<Rightarrow> nat \<Rightarrow> 'k ttl_heap \<Rightarrow> 's \<Rightarrow> nat \<times> 'k ttl_heap \<times> 's" where
  "ttl_index_sweep D now budget H s = sweep now budget (ttl_probe_entry D) (ttl_erase_expired D) H s"

definition evict_expired ::
  "('k, 's) ttl_strategy \<Rightarrow> u64 \<Rightarrow> 'k ttl_heap \<Rightarrow> 's \<Rightarrow> nat \<times> 'k ttl_heap \<times> 's" where
  "evict_expired D now H s = ttl_index_sweep D now 0 H s"

definition evict_expired_n ::
  "('k, 's) ttl_strategy \<Rightarrow> u64 \<Rightarrow> nat \<Rightarrow> 'k ttl_heap \<Rightarrow> 's \<Rightarrow> nat \<times> 'k ttl_heap \<times> 's" where
  "evict_expired_n D now batch_size H s =
     (if batch_size = 0 then evict_expired D now H s else ttl_index_sweep D now batch_size H s)"

section \<open>What a sweep does\<close>

text \<open>
  \<open>drain probe erase es s\<close>: the entries \<open>es\<close> are looked at one by one; the result is
  the number erased, the pinned ones, and the state.
\<close>

fun drain ::
  "('k \<Rightarrow> u64 \<Rightarrow> 's \<Rightarrow> probe_result) \<Rightarrow> ('k \<Rightarrow> 's \<Rightarrow> 's) \<Rightarrow> 'k entry list \<Rightarrow> 's \<Rightarrow>
   nat \<times> 'k entry list \<times> 's" where
  "drain probe erase [] s = (0, [], s)"
| "drain probe erase (e # es) s =
     (case probe (entry_key e) (expiry_ns e) s of
        Pinned \<Rightarrow> (let (n, ps, s) = drain probe erase es s in (n, e # ps, s))
      | Ready \<Rightarrow> (let (n, ps, s) = drain probe erase es (erase (entry_key e) s) in (Suc n, ps, s))
      | _ \<Rightarrow> drain probe erase es s)"

definition th_ok :: "'k ttl_heap \<Rightarrow> bool" where
  "th_ok H = is_heap min_on_expiry (th_heap H)"

lemma th_push_eq:
  "th_push key expiry H =
     (if expiry = 0 then H
      else H\<lparr>th_heap := heap_insert min_on_expiry \<lparr>expiry_ns = expiry, entry_key = key\<rparr> (th_heap H)\<rparr>)"
  by (simp add: th_push_def heap_insert_def)

lemma th_ok_new [simp]: "th_ok th_new"
  by (simp add: th_ok_def th_new_def expiry.wf_empty)

lemma th_ok_push [intro]: "th_ok H \<Longrightarrow> th_ok (th_push key e H)"
  by (simp add: th_ok_def th_push_eq expiry.wf_push)

lemma mset_th_push:
  "mset (th_heap (th_push key e H)) =
     (if e = 0 then {#} else {#\<lparr>expiry_ns = e, entry_key = key\<rparr>#}) + mset (th_heap H)"
  by (simp add: th_push_eq expiry.mset_push)

lemma reinsert_deferred_eq:
  "th_heap (reinsert_deferred H) = fold (heap_insert min_on_expiry) (th_deferred H) (th_heap H)"
  by (simp add: reinsert_deferred_def heap_insert_def [abs_def] fun_eq_iff)

definition sweep_done :: "u64 \<Rightarrow> nat \<Rightarrow> nat \<Rightarrow> 'k ttl_heap \<Rightarrow> bool" where
  "sweep_done now budget k H \<longleftrightarrow>
     th_heap H = [] \<or> (budget \<noteq> 0 \<and> k \<ge> budget) \<or> expiry_ns (hd (th_heap H)) > now"

definition th_pop :: "'k ttl_heap \<Rightarrow> 'k ttl_heap" where
  "th_pop H = H\<lparr>th_heap := heap_delete min_on_expiry (th_heap H)\<rparr>"

lemma sweep_loop_done:
  "sweep_done now budget k H \<Longrightarrow> sweep_loop now budget probe erase k H s = (k, H, s)"
  by (subst sweep_loop.simps) (auto simp: sweep_done_def Let_def)

lemma sweep_loop_go:
  "\<not> sweep_done now budget k H \<Longrightarrow> sweep_loop now budget probe erase k H s =
     (let top = hd (th_heap H); H = th_pop H in
      case probe (entry_key top) (expiry_ns top) s of
        Pinned \<Rightarrow> sweep_loop now budget probe erase k (H\<lparr>th_deferred := th_deferred H @ [top]\<rparr>) s
      | Ready \<Rightarrow> sweep_loop now budget probe erase (k + 1) H (erase (entry_key top) s)
      | _ \<Rightarrow> sweep_loop now budget probe erase k H s)"
  by (subst sweep_loop.simps)
    (auto simp: sweep_done_def th_pop_def heap_delete_def Let_def split: probe_result.splits)

text \<open>
  \<open>swept now budget es rest n heap\<close>: of the entries \<open>heap\<close>, the expired ones \<open>es\<close>
  were looked at in order of expiry, and either none that is expired is left or the budget
  was used up by the \<open>n\<close> erasures.
\<close>

definition swept ::
  "u64 \<Rightarrow> nat \<Rightarrow> 'k entry list \<Rightarrow> 'k entry multiset \<Rightarrow> nat \<Rightarrow> 'k entry multiset \<Rightarrow> bool" where
  "swept now budget es rest n heap \<longleftrightarrow>
     heap = mset es + rest \<and>
     sorted_wrt (\<lambda>a b. expiry_ns a \<le> expiry_ns b) es \<and>
     (\<forall>a \<in> set es. expiry_ns a \<le> now \<and> (\<forall>b \<in># rest. expiry_ns a \<le> expiry_ns b)) \<and>
     (if budget \<noteq> 0 \<and> n \<ge> budget then n = budget else (\<forall>b \<in># rest. now < expiry_ns b))"

lemma th_ok_pop: "th_ok H \<Longrightarrow> th_ok (th_pop H)"
  by (simp add: th_ok_def th_pop_def expiry.wf_pop)

lemma swept_cons:
  assumes "th_ok H" "th_heap H \<noteq> []" "expiry_ns (hd (th_heap H)) \<le> now"
    and "swept now budget es rest n (mset (th_heap (th_pop H)))"
  shows "swept now budget (hd (th_heap H) # es) rest n (mset (th_heap H))"
proof -
  have "mset (th_heap H) = add_mset (hd (th_heap H)) (mset (th_heap (th_pop H)))"
    using assms(2) by (simp add: th_pop_def expiry.mset_pop)
  moreover have "\<forall>b \<in> set (th_heap (th_pop H)). expiry_ns (hd (th_heap H)) \<le> expiry_ns b"
    using expiry.front_greatest [of "th_heap H"] expiry.set_pop [OF assms(2)] assms(1)
    by (force simp: th_ok_def th_pop_def min_on_expiry_def)
  moreover have "set (th_heap (th_pop H)) = set es \<union> set_mset rest"
    using assms(4) by (metis set_mset_mset set_mset_union swept_def)
  ultimately show ?thesis using assms(3,4) by (auto simp: swept_def)
qed

lemma sweep_loop_swept:
  assumes "th_ok H" "sweep_loop now budget probe erase k H s = (n, H', s')" "budget = 0 \<or> k \<le> budget"
  shows "\<exists>es ps m. n = k + m \<and> swept now budget es (mset (th_heap H')) n (mset (th_heap H)) \<and>
     drain probe erase es s = (m, ps, s') \<and> th_ok H' \<and> th_deferred H' = th_deferred H @ ps"
  using assms
proof (induction "length (th_heap H)" arbitrary: H k s rule: less_induct)
  case less
  show ?case
  proof (cases "sweep_done now budget k H")
    case True
    then have r: "n = k" "H' = H" "s' = s" using less.prems sweep_loop_done by (metis prod.inject)+
    have "now < expiry_ns b" if "b \<in> set (th_heap H)" "now < expiry_ns (hd (th_heap H))" for b
      using expiry.front_greatest [of "th_heap H" b] less.prems(1) that
      by (auto simp: th_ok_def min_on_expiry_def)
    with True less.prems have "swept now budget [] (mset (th_heap H)) k (mset (th_heap H))"
      by (auto simp: swept_def sweep_done_def)
    with r less.prems show ?thesis by (intro exI [of _ "[]"] exI [of _ 0]) auto
  next
    case False
    let ?top = "hd (th_heap H)" and ?H = "th_pop H"
    have ne: "th_heap H \<noteq> []" and top: "expiry_ns ?top \<le> now" using False by (auto simp: sweep_done_def)
    have len: "length (th_heap ?H) < length (th_heap H)"
      using expiry.length_pop [OF ne] by (simp add: th_pop_def)
    have ok: "th_ok ?H" using less.prems(1) by (rule th_ok_pop)
    note step = swept_cons [OF less.prems(1) ne top]
    note go = less.prems(2) [unfolded sweep_loop_go [OF False] Let_def]
    have b: "budget = 0 \<or> k < budget" using False by (auto simp: sweep_done_def)
    have def: "th_deferred ?H = th_deferred H" by (simp add: th_pop_def)
    show ?thesis
    proof (cases "probe (entry_key ?top) (expiry_ns ?top) s")
      case Pinned
      let ?H2 = "?H\<lparr>th_deferred := th_deferred H @ [?top]\<rparr>"
      have "th_ok ?H2" "length (th_heap ?H2) < length (th_heap H)" using ok len by (auto simp: th_ok_def)
      from less.hyps [OF this(2,1) _ less.prems(3), of s] go Pinned def obtain es ps m where
        "n = k + m" "swept now budget es (mset (th_heap H')) n (mset (th_heap ?H))"
        "drain probe erase es s = (m, ps, s')" "th_ok H'" "th_deferred H' = th_deferred H @ ?top # ps"
        by auto
      with Pinned step show ?thesis
        by (intro exI [of _ "?top # es"] exI [of _ "?top # ps"] exI [of _ m]) auto
    next
      case Ready
      from less.hyps [OF len ok, of "k + 1" "erase (entry_key ?top) s"] go Ready b def obtain es ps m where
        "n = k + 1 + m" "swept now budget es (mset (th_heap H')) n (mset (th_heap ?H))"
        "drain probe erase es (erase (entry_key ?top) s) = (m, ps, s')" "th_ok H'"
        "th_deferred H' = th_deferred H @ ps" by auto
      with Ready step show ?thesis
        by (intro exI [of _ "?top # es"] exI [of _ ps] exI [of _ "Suc m"]) auto
    next
      case Absent
      from less.hyps [OF len ok _ less.prems(3), of s] go Absent def obtain es ps m where
        "n = k + m" "swept now budget es (mset (th_heap H')) n (mset (th_heap ?H))"
        "drain probe erase es s = (m, ps, s')" "th_ok H'" "th_deferred H' = th_deferred H @ ps" by auto
      with Absent step show ?thesis
        by (intro exI [of _ "?top # es"] exI [of _ ps] exI [of _ "m"]) auto
    next
      case Stale
      from less.hyps [OF len ok _ less.prems(3), of s] go Stale def obtain es ps m where
        "n = k + m" "swept now budget es (mset (th_heap H')) n (mset (th_heap ?H))"
        "drain probe erase es s = (m, ps, s')" "th_ok H'" "th_deferred H' = th_deferred H @ ps" by auto
      with Stale step show ?thesis
        by (intro exI [of _ "?top # es"] exI [of _ ps] exI [of _ "m"]) auto
    qed
  qed
qed

lemma sweep_swept:
  assumes "th_ok H" "sweep now budget probe erase H s = (n, H', s')"
  shows "\<exists>es rest ps. swept now budget es rest n (mset (th_heap H)) \<and>
     drain probe erase es s = (n, ps, s') \<and> mset (th_heap H') = rest + mset ps \<and>
     th_ok H' \<and> th_deferred H' = []"
proof -
  obtain k H1 s1 where loop: "sweep_loop now budget probe erase 0 (H\<lparr>th_deferred := []\<rparr>) s = (k, H1, s1)"
    by (metis prod_cases3)
  have "th_ok (H\<lparr>th_deferred := []\<rparr>)" using assms(1) by (simp add: th_ok_def)
  from sweep_loop_swept [OF this loop] obtain es ps where
    "swept now budget es (mset (th_heap H1)) k (mset (th_heap H))"
    "drain probe erase es s = (k, ps, s1)" "th_ok H1" "th_deferred H1 = ps" by auto
  moreover have "n = k" "H' = reinsert_deferred H1" "s' = s1"
    using assms(2) loop by (simp_all add: sweep_def)
  moreover have "mset (th_heap (reinsert_deferred H1)) = mset (th_heap H1) + mset (th_deferred H1)"
    by (simp add: reinsert_deferred_eq expiry.mset_fold_push)
  moreover have "th_ok (reinsert_deferred H1)"
    using \<open>th_ok H1\<close> by (simp add: th_ok_def reinsert_deferred_eq expiry.wf_fold_push)
  moreover have "th_deferred (reinsert_deferred H1) = []" by (simp add: reinsert_deferred_def)
  ultimately show ?thesis by blast
qed

lemma fold_th_push:
  "mset (th_heap (fold (\<lambda>(key, expiry). th_push key expiry) live H)) =
     mset (map (\<lambda>(key, e). \<lparr>expiry_ns = e, entry_key = key\<rparr>) (filter (\<lambda>(_, e). e \<noteq> 0) live)) +
     mset (th_heap H)"
  by (induction live arbitrary: H) (auto simp: mset_th_push)

lemma th_ok_fold_push: "th_ok H \<Longrightarrow> th_ok (fold (\<lambda>(key, expiry). th_push key expiry) live H)"
  by (induction live arbitrary: H) auto

lemma mset_rebuild:
  "mset (th_heap (rebuild live H)) =
     mset (map (\<lambda>(key, e). \<lparr>expiry_ns = e, entry_key = key\<rparr>) (filter (\<lambda>(_, e). e \<noteq> 0) live))"
  by (simp add: rebuild_def fold_th_push th_clear_def)

lemma set_rebuild:
  "set (th_heap (rebuild live H)) =
     (\<lambda>(key, e). \<lparr>expiry_ns = e, entry_key = key\<rparr>) ` {(key, e) \<in> set live. e \<noteq> 0}"
proof -
  have "set (th_heap (rebuild live H)) = set_mset (mset (th_heap (rebuild live H)))" by simp
  also have "\<dots> = (\<lambda>(key, e). \<lparr>expiry_ns = e, entry_key = key\<rparr>) ` {(key, e) \<in> set live. e \<noteq> 0}"
    unfolding mset_rebuild by auto
  finally show ?thesis .
qed

lemma length_rebuild: "length (th_heap (rebuild live H)) \<le> length live"
proof -
  have "length (th_heap (rebuild live H)) = size (mset (th_heap (rebuild live H)))" by simp
  also have "\<dots> = length (filter (\<lambda>(_, e). e \<noteq> 0) live)" unfolding mset_rebuild by (simp only: size_mset length_map)
  also have "\<dots> \<le> length live" by (rule length_filter_le)
  finally show ?thesis .
qed

lemma th_ok_rebuild: "th_ok (rebuild live H)"
  unfolding rebuild_def
  by (rule th_ok_fold_push) (simp add: th_ok_def th_clear_def expiry.wf_empty)

section \<open>What a strategy gets from its answers\<close>

text \<open>
  The contract of the four answers. A strategy has a partial map from its keys to their
  expiry (0 for none) and a set of pinned keys. The probe compares with the map, and
  erasing removes one unpinned key and nothing else.
\<close>

definition indexed :: "('k \<Rightarrow> u64 option) \<Rightarrow> 'k ttl_heap \<Rightarrow> bool" where
  "indexed live H \<longleftrightarrow>
     (\<forall>k e. live k = Some e \<and> e \<noteq> 0 \<longrightarrow> \<lparr>expiry_ns = e, entry_key = k\<rparr> \<in> set (th_heap H))"

locale ttl_client =
  fixes D :: "('k, 's) ttl_strategy"
    and inv :: "'s \<Rightarrow> bool"
    and live :: "'s \<Rightarrow> 'k \<Rightarrow> u64 option"
    and pinned :: "'s \<Rightarrow> 'k \<Rightarrow> bool"
  assumes probe: "inv s \<Longrightarrow> ttl_probe_entry D k e s =
      (case live s k of
         None \<Rightarrow> Absent
       | Some e' \<Rightarrow> if e' \<noteq> e then Stale else if pinned s k then Pinned else Ready)"
    and erase_inv: "inv s \<Longrightarrow> live s k \<noteq> None \<Longrightarrow> \<not> pinned s k \<Longrightarrow> inv (ttl_erase_expired D k s)"
    and erase_live: "inv s \<Longrightarrow> live s k \<noteq> None \<Longrightarrow> \<not> pinned s k \<Longrightarrow>
      live (ttl_erase_expired D k s) = (live s)(k := None)"
    and erase_pinned: "inv s \<Longrightarrow> live s k \<noteq> None \<Longrightarrow> \<not> pinned s k \<Longrightarrow> j \<noteq> k \<Longrightarrow>
      pinned (ttl_erase_expired D k s) j = pinned s j"
begin

definition due :: "'s \<Rightarrow> 'k entry \<Rightarrow> bool" where
  "due s a \<longleftrightarrow> live s (entry_key a) = Some (expiry_ns a) \<and> \<not> pinned s (entry_key a)"

lemma drain_live:
  "inv s \<Longrightarrow> drain (ttl_probe_entry D) (ttl_erase_expired D) es s = (n, ps, s') \<Longrightarrow>
   inv s' \<and>
   live s' = (\<lambda>k. if \<exists>a \<in> set es. entry_key a = k \<and> due s a then None else live s k) \<and>
   (\<forall>k. live s' k \<noteq> None \<longrightarrow> pinned s' k = pinned s k) \<and>
   set ps = {a \<in> set es. live s (entry_key a) = Some (expiry_ns a) \<and> pinned s (entry_key a)}"
proof (induction es arbitrary: s n ps)
  case Nil
  then show ?case by simp
next
  case (Cons a es)
  let ?k = "entry_key a"
  show ?case
  proof (cases "due s a")
    case True
    let ?s = "ttl_erase_expired D ?k s"
    have r: "live s ?k \<noteq> None" "\<not> pinned s ?k" using True by (auto simp: due_def)
    then obtain m where d: "drain (ttl_probe_entry D) (ttl_erase_expired D) es ?s = (m, ps, s')"
      using Cons.prems True by (auto simp: probe due_def split: prod.splits)
    note e = erase_inv [OF Cons.prems(1) r] erase_live [OF Cons.prems(1) r] erase_pinned [OF Cons.prems(1) r]
    have due: "due ?s b \<longleftrightarrow> entry_key b \<noteq> ?k \<and> due s b" for b
      using e by (auto simp: due_def)
    from Cons.IH [OF e(1) d] show ?thesis using e True r by (auto simp: due fun_eq_iff)
  next
    case False
    then have pr: "ttl_probe_entry D ?k (expiry_ns a) s =
       (if live s ?k = Some (expiry_ns a) then Pinned else if live s ?k = None then Absent else Stale)"
      using Cons.prems(1) by (auto simp: probe due_def split: option.splits)
    then obtain m qs where d: "drain (ttl_probe_entry D) (ttl_erase_expired D) es s = (m, qs, s')"
      and ps: "ps = (if live s ?k = Some (expiry_ns a) then a # qs else qs)"
      using Cons.prems(2) by (auto split: prod.splits if_splits)
    from Cons.IH [OF Cons.prems(1) d] show ?thesis using False ps by (auto simp: due_def fun_eq_iff)
  qed
qed

lemma sweep_live:
  assumes "inv s" "th_ok H" "indexed (live s) H" "\<forall>a \<in> set (th_heap H). expiry_ns a \<noteq> 0"
    and sw: "ttl_index_sweep D now budget H s = (n, H', s')"
  shows "inv s' \<and> th_ok H' \<and> indexed (live s') H' \<and> (\<forall>a \<in> set (th_heap H'). expiry_ns a \<noteq> 0) \<and>
    (\<exists>es \<subseteq> {a \<in> set (th_heap H). expiry_ns a \<le> now}.
       (budget = 0 \<longrightarrow> es = {a \<in> set (th_heap H). expiry_ns a \<le> now}) \<and>
       live s' = (\<lambda>k. if \<exists>a \<in> es. entry_key a = k \<and> due s a then None else live s k))"
proof -
  from sweep_swept [OF assms(2) sw [unfolded ttl_index_sweep_def]] obtain es rest ps where
    sw: "swept now budget es rest n (mset (th_heap H))" and
    d: "drain (ttl_probe_entry D) (ttl_erase_expired D) es s = (n, ps, s')" and
    H': "mset (th_heap H') = rest + mset ps" "th_ok H'" by blast
  have hs: "set (th_heap H) = set es \<union> set_mset rest"
    using sw by (metis set_mset_mset set_mset_union swept_def)
  have hs': "set (th_heap H') = set_mset rest \<union> set ps"
    using H'(1) by (metis set_mset_mset set_mset_union)
  note L = drain_live [OF assms(1) d]
  have "indexed (live s') H'"
    unfolding indexed_def
  proof (intro allI impI)
    fix k e assume a: "live s' k = Some e \<and> e \<noteq> 0"
    let ?a = "\<lparr>expiry_ns = e, entry_key = k\<rparr>"
    have s: "live s k = Some e" "\<not> (\<exists>a \<in> set es. entry_key a = k \<and> due s a)"
      using a L by (auto split: if_splits)
    then have "?a \<in> set (th_heap H)" using assms(3) a by (auto simp: indexed_def)
    moreover have "?a \<in> set es \<Longrightarrow> ?a \<in> set ps" using L s by (auto simp: due_def)
    ultimately show "?a \<in> set (th_heap H')" unfolding hs hs' by blast
  qed
  moreover have "set ps \<subseteq> set es" using L by blast
  then have "\<forall>a \<in> set (th_heap H'). expiry_ns a \<noteq> 0" using assms(4) unfolding hs hs' by blast
  moreover have "set es \<subseteq> {a \<in> set (th_heap H). expiry_ns a \<le> now}"
    using sw hs by (auto simp: swept_def)
  moreover have "budget = 0 \<longrightarrow> set es = {a \<in> set (th_heap H). expiry_ns a \<le> now}"
    using sw hs by (fastforce simp: swept_def)
  ultimately show ?thesis using L H'(2) by blast
qed

lemma evict_expired_n_live:
  assumes "inv s" "th_ok H" "indexed (live s) H" "\<forall>a \<in> set (th_heap H). expiry_ns a \<noteq> 0"
    and ev: "evict_expired_n D now batch H s = (n, H', s')"
  shows "inv s' \<and> th_ok H' \<and> indexed (live s') H' \<and> (\<forall>a \<in> set (th_heap H'). expiry_ns a \<noteq> 0)"
proof -
  have "ttl_index_sweep D now batch H s = (n, H', s')"
    using ev by (simp add: evict_expired_n_def evict_expired_def split: if_splits)
  from sweep_live [OF assms(1-4) this] show ?thesis by blast
qed

lemma evict_expired_exact:
  assumes "inv s" "th_ok H" "indexed (live s) H" "\<forall>a \<in> set (th_heap H). expiry_ns a \<noteq> 0"
    and ev: "evict_expired D now H s = (n, H', s')"
  shows "inv s' \<and> th_ok H' \<and> indexed (live s') H' \<and> (\<forall>a \<in> set (th_heap H'). expiry_ns a \<noteq> 0) \<and>
    live s' = (\<lambda>k. case live s k of
       Some e \<Rightarrow> if e \<noteq> 0 \<and> e \<le> now \<and> \<not> pinned s k then None else Some e | None \<Rightarrow> None)"
proof -
  let ?es = "{a \<in> set (th_heap H). expiry_ns a \<le> now}"
  from ev have "ttl_index_sweep D now 0 H s = (n, H', s')" by (simp add: evict_expired_def)
  note L = sweep_live [OF assms(1-4) this]
  have "(\<exists>a \<in> ?es. entry_key a = k \<and> due s a) \<longleftrightarrow> e \<noteq> 0 \<and> e \<le> now \<and> \<not> pinned s k"
    if "live s k = Some e" for k e
  proof
    assume "\<exists>a \<in> ?es. entry_key a = k \<and> due s a"
    with that assms(4) show "e \<noteq> 0 \<and> e \<le> now \<and> \<not> pinned s k" by (auto simp: due_def)
  next
    assume a: "e \<noteq> 0 \<and> e \<le> now \<and> \<not> pinned s k"
    then have "\<lparr>expiry_ns = e, entry_key = k\<rparr> \<in> ?es"
      using that assms(3) by (auto simp: indexed_def)
    with that a show "\<exists>a \<in> ?es. entry_key a = k \<and> due s a"
      by (intro bexI [of _ "\<lparr>expiry_ns = e, entry_key = k\<rparr>"]) (auto simp: due_def)
  qed
  then have "(if \<exists>a \<in> ?es. entry_key a = k \<and> due s a then None else live s k) = (case live s k of
       Some e \<Rightarrow> if e \<noteq> 0 \<and> e \<le> now \<and> \<not> pinned s k then None else Some e | None \<Rightarrow> None)" for k
    by (cases "live s k") (auto simp: due_def)
  with L show ?thesis by auto
qed

end

section \<open>Properties\<close>

text \<open>
  C18. One sweep, with a budget or without. The expired entries are looked at in order of
  expiry; each is erased, deferred or discarded as the strategy's probe answers in
  the state it finds; a pinned entry does not stop the sweep. The entries not looked at, and the
  pinned ones, are the index afterwards, which is a heap again, with nothing left in the
  deferred queue. The number returned is the number of erasures, it respects
  the budget, and unless the budget was used up no expired entry was left unlooked at.
\<close>

theorem sweep_complete:
  assumes "th_ok H" "sweep now budget probe erase H s = (n, H', s')"
  shows "\<exists>es rest ps. swept now budget es rest n (mset (th_heap H)) \<and>
     drain probe erase es s = (n, ps, s') \<and> mset (th_heap H') = rest + mset ps \<and>
     th_ok H' \<and> th_deferred H' = []"
  using assms by (rule sweep_swept)

text \<open>An index of four keys and a strategy that pins key 1 and has forgotten key 3.\<close>

definition sample_index :: "nat ttl_heap" where
  "sample_index = th_push 4 90 (th_push 3 20 (th_push 2 30 (th_push 1 10 th_new)))"

definition sample_probe :: "nat \<Rightarrow> u64 \<Rightarrow> nat list \<Rightarrow> probe_result" where
  "sample_probe k _ s = (if k \<notin> set s then Absent else if k = 1 then Pinned else Ready)"

lemma sample_sweep:
  "sweep 50 0 sample_probe remove1 sample_index [1, 2, 4] =
     (1, \<lparr>th_heap = [\<lparr>expiry_ns = 10, entry_key = 1\<rparr>, \<lparr>expiry_ns = 90, entry_key = 4\<rparr>],
         th_deferred = []\<rparr>, [1, 4])"
  by code_simp

theorem sweep_complete_witness:
  "\<exists>es rest ps. swept 50 0 es rest 1 (mset (th_heap sample_index)) \<and>
     drain sample_probe remove1 es [1, 2, 4] = (1, ps, [1, 4])"
proof -
  have "th_ok (sample_index :: nat ttl_heap)" unfolding sample_index_def by (intro th_ok_push th_ok_new)
  from sweep_complete [OF this sample_sweep] show ?thesis by blast
qed

text \<open>
  C19. The index stays small and complete. If the strategy emits at most one entry per live
  item, then after recording an expiry the index holds at most four entries per
  live item, however often keys were refreshed; and if every live item with a TTL was
  indexed, except possibly the one being recorded, then all of them are indexed
  afterwards, whether the index was rebuilt or not.
\<close>

theorem ttl_index_bounded_and_complete:
  assumes "th_ok H" "length (ttl_for_each_live D s) \<le> ttl_live_count D s"
    "\<forall>(k, e) \<in> set (ttl_for_each_live D s). e = 0 \<or> (k, e) = (key, expiry) \<or>
       \<lparr>expiry_ns = e, entry_key = k\<rparr> \<in> set (th_heap H)"
  shows "th_ok (ttl_index_push D s key expiry H) \<and>
    length (th_heap (ttl_index_push D s key expiry H)) \<le> 4 * ttl_live_count D s \<and>
    (\<forall>(k, e) \<in> set (ttl_for_each_live D s). e = 0 \<or>
       \<lparr>expiry_ns = e, entry_key = k\<rparr> \<in> set (th_heap (ttl_index_push D s key expiry H)))"
proof (cases "needs_rebuild (th_push key expiry H) (ttl_live_count D s) kMaxTtlHeapMultiplier")
  case True
  then have "ttl_index_push D s key expiry H = rebuild (ttl_for_each_live D s) (th_push key expiry H)"
    by (simp add: ttl_index_push_def ttl_index_rebuild_def Let_def)
  moreover have "length (th_heap (rebuild (ttl_for_each_live D s) (th_push key expiry H))) \<le>
      4 * ttl_live_count D s"
    using length_rebuild [of "ttl_for_each_live D s" "th_push key expiry H"] assms(2) by linarith
  ultimately show ?thesis by (force simp: th_ok_rebuild set_rebuild)
next
  case False
  then have eq: "ttl_index_push D s key expiry H = th_push key expiry H"
    by (simp add: ttl_index_push_def)
  have "set (th_heap (th_push key expiry H)) = set_mset (mset (th_heap (th_push key expiry H)))" by simp
  also have "\<dots> = (if expiry = 0 then {} else {\<lparr>expiry_ns = expiry, entry_key = key\<rparr>}) \<union> set (th_heap H)"
    unfolding mset_th_push by simp
  finally show ?thesis
    using False assms th_ok_push [OF assms(1)]
    by (auto simp: eq needs_rebuild_def kMaxTtlHeapMultiplier_def)
qed

definition sample_strategy :: "(nat, nat list) ttl_strategy" where
  "sample_strategy =
     \<lparr>ttl_probe_entry = sample_probe, ttl_erase_expired = remove1, ttl_live_count = length,
      ttl_for_each_live = map (\<lambda>k. (k, 40))\<rparr>"

theorem ttl_index_bounded_and_complete_witness:
  "th_heap (ttl_index_push sample_strategy [7] 7 40 sample_index) = [\<lparr>expiry_ns = 40, entry_key = 7\<rparr>] \<and>
   length (th_heap (ttl_index_push sample_strategy [7] 7 40 sample_index)) \<le> 4 * 1"
proof -
  have "th_ok (sample_index :: nat ttl_heap)" unfolding sample_index_def by (intro th_ok_push th_ok_new)
  from ttl_index_bounded_and_complete [OF this, of sample_strategy "[7]" 7 40]
  have "length (th_heap (ttl_index_push sample_strategy [7] 7 40 sample_index)) \<le> 4 * 1"
    by (simp add: sample_strategy_def)
  moreover have "th_heap (ttl_index_push sample_strategy [7] 7 40 sample_index) =
      [\<lparr>expiry_ns = 40, entry_key = 7\<rparr>]" by code_simp
  ultimately show ?thesis by blast
qed

end
