(* ===== verification/Mm_Lru.thy ===== *)
theory Mm_Lru
  imports Cache_Item Ttl_Heap
begin

unbundle bit_operations_syntax

text \<open>
  \<^verbatim>\<open>mm_lru\<close> of \<^verbatim>\<open>src/mm.hpp\<close>, the default eviction strategy, operation by operation.

  The state is the record \<open>mm_lru\<close>. \<open>ml_store\<close> is the memory of the items, \<open>ml_items\<close> the
  LRU list, most recently used first (theory \<open>Intrusive_List\<close>), \<open>ml_map\<close> the hash table
  as a partial map, \<open>ml_index\<close> the TTL index (theory \<open>Ttl_Heap\<close>). The class is not
  thread-safe and its callers hold the cache lock, so operations are functions on the
  state. What the environment decides is part of the state and constant during an
  operation: the two clocks, and whether another party holds \<^verbatim>\<open>update_mutex_\<close>. The floating-point
  ratio of the configuration enters as the function that scales an age by it. The
  \<^verbatim>\<open>assert\<close>s have no effect in a release build and none here; hash-table diagnostics,
  reclamation domains and locks are not part of the state, apart from the domain an
  item is retired to. A throwing allocation is not modelled.
\<close>

section \<open>Configuration and state\<close>

datatype access_mode = Read_access | Write_access

record mm_lru_config =
  lru_insertion_point_spec :: u8
  default_lru_refresh_time :: u32
  lru_refresh_scale :: "u64 \<Rightarrow> u32"
  lru_refresh_ratio_nonneg :: bool
  update_on_write :: bool
  update_on_read :: bool
  try_lock_update :: bool
  eviction_search_tries :: nat
  use_ebr :: bool
  max_pending_deletion :: nat
  mm_reconfigure_interval_secs :: u32
  overflow_tolerance_nonneg :: bool

definition default_config :: mm_lru_config where
  "default_config = \<lparr>lru_insertion_point_spec = 0, default_lru_refresh_time = 60,
     lru_refresh_scale = (\<lambda>_. 0), lru_refresh_ratio_nonneg = True, update_on_write = False,
     update_on_read = True, try_lock_update = True, eviction_search_tries = 3, use_ebr = False,
     max_pending_deletion = 0, mm_reconfigure_interval_secs = 0, overflow_tolerance_nonneg = True\<rparr>"

definition k_lru_refresh_time_cap :: u32 where "k_lru_refresh_time_cap = 900"

definition validate :: "mm_lru_config \<Rightarrow> bool" where
  "validate c \<longleftrightarrow>
     \<not> (lru_insertion_point_spec c > 7) \<and> lru_refresh_ratio_nonneg c \<and> overflow_tolerance_nonneg c"

definition validate_capacity :: "nat \<Rightarrow> nat \<Rightarrow> bool" where
  "validate_capacity max_size max_memory \<longleftrightarrow>
     \<not> (max_size = 0 \<and> max_memory \<noteq> 0 \<and> max_memory \<noteq> unlimited)"

datatype domain = Ebr | Hazptr

record ('k, 'v) mm_lru =
  ml_store :: "addr \<Rightarrow> ('k, 'v) cache_item"
  ml_fresh :: addr
  ml_items :: "addr list"
  ml_map :: "'k \<Rightarrow> addr option"
  ml_max_size :: nat
  ml_max_memory :: nat
  ml_config :: mm_lru_config
  insertion_point :: "addr option"
  tail_size :: u64
  insertion_point_pos :: nat
  unpinned_tail :: "addr option"
  lru_refresh_time :: u32
  next_reconfigure_time :: u32
  ml_stats :: cache_stats
  ml_events :: "('k, 'v) cache_event list"
  has_eviction_callbacks :: bool
  key_size_fn :: "('k \<Rightarrow> u64) option"
  value_size_fn :: "('v \<Rightarrow> u64) option"
  eviction_predicate :: "('k \<Rightarrow> 'v \<Rightarrow> bool) option"
  item_overhead :: u64
  pending_deletion :: "addr list"
  pending_deletion_skipped_count :: nat
  ml_retired :: "(domain \<times> addr) list"
  ml_index :: "'k ttl_heap"
  cached_now_ns :: u64
  now_sec :: u32
  now_ns :: u64
  update_mutex_busy :: bool

definition item :: "('k, 'v) mm_lru \<Rightarrow> addr \<Rightarrow> ('k, 'v) cache_item" where
  "item S a = ml_store S a"

definition on_item ::
  "addr \<Rightarrow> (('k, 'v) cache_item \<Rightarrow> ('k, 'v) cache_item) \<Rightarrow> ('k, 'v) mm_lru \<Rightarrow> ('k, 'v) mm_lru" where
  "on_item a f S = S\<lparr>ml_store := (ml_store S)(a := f (ml_store S a))\<rparr>"

definition on_stats :: "(cache_stats \<Rightarrow> cache_stats) \<Rightarrow> ('k, 'v) mm_lru \<Rightarrow> ('k, 'v) mm_lru" where
  "on_stats f S = S\<lparr>ml_stats := f (ml_stats S)\<rparr>"

definition report :: "('k, 'v) cache_event \<Rightarrow> ('k, 'v) mm_lru \<Rightarrow> ('k, 'v) mm_lru" where
  "report e S = S\<lparr>ml_events := ml_events S @ [e]\<rparr>"

definition memory_add :: "u64 \<Rightarrow> cache_stats \<Rightarrow> cache_stats" where
  "memory_add m st = st\<lparr>current_memory := current_memory st + m\<rparr>"

definition memory_sub :: "u64 \<Rightarrow> cache_stats \<Rightarrow> cache_stats" where
  "memory_sub m st = st\<lparr>current_memory := current_memory st - m\<rparr>"

section \<open>List helpers\<close>

definition list_head :: "('k, 'v) mm_lru \<Rightarrow> addr option" where
  "list_head S = (if ml_items S = [] then None else Some (hd (ml_items S)))"

definition list_tail :: "('k, 'v) mm_lru \<Rightarrow> addr option" where
  "list_tail S = (if ml_items S = [] then None else Some (last (ml_items S)))"

definition list_size :: "('k, 'v) mm_lru \<Rightarrow> nat" where
  "list_size S = length (ml_items S)"

text \<open>
  The nodes before and after a node, nearest first: what repeated \<^verbatim>\<open>get_prev\<close> and
  \<^verbatim>\<open>get_next\<close> visit.
\<close>

definition preds :: "addr \<Rightarrow> addr list \<Rightarrow> addr list" where
  "preds a xs = rev (takeWhile (\<lambda>b. b \<noteq> a) xs)"

definition succs :: "addr \<Rightarrow> addr list \<Rightarrow> addr list" where
  "succs a xs = tl (dropWhile (\<lambda>b. b \<noteq> a) xs)"

definition first :: "'a list \<Rightarrow> 'a option" where
  "first xs = (case xs of [] \<Rightarrow> None | x # _ \<Rightarrow> Some x)"

definition list_get_prev :: "('k, 'v) mm_lru \<Rightarrow> addr \<Rightarrow> addr option" where
  "list_get_prev S a = first (preds a (ml_items S))"

definition list_get_next :: "('k, 'v) mm_lru \<Rightarrow> addr \<Rightarrow> addr option" where
  "list_get_next S a = first (succs a (ml_items S))"

definition list_link_at_head :: "addr \<Rightarrow> ('k, 'v) mm_lru \<Rightarrow> ('k, 'v) mm_lru" where
  "list_link_at_head a S = S\<lparr>ml_items := a # ml_items S\<rparr>"

definition list_link_at_tail :: "addr \<Rightarrow> ('k, 'v) mm_lru \<Rightarrow> ('k, 'v) mm_lru" where
  "list_link_at_tail a S = S\<lparr>ml_items := ml_items S @ [a]\<rparr>"

definition list_insert_before :: "addr \<Rightarrow> addr \<Rightarrow> ('k, 'v) mm_lru \<Rightarrow> ('k, 'v) mm_lru" where
  "list_insert_before n a S =
     S\<lparr>ml_items := takeWhile (\<lambda>b. b \<noteq> n) (ml_items S) @ a # dropWhile (\<lambda>b. b \<noteq> n) (ml_items S)\<rparr>"

definition list_remove :: "addr \<Rightarrow> ('k, 'v) mm_lru \<Rightarrow> ('k, 'v) mm_lru" where
  "list_remove a S = S\<lparr>ml_items := remove1 a (ml_items S)\<rparr>"

definition list_replace :: "addr \<Rightarrow> addr \<Rightarrow> ('k, 'v) mm_lru \<Rightarrow> ('k, 'v) mm_lru" where
  "list_replace old_node new_node S =
     S\<lparr>ml_items := map (\<lambda>b. if b = old_node then new_node else b) (ml_items S)\<rparr>"

definition items_move_to_head :: "addr \<Rightarrow> ('k, 'v) mm_lru \<Rightarrow> ('k, 'v) mm_lru" where
  "items_move_to_head a S =
     (if list_head S = Some a then S else S\<lparr>ml_items := a # remove1 a (ml_items S)\<rparr>)"

section \<open>Internal helpers\<close>

definition size_of :: "('k, 'v) mm_lru \<Rightarrow> nat" where
  "size_of S = list_size S"

definition should_evict :: "('k, 'v) mm_lru \<Rightarrow> bool" where
  "should_evict S \<longleftrightarrow>
     (ml_max_size S \<noteq> unlimited \<and> size_of S > ml_max_size S) \<or>
     (ml_max_memory S \<noteq> unlimited \<and> unat (current_memory (ml_stats S)) > ml_max_memory S)"

definition calc_item_memory :: "('k, 'v) mm_lru \<Rightarrow> 'k \<Rightarrow> 'v \<Rightarrow> u64" where
  "calc_item_memory S k v =
     item_overhead S
     + (case key_size_fn S of None \<Rightarrow> 0 | Some f \<Rightarrow> f k * 2)
     + (case value_size_fn S of None \<Rightarrow> 0 | Some f \<Rightarrow> f v)"

definition item_memory :: "('k, 'v) mm_lru \<Rightarrow> addr \<Rightarrow> u64" where
  "item_memory S a = calc_item_memory S (it_key (item S a)) (it_value (item S a))"

definition retire_item :: "addr \<Rightarrow> ('k, 'v) mm_lru \<Rightarrow> ('k, 'v) mm_lru" where
  "retire_item a S =
     S\<lparr>ml_retired := ml_retired S @ [(if use_ebr (ml_config S) then Ebr else Hazptr, a)]\<rparr>"

text \<open>One pass over \<^verbatim>\<open>pending_deletion_\<close>, in order; an item without handles leaves it.\<close>

fun cleanup_loop :: "addr list \<Rightarrow> ('k, 'v) mm_lru \<Rightarrow> ('k, 'v) mm_lru" where
  "cleanup_loop [] S = S"
| "cleanup_loop (a # as) S =
     (if \<not> has_active_handle (item S a)
      then let S = report (On_evict (it_key (item S a)) (it_value (item S a))) S;
               S = retire_item a S;
               S = S\<lparr>pending_deletion := remove1 a (pending_deletion S)\<rparr>
           in cleanup_loop as S
      else cleanup_loop as S)"

definition cleanup_pending_deletion :: "('k, 'v) mm_lru \<Rightarrow> ('k, 'v) mm_lru" where
  "cleanup_pending_deletion S = cleanup_loop (pending_deletion S) S"

definition pending_deletion_at_cap :: "('k, 'v) mm_lru \<Rightarrow> bool" where
  "pending_deletion_at_cap S \<longleftrightarrow>
     max_pending_deletion (ml_config S) > 0 \<and>
     length (pending_deletion S) \<ge> max_pending_deletion (ml_config S)"

subsection \<open>Insertion point\<close>

text \<open>
  The two loops of \<^verbatim>\<open>update_lru_insertion_point\<close>. The last argument but one lists the nodes
  the loop may still step to, so it is empty at the head or at the tail of the list.
\<close>

fun grow_tail :: "u64 \<Rightarrow> addr \<Rightarrow> addr list \<Rightarrow> ('k, 'v) mm_lru \<Rightarrow> addr \<times> ('k, 'v) mm_lru" where
  "grow_tail expected cur [] S = (cur, S)"
| "grow_tail expected cur (p # ps) S =
     (if tail_size S < expected
      then let S = on_item p (\<lambda>i. i\<lparr>it_tail := True\<rparr>) S;
               S = S\<lparr>tail_size := tail_size S + 1\<rparr>
           in grow_tail expected p ps S
      else (cur, S))"

fun shrink_tail :: "u64 \<Rightarrow> addr \<Rightarrow> addr list \<Rightarrow> ('k, 'v) mm_lru \<Rightarrow> addr \<times> ('k, 'v) mm_lru" where
  "shrink_tail expected cur [] S = (cur, S)"
| "shrink_tail expected cur (n # ns) S =
     (if tail_size S > expected
      then let S = on_item cur (\<lambda>i. i\<lparr>it_tail := False\<rparr>) S;
               S = S\<lparr>tail_size := tail_size S - 1\<rparr>
           in shrink_tail expected n ns S
      else (cur, S))"

definition position_of_tail :: "('k, 'v) mm_lru \<Rightarrow> nat" where
  "position_of_tail S = unat (of_nat (list_size S) - tail_size S)"

definition update_lru_insertion_point :: "('k, 'v) mm_lru \<Rightarrow> ('k, 'v) mm_lru" where
  "update_lru_insertion_point S =
     (if lru_insertion_point_spec (ml_config S) = 0 then S\<lparr>insertion_point_pos := unlimited\<rparr>
      else
        let S = (if insertion_point S = None
                 then let S = S\<lparr>insertion_point := list_tail S, tail_size := 0\<rparr>
                      in (case insertion_point S of
                            None \<Rightarrow> S
                          | Some t \<Rightarrow> (on_item t (\<lambda>i. i\<lparr>it_tail := True\<rparr>) S)\<lparr>tail_size := 1\<rparr>)
                 else S)
        in (case insertion_point S of
              None \<Rightarrow> S\<lparr>insertion_point_pos := unlimited\<rparr>
            | Some cur \<Rightarrow>
                if list_size S \<le> 1 then S\<lparr>insertion_point_pos := position_of_tail S\<rparr>
                else
                  let expected = drop_bit (unat (lru_insertion_point_spec (ml_config S)))
                                   (of_nat (list_size S));
                      (cur, S) = grow_tail expected cur (preds cur (ml_items S)) S;
                      (cur, S) = shrink_tail expected cur (succs cur (ml_items S)) S;
                      S = S\<lparr>insertion_point := Some cur\<rparr>
                  in S\<lparr>insertion_point_pos := position_of_tail S\<rparr>))"

definition ensure_not_insertion_point :: "addr \<Rightarrow> ('k, 'v) mm_lru \<Rightarrow> ('k, 'v) mm_lru" where
  "ensure_not_insertion_point a S =
     (if insertion_point S = Some a
      then let S = S\<lparr>insertion_point := list_get_prev S a\<rparr>
           in (case insertion_point S of
                 None \<Rightarrow> S
               | Some p \<Rightarrow>
                   let S = S\<lparr>tail_size := tail_size S + 1\<rparr> in on_item p (\<lambda>i. i\<lparr>it_tail := True\<rparr>) S)
      else S)"

text \<open>The tail flag and its count, as every path that takes an item out of the tail does it.\<close>

definition leave_tail :: "addr \<Rightarrow> ('k, 'v) mm_lru \<Rightarrow> ('k, 'v) mm_lru" where
  "leave_tail a S =
     (if it_tail (item S a)
      then (on_item a (\<lambda>i. i\<lparr>it_tail := False\<rparr>) S)\<lparr>tail_size := tail_size S - 1\<rparr>
      else S)"

definition remove_from_list :: "addr \<Rightarrow> ('k, 'v) mm_lru \<Rightarrow> ('k, 'v) mm_lru" where
  "remove_from_list a S =
     (if \<not> is_in_container (item S a) then S
      else
        let S = ensure_not_insertion_point a S;
            S = leave_tail a S;
            S = on_item a (\<lambda>i. i\<lparr>it_accessed := False\<rparr>) S;
            S = on_item a (refcount_step unmarkInMMContainer_try) S;
            S = list_remove a S
        in update_lru_insertion_point S)"

subsection \<open>Promotion\<close>

definition oldest_element_age :: "('k, 'v) mm_lru \<Rightarrow> u64" where
  "oldest_element_age S =
     (case list_tail S of None \<Rightarrow> 0 | Some t \<Rightarrow> ucast (now_sec S - it_update_time (item S t)))"

definition reconfigure_locked :: "u32 \<Rightarrow> ('k, 'v) mm_lru \<Rightarrow> ('k, 'v) mm_lru" where
  "reconfigure_locked curr_time S =
     (if curr_time < next_reconfigure_time S then S
      else
        let S = S\<lparr>next_reconfigure_time := curr_time + mm_reconfigure_interval_secs (ml_config S)\<rparr>;
            scaled = lru_refresh_scale (ml_config S) (oldest_element_age S)
        in S\<lparr>lru_refresh_time :=
               min (max (default_lru_refresh_time (ml_config S)) scaled) k_lru_refresh_time_cap\<rparr>)"

definition promote_locked :: "addr \<Rightarrow> u32 \<Rightarrow> ('k, 'v) mm_lru \<Rightarrow> ('k, 'v) mm_lru" where
  "promote_locked a cur S =
     (let S = reconfigure_locked cur S;
          S = ensure_not_insertion_point a S;
          S = items_move_to_head a S;
          S = on_item a (\<lambda>i. i\<lparr>it_update_time := cur\<rparr>) S
      in if it_tail (item S a)
         then update_lru_insertion_point
                ((on_item a (\<lambda>i. i\<lparr>it_tail := False\<rparr>) S)\<lparr>tail_size := tail_size S - 1\<rparr>)
         else S)"

definition record_access_at :: "addr \<Rightarrow> access_mode \<Rightarrow> u32 \<Rightarrow> ('k, 'v) mm_lru \<Rightarrow> bool \<times> ('k, 'v) mm_lru" where
  "record_access_at a mode cur S =
     (if (mode = Write_access \<and> \<not> update_on_write (ml_config S)) \<or>
         (mode = Read_access \<and> \<not> update_on_read (ml_config S)) then (False, S)
      else if \<not> is_in_container (item S a) then (False, S)
      else if it_accessed (item S a) \<and> cur < it_update_time (item S a) + lru_refresh_time S
      then (False, S)
      else
        let S = (if it_accessed (item S a) then S else on_item a (\<lambda>i. i\<lparr>it_accessed := True\<rparr>) S)
        in if try_lock_update (ml_config S) \<and> update_mutex_busy S
           then (False, on_stats (\<lambda>st. st\<lparr>try_lock_fail_count := try_lock_fail_count st + 1\<rparr>) S)
           else (True, promote_locked a cur S))"

definition record_access :: "addr \<Rightarrow> access_mode \<Rightarrow> ('k, 'v) mm_lru \<Rightarrow> bool \<times> ('k, 'v) mm_lru" where
  "record_access a mode S = record_access_at a mode (now_sec S) S"

section \<open>Eviction\<close>

text \<open>
  The loop of \<^verbatim>\<open>find_eviction_victim\<close> over the nodes from the cursor towards the head, with
  the locals \<^verbatim>\<open>tries\<close>, \<^verbatim>\<open>steps\<close> and \<^verbatim>\<open>first_unpinned\<close>; \<open>pinned\<close> counts the pinned nodes it
  walked past, so \<^verbatim>\<open>saw_pinned\<close> is \<open>pinned > 0\<close>. The two counters it bumps in the
  statistics are added up by the caller.
\<close>

definition vetoed :: "('k, 'v) mm_lru \<Rightarrow> addr \<Rightarrow> bool" where
  "vetoed S a =
     (case eviction_predicate S of
        None \<Rightarrow> False
      | Some pred \<Rightarrow> \<not> pred (it_key (item S a)) (it_value (item S a)))"

fun victim_scan ::
  "('k, 'v) mm_lru \<Rightarrow> addr list \<Rightarrow> nat \<Rightarrow> nat \<Rightarrow> nat \<Rightarrow> addr option \<Rightarrow>
   addr option \<times> nat \<times> nat \<times> addr option" where
  "victim_scan S [] tries steps pinned first_unpinned = (None, steps, pinned, first_unpinned)"
| "victim_scan S (a # as) tries steps pinned first_unpinned =
     (if has_active_handle (item S a)
      then victim_scan S as tries (steps + 1) (pinned + 1) first_unpinned
      else
        let first_unpinned = (if first_unpinned = None then Some a else first_unpinned)
        in if vetoed S a
           then if tries + 1 \<ge> eviction_search_tries (ml_config S)
                then (None, steps + 1, pinned, first_unpinned)
                else victim_scan S as (tries + 1) (steps + 1) pinned first_unpinned
           else (Some a, steps + 1, pinned, first_unpinned))"

definition scan_start :: "('k, 'v) mm_lru \<Rightarrow> addr option" where
  "scan_start S =
     (case unpinned_tail S of
        None \<Rightarrow> list_tail S
      | Some c \<Rightarrow> if has_active_handle (item S c) then list_tail S else Some c)"

definition find_eviction_victim :: "('k, 'v) mm_lru \<Rightarrow> addr option \<times> ('k, 'v) mm_lru" where
  "find_eviction_victim S =
     (case scan_start S of
        None \<Rightarrow> (None, S)
      | Some c \<Rightarrow>
          let (victim, steps, pinned, first_unpinned) =
                victim_scan S (c # preds c (ml_items S)) 0 0 0 None;
              S = on_stats (\<lambda>st. st\<lparr>eviction_search_steps := eviction_search_steps st + steps,
                                   pinned_skip_count := pinned_skip_count st + pinned,
                                   search_hist := search_hist st @ [steps]\<rparr>) S
          in (victim,
              S\<lparr>unpinned_tail :=
                  (if pinned > 0 then list_tail S
                   else case victim of Some a \<Rightarrow> list_get_prev S a | None \<Rightarrow> first_unpinned)\<rparr>))"

definition store_size :: "('k, 'v) mm_lru \<Rightarrow> ('k, 'v) mm_lru" where
  "store_size S = on_stats (\<lambda>st. st\<lparr>current_size := list_size S\<rparr>) S"

definition map_erase :: "'k \<Rightarrow> ('k, 'v) mm_lru \<Rightarrow> ('k, 'v) mm_lru" where
  "map_erase k S = S\<lparr>ml_map := (ml_map S)(k := None)\<rparr>"

definition evict_lru :: "('k, 'v) mm_lru \<Rightarrow> ('k, 'v) mm_lru" where
  "evict_lru S =
     (let S = cleanup_pending_deletion S;
          (victim, S) = find_eviction_victim S
      in case victim of
           None \<Rightarrow> store_size S
         | Some a \<Rightarrow>
             if fst (on_refcount markForEviction_try (item S a)) \<noteq> kSuccess then store_size S
             else
               let S = on_item a (refcount_step markForEviction_try) S;
                   key = it_key (item S a);
                   S = on_stats (memory_sub (item_memory S a)) S;
                   S = on_stats register_eviction S;
                   S = on_stats (\<lambda>st. st\<lparr>evictions_capacity := evictions_capacity st + 1\<rparr>) S;
                   S = (if has_eviction_callbacks S
                        then report (On_evict key (it_value (item S a))) S else S);
                   S = map_erase key S;
                   S = remove_from_list a S;
                   S = (if unpinned_tail S = None then S\<lparr>unpinned_tail := list_tail S\<rparr> else S);
                   S = on_item a (refcount_step unmarkForEviction_try) S;
                   S = retire_item a S
               in store_size S)"

section \<open>What the helpers leave alone\<close>

text \<open>
  The insertion-point helpers change nothing but the tail flags of items, the count of
  flags, and the insertion point with its position: the rest of the state is \<open>core\<close>.
\<close>

definition core :: "('k, 'v) mm_lru \<Rightarrow> ('k, 'v) mm_lru" where
  "core S = S\<lparr>ml_store := (\<lambda>a. (ml_store S a)\<lparr>it_tail := False\<rparr>), insertion_point := None,
     tail_size := 0, insertion_point_pos := 0\<rparr>"

lemma core_item [simp]: "core (on_item a (\<lambda>i. i\<lparr>it_tail := b\<rparr>) S) = core S"
  by (simp add: core_def on_item_def fun_eq_iff)

lemma core_upd [simp]:
  "core (S\<lparr>insertion_point := p\<rparr>) = core S" "core (S\<lparr>tail_size := n\<rparr>) = core S"
  "core (S\<lparr>insertion_point_pos := i\<rparr>) = core S"
  by (simp_all add: core_def)

lemma core_grow [simp]: "core (snd (grow_tail e c ps S)) = core S"
  by (induction e c ps S rule: grow_tail.induct) (simp_all add: Let_def)

lemma core_shrink [simp]: "core (snd (shrink_tail e c ns S)) = core S"
  by (induction e c ns S rule: shrink_tail.induct) (simp_all add: Let_def)

lemma core_update [simp]: "core (update_lru_insertion_point S) = core S"
  unfolding update_lru_insertion_point_def
  by (auto simp: Let_def split: option.splits prod.splits)
    (metis core_grow core_shrink core_upd core_item snd_conv)+

lemma core_ensure [simp]: "core (ensure_not_insertion_point a S) = core S"
  by (auto simp: ensure_not_insertion_point_def Let_def split: option.splits)

lemma core_leave [simp]: "core (leave_tail a S) = core S"
  by (simp add: leave_tail_def)

lemma core_eqD:
  assumes "core S = core T"
  shows "ml_fresh S = ml_fresh T" "ml_items S = ml_items T" "ml_map S = ml_map T"
    "ml_max_size S = ml_max_size T" "ml_max_memory S = ml_max_memory T" "ml_config S = ml_config T"
    "unpinned_tail S = unpinned_tail T" "lru_refresh_time S = lru_refresh_time T"
    "next_reconfigure_time S = next_reconfigure_time T" "ml_stats S = ml_stats T"
    "ml_events S = ml_events T" "has_eviction_callbacks S = has_eviction_callbacks T"
    "key_size_fn S = key_size_fn T" "value_size_fn S = value_size_fn T"
    "eviction_predicate S = eviction_predicate T" "item_overhead S = item_overhead T"
    "pending_deletion S = pending_deletion T"
    "pending_deletion_skipped_count S = pending_deletion_skipped_count T"
    "ml_retired S = ml_retired T" "ml_index S = ml_index T" "cached_now_ns S = cached_now_ns T"
    "now_sec S = now_sec T" "now_ns S = now_ns T" "update_mutex_busy S = update_mutex_busy T"
  using assms by (cases S; cases T; simp add: core_def)+

lemma tail_flag_eqD:
  assumes "i\<lparr>it_tail := b\<rparr> = j\<lparr>it_tail := b\<rparr>"
  shows "it_key i = it_key j" "it_value i = it_value j" "it_update_time i = it_update_time j"
    "it_accessed i = it_accessed j" "it_queue_id i = it_queue_id j"
    "it_expiry_ns i = it_expiry_ns j" "it_refcount i = it_refcount j"
  using assms by (cases i; cases j; simp)+

lemma core_store: "core S = core T \<Longrightarrow> (ml_store S a)\<lparr>it_tail := False\<rparr> = (ml_store T a)\<lparr>it_tail := False\<rparr>"
  by (drule arg_cong [of _ _ "\<lambda>S. ml_store S a"]) (simp add: core_def)

lemmas core_itemD = tail_flag_eqD [OF core_store]

lemma core_status:
  assumes "core S = core T"
  shows "is_in_container (ml_store S a) = is_in_container (ml_store T a)"
    "has_active_handle (ml_store S a) = has_active_handle (ml_store T a)"
    "unclaimed (ml_store S a) = unclaimed (ml_store T a)"
  using core_itemD [OF assms] by (simp_all add: is_in_container_def has_active_handle_def unclaimed_def)

lemmas update_frame [simp] = core_eqD [OF core_update] core_itemD [OF core_update] core_status [OF core_update]
lemmas ensure_frame [simp] = core_eqD [OF core_ensure] core_itemD [OF core_ensure] core_status [OF core_ensure]
lemmas leave_frame [simp] = core_eqD [OF core_leave] core_itemD [OF core_leave] core_status [OF core_leave]

lemma cleanup_loop_eq:
  "\<exists>ev rt pd. cleanup_loop as S = S\<lparr>ml_events := ev, ml_retired := rt, pending_deletion := pd\<rparr>"
proof (induction as S rule: cleanup_loop.induct)
  case (1 S)
  then show ?case
    by (intro exI [of _ "ml_events S"] exI [of _ "ml_retired S"] exI [of _ "pending_deletion S"]) simp
next
  case (2 a as S)
  show ?case
  proof (cases "has_active_handle (item S a)")
    case True
    with 2(2) show ?thesis by simp
  next
    case False
    from 2(1) [OF False refl refl refl] False show ?thesis
      by (simp add: Let_def) (simp add: report_def retire_item_def)
  qed
qed


lemma cleanup_frame [simp]:
  "ml_store (cleanup_pending_deletion S) = ml_store S"
  "ml_fresh (cleanup_pending_deletion S) = ml_fresh S"
  "ml_items (cleanup_pending_deletion S) = ml_items S"
  "ml_map (cleanup_pending_deletion S) = ml_map S"
  "ml_max_size (cleanup_pending_deletion S) = ml_max_size S"
  "ml_max_memory (cleanup_pending_deletion S) = ml_max_memory S"
  "ml_config (cleanup_pending_deletion S) = ml_config S"
  "insertion_point (cleanup_pending_deletion S) = insertion_point S"
  "tail_size (cleanup_pending_deletion S) = tail_size S"
  "insertion_point_pos (cleanup_pending_deletion S) = insertion_point_pos S"
  "unpinned_tail (cleanup_pending_deletion S) = unpinned_tail S"
  "lru_refresh_time (cleanup_pending_deletion S) = lru_refresh_time S"
  "next_reconfigure_time (cleanup_pending_deletion S) = next_reconfigure_time S"
  "ml_stats (cleanup_pending_deletion S) = ml_stats S"
  "has_eviction_callbacks (cleanup_pending_deletion S) = has_eviction_callbacks S"
  "key_size_fn (cleanup_pending_deletion S) = key_size_fn S"
  "value_size_fn (cleanup_pending_deletion S) = value_size_fn S"
  "eviction_predicate (cleanup_pending_deletion S) = eviction_predicate S"
  "item_overhead (cleanup_pending_deletion S) = item_overhead S"
  "pending_deletion_skipped_count (cleanup_pending_deletion S) = pending_deletion_skipped_count S"
  "ml_index (cleanup_pending_deletion S) = ml_index S"
  "cached_now_ns (cleanup_pending_deletion S) = cached_now_ns S"
  "now_sec (cleanup_pending_deletion S) = now_sec S"
  "now_ns (cleanup_pending_deletion S) = now_ns S"
  "update_mutex_busy (cleanup_pending_deletion S) = update_mutex_busy S"
  using cleanup_loop_eq [of "pending_deletion S" S] unfolding cleanup_pending_deletion_def by auto

lemma find_eviction_victim_frame:
  assumes "find_eviction_victim S = (v, T)"
  shows "\<exists>st u. T = S\<lparr>ml_stats := st, unpinned_tail := u\<rparr>"
proof (cases "scan_start S")
  case None
  with assms show ?thesis
    by (intro exI [of _ "ml_stats S"] exI [of _ "unpinned_tail S"]) (simp add: find_eviction_victim_def)
next
  case (Some c)
  obtain w steps pinned fu where
    "victim_scan S (c # preds c (ml_items S)) 0 0 0 None = (w, steps, pinned, fu)" by (metis prod_cases4)
  with assms Some show ?thesis
    by (auto simp: find_eviction_victim_def on_stats_def Let_def simp del: victim_scan.simps)
qed

lemma length_remove_from_list: "length (ml_items (remove_from_list a S)) \<le> length (ml_items S)"
  by (simp add: remove_from_list_def on_item_def list_remove_def Let_def length_remove1)

lemma length_evict_lru: "length (ml_items (evict_lru S)) \<le> length (ml_items S)"
proof -
  obtain v T where f: "find_eviction_victim (cleanup_pending_deletion S) = (v, T)" by fastforce
  then obtain st u where T: "T = (cleanup_pending_deletion S)\<lparr>ml_stats := st, unpinned_tail := u\<rparr>"
    using find_eviction_victim_frame by blast
  have *: "length (ml_items (remove_from_list a U)) \<le> length (ml_items S)"
    if "ml_items U = ml_items S" for a U
    using length_remove_from_list [of a U] that by simp
  show ?thesis
    unfolding evict_lru_def
    by (auto simp: f T store_size_def on_stats_def on_item_def report_def map_erase_def retire_item_def
        Let_def intro!: * split: option.splits)
qed

section \<open>Capacity\<close>

function shrink_to_fit :: "('k, 'v) mm_lru \<Rightarrow> ('k, 'v) mm_lru" where
  "shrink_to_fit S =
     (if should_evict S
      then let T = evict_lru S in if size_of T = size_of S then T else shrink_to_fit T
      else S)"
  by auto

termination
proof (relation "measure (\<lambda>S. length (ml_items S))")
  fix S T :: "('k, 'v) mm_lru"
  assume "T = evict_lru S" "size_of T \<noteq> size_of S"
  then show "(T, S) \<in> measure (\<lambda>S. length (ml_items S))"
    using length_evict_lru [of S] by (simp add: size_of_def list_size_def)
qed simp

declare shrink_to_fit.simps [simp del]

end
