(* ===== verification/Mm_Lru_Ops.thy ===== *)
theory Mm_Lru_Ops
  imports Mm_Lru
begin

unbundle bit_operations_syntax

text \<open>
  The public operations of \<^verbatim>\<open>mm_lru\<close> of \<^verbatim>\<open>src/mm.hpp\<close> over the state and the internal helpers
  of theory \<open>Mm_Lru\<close>: capacity setters, insertion and update, reads and handles,
  deletion, TTL hooks and sweeps, flush, construction and configuration, queries,
  \<^verbatim>\<open>replace_node\<close> and the rebuild from a serialized image. An operation that returns a
  value yields the pair of the value and the state after it.
\<close>

section \<open>Capacity\<close>

definition set_max_size :: "nat \<Rightarrow> ('k, 'v) mm_lru \<Rightarrow> ('k, 'v) mm_lru" where
  "set_max_size new_max S =
     (let S = on_stats (\<lambda>st. st\<lparr>st_max_size := new_max\<rparr>) (S\<lparr>ml_max_size := new_max\<rparr>)
      in if new_max \<noteq> unlimited then shrink_to_fit S else S)"

definition set_max_memory :: "nat \<Rightarrow> ('k, 'v) mm_lru \<Rightarrow> ('k, 'v) mm_lru" where
  "set_max_memory new_max S =
     (let S = on_stats (\<lambda>st. st\<lparr>st_max_memory := new_max\<rparr>) (S\<lparr>ml_max_memory := new_max\<rparr>)
      in if new_max \<noteq> unlimited then shrink_to_fit S else S)"

text \<open>
  The two eviction loops of \<^verbatim>\<open>insert_new\<close>. Both give up when an eviction did not shrink the
  list; only the first counts the failure. The flag says that the insertion goes on.
\<close>

function make_room :: "('k, 'v) mm_lru \<Rightarrow> bool \<times> ('k, 'v) mm_lru" where
  "make_room S =
     (if should_evict S
      then let T = evict_lru S in
        if size_of T = size_of S
        then (False, on_stats (\<lambda>st. st\<lparr>eviction_failed := eviction_failed st + 1\<rparr>) T)
        else make_room T
      else (True, S))"
  by auto

termination
proof (relation "measure (\<lambda>S. length (ml_items S))")
  fix S T :: "('k, 'v) mm_lru"
  assume "T = evict_lru S" "size_of T \<noteq> size_of S"
  then show "(T, S) \<in> measure (\<lambda>S. length (ml_items S))"
    using length_evict_lru [of S] by (simp add: size_of_def list_size_def)
qed simp

declare make_room.simps [simp del]

function make_memory_room :: "u64 \<Rightarrow> ('k, 'v) mm_lru \<Rightarrow> bool \<times> ('k, 'v) mm_lru" where
  "make_memory_room mem S =
     (if ml_items S \<noteq> [] \<and> unat (current_memory (ml_stats S) + mem) > ml_max_memory S
      then let T = evict_lru S in
        if size_of T = size_of S then (False, T) else make_memory_room mem T
      else (True, S))"
  by auto

termination
proof (relation "measure (\<lambda>(mem, S). length (ml_items S))")
  fix S T :: "('k, 'v) mm_lru" and mem :: u64
  assume "T = evict_lru S" "size_of T \<noteq> size_of S"
  then show "((mem, T), mem, S) \<in> measure (\<lambda>(mem, S). length (ml_items S))"
    using length_evict_lru [of S] by (simp add: size_of_def list_size_def)
qed simp

declare make_memory_room.simps [simp del]

section \<open>The TTL hooks\<close>

definition erase_as ::
  "(('k, 'v) cache_item \<Rightarrow> ('k, 'v) mm_lru \<Rightarrow> ('k, 'v) mm_lru) \<Rightarrow> 'k \<Rightarrow> ('k, 'v) mm_lru \<Rightarrow> ('k, 'v) mm_lru" where
  "erase_as tell key S =
     (case ml_map S key of
        None \<Rightarrow> S
      | Some a \<Rightarrow>
          if has_active_handle (item S a) then S
          else
            let S = on_stats (memory_sub (item_memory S a)) S;
                S = tell (item S a) S;
                S = map_erase key S;
                S = remove_from_list a S;
                S = S\<lparr>unpinned_tail := None\<rparr>;
                S = retire_item a S
            in store_size S)"

text \<open>\<^verbatim>\<open>erase_impl\<close> and \<^verbatim>\<open>erase_expired_impl\<close> differ in what they count and report.\<close>

definition erase_impl :: "'k \<Rightarrow> ('k, 'v) mm_lru \<Rightarrow> ('k, 'v) mm_lru" where
  "erase_impl = erase_as (\<lambda>i. report (On_evict (it_key i) (it_value i)))"

definition erase_expired_impl :: "'k \<Rightarrow> ('k, 'v) mm_lru \<Rightarrow> ('k, 'v) mm_lru" where
  "erase_expired_impl =
     erase_as (\<lambda>i S. report (On_expire (it_key i) (it_value i))
       (on_stats (\<lambda>st. st\<lparr>ttl_expired_count := ttl_expired_count st + 1,
                          evictions_ttl := evictions_ttl st + 1\<rparr>) S))"

definition lru_ttl_probe_entry :: "'k \<Rightarrow> u64 \<Rightarrow> ('k, 'v) mm_lru \<Rightarrow> probe_result" where
  "lru_ttl_probe_entry key heap_expiry S =
     (case ml_map S key of
        None \<Rightarrow> Absent
      | Some a \<Rightarrow>
          if it_expiry_ns (item S a) \<noteq> heap_expiry then Stale
          else if has_active_handle (item S a) then Pinned
          else Ready)"

definition lru_ttl_for_each_live :: "('k, 'v) mm_lru \<Rightarrow> ('k \<times> u64) list" where
  "lru_ttl_for_each_live S =
     map (\<lambda>a. (it_key (item S a), it_expiry_ns (item S a)))
       (filter (\<lambda>a. it_expiry_ns (item S a) \<noteq> 0) (ml_items S))"

definition lru_ttl :: "('k, ('k, 'v) mm_lru) ttl_strategy" where
  "lru_ttl =
     \<lparr>ttl_probe_entry = lru_ttl_probe_entry, ttl_erase_expired = erase_expired_impl,
      ttl_live_count = list_size, ttl_for_each_live = lru_ttl_for_each_live\<rparr>"

definition ttl_heap_push :: "'k \<Rightarrow> u64 \<Rightarrow> ('k, 'v) mm_lru \<Rightarrow> ('k, 'v) mm_lru" where
  "ttl_heap_push key expiry S = S\<lparr>ml_index := ttl_index_push lru_ttl S key expiry (ml_index S)\<rparr>"

definition ttl_heap_rebuild :: "('k, 'v) mm_lru \<Rightarrow> ('k, 'v) mm_lru" where
  "ttl_heap_rebuild S = S\<lparr>ml_index := ttl_index_rebuild lru_ttl S (ml_index S)\<rparr>"

definition with_index :: "nat \<times> 'k ttl_heap \<times> ('k, 'v) mm_lru \<Rightarrow> nat \<times> ('k, 'v) mm_lru" where
  "with_index r = (case r of (n, H, S) \<Rightarrow> (n, S\<lparr>ml_index := H\<rparr>))"

definition lru_evict_expired :: "('k, 'v) mm_lru \<Rightarrow> nat \<times> ('k, 'v) mm_lru" where
  "lru_evict_expired S =
     (let S = cleanup_pending_deletion S in with_index (evict_expired lru_ttl (now_ns S) (ml_index S) S))"

definition lru_evict_expired_n :: "nat \<Rightarrow> ('k, 'v) mm_lru \<Rightarrow> nat \<times> ('k, 'v) mm_lru" where
  "lru_evict_expired_n batch_size S =
     (if batch_size = 0 then lru_evict_expired S
      else let S = cleanup_pending_deletion S
           in with_index (evict_expired_n lru_ttl (now_ns S) batch_size (ml_index S) S))"

section \<open>Insertion and update\<close>

definition allocate_item :: "'k \<Rightarrow> 'v \<Rightarrow> ('k, 'v) mm_lru \<Rightarrow> addr \<times> ('k, 'v) mm_lru" where
  "allocate_item k v S =
     (ml_fresh S, S\<lparr>ml_store := (ml_store S)(ml_fresh S := new_item k v), ml_fresh := ml_fresh S + 1\<rparr>)"

text \<open>\<^verbatim>\<open>insert\<close> of the hash table keeps an existing entry.\<close>

definition map_insert :: "'k \<Rightarrow> addr \<Rightarrow> ('k, 'v) mm_lru \<Rightarrow> ('k, 'v) mm_lru" where
  "map_insert k a S = (if ml_map S k = None then S\<lparr>ml_map := (ml_map S)(k := Some a)\<rparr> else S)"

definition link_new :: "addr \<Rightarrow> ('k, 'v) mm_lru \<Rightarrow> ('k, 'v) mm_lru" where
  "link_new a S =
     (if lru_insertion_point_spec (ml_config S) = 0 then list_link_at_head a S
      else case insertion_point S of
        None \<Rightarrow> list_link_at_head a S
      | Some p \<Rightarrow> list_insert_before p a S)"

text \<open>\<open>insert_item\<close> is the part of \<^verbatim>\<open>insert_new\<close> after room was made.\<close>

definition insert_item :: "'k \<Rightarrow> 'v \<Rightarrow> u64 \<Rightarrow> u64 \<Rightarrow> ('k, 'v) mm_lru \<Rightarrow> ('k, 'v) mm_lru" where
  "insert_item key value expiry mem S =
     (let (a, S) = allocate_item key value S;
          S = on_item a (\<lambda>i. i\<lparr>it_update_time := now_sec S, it_accessed := False\<rparr>) S;
          S = (if expiry \<noteq> 0 then on_item a (\<lambda>i. i\<lparr>it_expiry_ns := expiry\<rparr>) S else S);
          S = link_new a S;
          S = on_item a (refcount_step markInMMContainer_try) S;
          S = map_insert key a S;
          S = (if expiry \<noteq> 0 then ttl_heap_push key expiry S else S);
          S = store_size S;
          S = on_stats (memory_add mem) S;
          S = on_stats register_insertion S;
          S = report (On_insert key (it_value (item S a))) S
      in update_lru_insertion_point S)"

definition insert_new :: "'k \<Rightarrow> 'v \<Rightarrow> u64 \<Rightarrow> ('k, 'v) mm_lru \<Rightarrow> ('k, 'v) mm_lru" where
  "insert_new key value expiry S =
     (if ml_max_size S = 0 \<or> ml_max_memory S = 0 then S
      else
        let S = cleanup_pending_deletion S;
            S = (if ml_max_size S \<noteq> unlimited \<and> size_of S \<ge> ml_max_size S then evict_lru S else S)
        in if ml_max_size S \<noteq> unlimited \<and> size_of S \<ge> ml_max_size S
           then on_stats (\<lambda>st. st\<lparr>eviction_failed := eviction_failed st + 1\<rparr>) S
           else
             let (go, S) = make_room S in
             if \<not> go then S
             else
               let mem = calc_item_memory S key value;
                   (go, S) = (if ml_max_memory S \<noteq> unlimited then make_memory_room mem S else (True, S))
               in if \<not> go then S else insert_item key value expiry mem S)"

definition update_existing :: "addr \<Rightarrow> 'v \<Rightarrow> access_mode \<Rightarrow> ('k, 'v) mm_lru \<Rightarrow> ('k, 'v) mm_lru" where
  "update_existing a value mode S =
     (let old_mem = item_memory S a;
          S = on_item a (\<lambda>i. i\<lparr>it_value := value\<rparr>) S;
          (_, S) = record_access_at a mode (now_sec S) S;
          new_mem = item_memory S a;
          S = (if new_mem > old_mem then on_stats (memory_add (new_mem - old_mem)) S
               else if new_mem < old_mem then on_stats (memory_sub (old_mem - new_mem)) S
               else S);
          S = (if should_evict S then shrink_to_fit S else S)
      in report (On_update (it_key (item S a)) (it_value (item S a))) S)"

section \<open>The cache interface\<close>

definition lru_set :: "'k \<Rightarrow> 'v \<Rightarrow> ('k, 'v) mm_lru \<Rightarrow> ('k, 'v) mm_lru" where
  "lru_set key value S =
     (case ml_map S key of
        None \<Rightarrow> insert_new key value 0 S
      | Some a \<Rightarrow> update_existing a value Write_access S)"

definition set_with_expiry :: "'k \<Rightarrow> 'v \<Rightarrow> u64 \<Rightarrow> ('k, 'v) mm_lru \<Rightarrow> ('k, 'v) mm_lru" where
  "set_with_expiry key value expiry S =
     (case ml_map S key of
        None \<Rightarrow> insert_new key value expiry S
      | Some a \<Rightarrow>
          let S = update_existing a value Write_access S;
              S = on_item a (\<lambda>i. i\<lparr>it_expiry_ns := expiry\<rparr>) S
          in if expiry \<noteq> 0 then ttl_heap_push key expiry S else S)"

definition ttl_remaining_ns :: "'k \<Rightarrow> ('k, 'v) mm_lru \<Rightarrow> u64 option" where
  "ttl_remaining_ns key S =
     (case ml_map S key of
        None \<Rightarrow> None
      | Some a \<Rightarrow>
          let e = it_expiry_ns (item S a) in
          if e = 0 then None else if now_ns S \<ge> e then None else Some (e - now_ns S))"

definition refresh_cached_now :: "('k, 'v) mm_lru \<Rightarrow> ('k, 'v) mm_lru" where
  "refresh_cached_now S = S\<lparr>cached_now_ns := now_ns S\<rparr>"

definition lru_add :: "'k \<Rightarrow> 'v \<Rightarrow> ('k, 'v) mm_lru \<Rightarrow> bool \<times> ('k, 'v) mm_lru" where
  "lru_add key value S =
     (case ml_map S key of
        None \<Rightarrow> (True, insert_new key value 0 S)
      | Some a \<Rightarrow> (False, snd (record_access a Read_access S)))"

definition lru_replace :: "'k \<Rightarrow> 'v \<Rightarrow> ('k, 'v) mm_lru \<Rightarrow> bool \<times> ('k, 'v) mm_lru" where
  "lru_replace key value S =
     (let S = cleanup_pending_deletion S in
      case ml_map S key of
        None \<Rightarrow> (False, S)
      | Some a \<Rightarrow> (True, update_existing a value Write_access S))"

text \<open>
  A read handle is the address of the item it pins, \<open>None\<close> if it is empty. Its constructor
  increments the count and yields an empty handle when that fails; its release decrements.
\<close>

definition make_handle :: "addr \<Rightarrow> ('k, 'v) mm_lru \<Rightarrow> addr option \<times> ('k, 'v) mm_lru" where
  "make_handle a S =
     (if fst (on_refcount incRef_try (item S a)) = kIncOk
      then (Some a, on_item a (refcount_step incRef_try) S) else (None, S))"

definition release_handle :: "addr \<Rightarrow> ('k, 'v) mm_lru \<Rightarrow> ('k, 'v) mm_lru" where
  "release_handle a S = on_item a (refcount_step decRef_try) S"

definition note_miss :: "'k \<Rightarrow> ('k, 'v) mm_lru \<Rightarrow> ('k, 'v) mm_lru" where
  "note_miss key S = report (On_miss key) (on_stats register_miss S)"

definition note_hit :: "'k \<Rightarrow> addr \<Rightarrow> ('k, 'v) mm_lru \<Rightarrow> ('k, 'v) mm_lru" where
  "note_hit key a S = report (On_hit key (it_value (item S a))) (on_stats register_hit S)"

definition lru_get :: "'k \<Rightarrow> ('k, 'v) mm_lru \<Rightarrow> addr option \<times> ('k, 'v) mm_lru" where
  "lru_get key S =
     (case ml_map S key of
        None \<Rightarrow> (None, note_miss key S)
      | Some a \<Rightarrow> make_handle a (note_hit key a (snd (record_access a Read_access S))))"

definition lru_get_const :: "'k \<Rightarrow> ('k, 'v) mm_lru \<Rightarrow> addr option \<times> ('k, 'v) mm_lru" where
  "lru_get_const key S =
     (case ml_map S key of
        None \<Rightarrow> (None, note_miss key S)
      | Some a \<Rightarrow> make_handle a (note_hit key a S))"

definition lru_peek :: "'k \<Rightarrow> ('k, 'v) mm_lru \<Rightarrow> addr option \<times> ('k, 'v) mm_lru" where
  "lru_peek key S = (case ml_map S key of None \<Rightarrow> (None, S) | Some a \<Rightarrow> make_handle a S)"

text \<open>The shared expiry check; \<open>True\<close> means expired.\<close>

definition check_expiry :: "addr \<Rightarrow> 'k \<Rightarrow> bool \<Rightarrow> ('k, 'v) mm_lru \<Rightarrow> bool \<times> ('k, 'v) mm_lru" where
  "check_expiry a key ttl_held_ref S =
     (if it_expiry_ns (item S a) = 0 then (False, S)
      else
        let S = on_stats (\<lambda>st. st\<lparr>ttl_checked_count := ttl_checked_count st + 1\<rparr>) S in
        if now_ns S < it_expiry_ns (item S a) then (False, S)
        else
          let S = on_stats (\<lambda>st. st\<lparr>ttl_expired_count := ttl_expired_count st + 1,
                                   evictions_ttl := evictions_ttl st + 1\<rparr>) S;
              S = (if ttl_held_ref then release_handle a S else S)
          in (True, note_miss key S))"

definition peek_for_get :: "'k \<Rightarrow> ('k, 'v) mm_lru \<Rightarrow> addr option \<times> ('k, 'v) mm_lru" where
  "peek_for_get key S =
     (case lru_peek key S of
        (None, S) \<Rightarrow> (None, S)
      | (Some a, S) \<Rightarrow>
          if it_expiry_ns (item S a) \<noteq> 0
          then let (expired, S) = check_expiry a key True S in
            if expired then (None, S) else (Some a, S\<lparr>cached_now_ns := now_ns S\<rparr>)
          else (Some a, S))"

definition get_shared :: "'k \<Rightarrow> ('k, 'v) mm_lru \<Rightarrow> 'v option \<times> ('k, 'v) mm_lru" where
  "get_shared key S =
     (case ml_map S key of
        None \<Rightarrow> (None, note_miss key S)
      | Some a \<Rightarrow> (Some (it_value (item S a)), note_hit key a S))"

definition lru_contains :: "'k \<Rightarrow> ('k, 'v) mm_lru \<Rightarrow> bool \<times> ('k, 'v) mm_lru" where
  "lru_contains key S =
     (case ml_map S key of
        None \<Rightarrow> (False, S)
      | Some a \<Rightarrow> let (expired, S) = check_expiry a key False S in (\<not> expired, S))"

definition lru_del :: "'k \<Rightarrow> ('k, 'v) mm_lru \<Rightarrow> bool \<times> ('k, 'v) mm_lru" where
  "lru_del key S =
     (let S = cleanup_pending_deletion S in
      case ml_map S key of
        None \<Rightarrow> (False, S)
      | Some a \<Rightarrow> if has_active_handle (item S a) then (False, S) else (True, erase_impl key S))"

definition peek_lru_tail_key :: "('k, 'v) mm_lru \<Rightarrow> 'k option" where
  "peek_lru_tail_key S = map_option (\<lambda>a. it_key (item S a)) (list_tail S)"

definition force_del :: "'k \<Rightarrow> ('k, 'v) mm_lru \<Rightarrow> bool \<times> ('k, 'v) mm_lru" where
  "force_del key S =
     (let S = cleanup_pending_deletion S in
      case ml_map S key of
        None \<Rightarrow> (False, S)
      | Some a \<Rightarrow>
          if has_active_handle (item S a) \<and> pending_deletion_at_cap S
          then (False, S\<lparr>pending_deletion_skipped_count := pending_deletion_skipped_count S + 1\<rparr>)
          else
            let mem = item_memory S a;
                S = map_erase key S;
                S = remove_from_list a S;
                S = S\<lparr>unpinned_tail := None\<rparr>;
                S = on_stats (memory_sub mem) S;
                S = store_size S;
                S = (if \<not> has_active_handle (item S a)
                     then retire_item a (report (On_evict (it_key (item S a)) (it_value (item S a))) S)
                     else S\<lparr>pending_deletion := pending_deletion S @ [a]\<rparr>)
            in (True, S))"

text \<open>What \<^verbatim>\<open>pop\<close> and \<^verbatim>\<open>pop_lru\<close> do to the item they take out.\<close>

definition take_out :: "addr \<Rightarrow> ('k, 'v) mm_lru \<Rightarrow> ('k, 'v) mm_lru" where
  "take_out a S =
     (let key = it_key (item S a);
          S = on_stats (memory_sub (item_memory S a)) S;
          S = remove_from_list a S;
          S = S\<lparr>unpinned_tail := None\<rparr>;
          S = map_erase key S;
          S = retire_item a S
      in store_size S)"

definition lru_pop :: "'k \<Rightarrow> ('k, 'v) mm_lru \<Rightarrow> 'v option \<times> ('k, 'v) mm_lru" where
  "lru_pop key S =
     (let S = cleanup_pending_deletion S in
      case ml_map S key of
        None \<Rightarrow> (None, S)
      | Some a \<Rightarrow>
          if has_active_handle (item S a) then (None, S)
          else (Some (it_value (item S a)), take_out a S))"

definition pop_lru :: "('k, 'v) mm_lru \<Rightarrow> ('k \<times> 'v) option \<times> ('k, 'v) mm_lru" where
  "pop_lru S =
     (let S = cleanup_pending_deletion S in
      case list_tail S of
        None \<Rightarrow> (None, S)
      | Some a \<Rightarrow>
          if has_active_handle (item S a) then (None, S)
          else if ml_map S (it_key (item S a)) = None then (None, S)
          else (Some (it_key (item S a), it_value (item S a)), take_out a S))"

definition lru_promote :: "'k \<Rightarrow> ('k, 'v) mm_lru \<Rightarrow> bool \<times> ('k, 'v) mm_lru" where
  "lru_promote key S =
     (case ml_map S key of None \<Rightarrow> (False, S) | Some a \<Rightarrow> record_access a Read_access S)"

section \<open>Flush\<close>

text \<open>Pass 1 of \<^verbatim>\<open>flush\<close> over the nodes from head to tail, with the list of items to retire.\<close>

fun flush_pass :: "addr list \<Rightarrow> addr list \<Rightarrow> ('k, 'v) mm_lru \<Rightarrow> addr list \<times> ('k, 'v) mm_lru" where
  "flush_pass [] to_retire S = (to_retire, S)"
| "flush_pass (a # as) to_retire S =
     (if \<not> has_active_handle (item S a)
      then if fst (on_refcount markForEviction_try (item S a)) \<noteq> kSuccess
           then flush_pass as to_retire S
           else
             let S = on_item a (refcount_step markForEviction_try) S;
                 S = on_stats (memory_sub (item_memory S a)) S;
                 S = report (On_evict (it_key (item S a)) (it_value (item S a))) S;
                 S = map_erase (it_key (item S a)) S;
                 S = remove_from_list a S;
                 S = on_item a (refcount_step unmarkForEviction_try) S
             in flush_pass as (to_retire @ [a]) S
      else flush_pass as to_retire (on_item a (\<lambda>i. i\<lparr>it_tail := False\<rparr>) S))"

definition lru_flush :: "('k, 'v) mm_lru \<Rightarrow> ('k, 'v) mm_lru" where
  "lru_flush S =
     (let (to_retire, S) = flush_pass (ml_items S) [] S;
          S = fold retire_item to_retire S;
          S = S\<lparr>insertion_point := None, unpinned_tail := None, tail_size := 0,
                insertion_point_pos := unlimited\<rparr>;
          S = store_size S
      in cleanup_pending_deletion S)"

section \<open>Construction and configuration\<close>

text \<open>
  What ends an operation early: an invalid argument is thrown, a null pointer is
  dereferenced.
\<close>

datatype lru_error = Invalid_argument | Null_dereference

definition reconfigure_time :: "u32 \<Rightarrow> mm_lru_config \<Rightarrow> u32" where
  "reconfigure_time now_s c =
     (if mm_reconfigure_interval_secs c = 0 then - 1 else now_s + mm_reconfigure_interval_secs c)"

text \<open>
  The constructors. The clocks, the size of an item and whether eviction callbacks exist
  come from outside.
\<close>

definition mm_lru_new ::
  "u32 \<Rightarrow> u64 \<Rightarrow> u64 \<Rightarrow> bool \<Rightarrow> mm_lru_config \<Rightarrow> lru_error + ('k, 'v) mm_lru" where
  "mm_lru_new now_s now_n overhead callbacks c =
     (if \<not> validate c then Inl Invalid_argument
      else Inr \<lparr>ml_store = (\<lambda>_. new_item undefined undefined), ml_fresh = 0, ml_items = [],
        ml_map = Map.empty, ml_max_size = unlimited, ml_max_memory = unlimited, ml_config = c,
        insertion_point = None, tail_size = 0, insertion_point_pos = unlimited, unpinned_tail = None,
        lru_refresh_time = default_lru_refresh_time c, next_reconfigure_time = reconfigure_time now_s c,
        ml_stats = new_stats, ml_events = [], has_eviction_callbacks = callbacks,
        key_size_fn = None, value_size_fn = None, eviction_predicate = None, item_overhead = overhead,
        pending_deletion = [], pending_deletion_skipped_count = 0, ml_retired = [], ml_index = th_new,
        cached_now_ns = 0, now_sec = now_s, now_ns = now_n, update_mutex_busy = False\<rparr>)"

definition mm_lru_sized ::
  "u32 \<Rightarrow> u64 \<Rightarrow> u64 \<Rightarrow> bool \<Rightarrow> nat \<Rightarrow> mm_lru_config \<Rightarrow> lru_error + ('k, 'v) mm_lru" where
  "mm_lru_sized now_s now_n overhead callbacks max_sz c =
     (case mm_lru_new now_s now_n overhead callbacks c of
        Inl e \<Rightarrow> Inl e
      | Inr S \<Rightarrow>
          if \<not> validate_capacity max_sz unlimited then Inl Invalid_argument
          else Inr (on_stats (\<lambda>st. st\<lparr>st_max_size := max_sz\<rparr>) (S\<lparr>ml_max_size := max_sz\<rparr>)))"

definition mm_lru_bounded ::
  "u32 \<Rightarrow> u64 \<Rightarrow> u64 \<Rightarrow> bool \<Rightarrow> nat \<Rightarrow> nat \<Rightarrow> mm_lru_config \<Rightarrow> lru_error + ('k, 'v) mm_lru" where
  "mm_lru_bounded now_s now_n overhead callbacks max_sz max_mem c =
     (case mm_lru_new now_s now_n overhead callbacks c of
        Inl e \<Rightarrow> Inl e
      | Inr S \<Rightarrow>
          if \<not> validate_capacity max_sz max_mem then Inl Invalid_argument
          else Inr (on_stats (\<lambda>st. st\<lparr>st_max_size := max_sz, st_max_memory := max_mem\<rparr>)
                     (S\<lparr>ml_max_size := max_sz, ml_max_memory := max_mem\<rparr>)))"

text \<open>
  The loop of \<^verbatim>\<open>set_config\<close> that drops the tail section, over the nodes from the insertion
  point to the end of the list. It stops when the count is 0 and not at the end.
\<close>

fun drop_tail_section :: "addr list \<Rightarrow> ('k, 'v) mm_lru \<Rightarrow> lru_error + ('k, 'v) mm_lru" where
  "drop_tail_section [] S = (if tail_size S = 0 then Inr S else Inl Null_dereference)"
| "drop_tail_section (a # as) S =
     (if tail_size S = 0 then Inr S
      else drop_tail_section as
             ((on_item a (\<lambda>i. i\<lparr>it_tail := False\<rparr>) S)\<lparr>tail_size := tail_size S - 1\<rparr>))"

definition apply_config :: "mm_lru_config \<Rightarrow> ('k, 'v) mm_lru \<Rightarrow> ('k, 'v) mm_lru" where
  "apply_config c S =
     (let S = (if lru_insertion_point_spec c \<noteq> 0 \<and> ml_items S \<noteq> [] then update_lru_insertion_point S else S)
      in S\<lparr>lru_refresh_time := default_lru_refresh_time c,
           next_reconfigure_time := reconfigure_time (now_sec S) c\<rparr>)"

definition set_config :: "mm_lru_config \<Rightarrow> ('k, 'v) mm_lru \<Rightarrow> lru_error + ('k, 'v) mm_lru" where
  "set_config c S =
     (if \<not> validate c then Inl Invalid_argument
      else
        let S = S\<lparr>ml_config := c\<rparr> in
        case insertion_point S of
          Some p \<Rightarrow>
            if lru_insertion_point_spec c = 0
            then (case drop_tail_section (p # succs p (ml_items S)) S of
                    Inl e \<Rightarrow> Inl e
                  | Inr S \<Rightarrow> Inr (apply_config c (S\<lparr>insertion_point := None\<rparr>)))
            else Inr (apply_config c S)
        | None \<Rightarrow> Inr (apply_config c S))"

definition set_eviction_predicate :: "('k \<Rightarrow> 'v \<Rightarrow> bool) \<Rightarrow> ('k, 'v) mm_lru \<Rightarrow> ('k, 'v) mm_lru" where
  "set_eviction_predicate pred S = S\<lparr>eviction_predicate := Some pred\<rparr>"

definition set_key_size_calculator :: "('k \<Rightarrow> u64) \<Rightarrow> ('k, 'v) mm_lru \<Rightarrow> ('k, 'v) mm_lru" where
  "set_key_size_calculator f S = S\<lparr>key_size_fn := Some f\<rparr>"

definition set_value_size_calculator :: "('v \<Rightarrow> u64) \<Rightarrow> ('k, 'v) mm_lru \<Rightarrow> ('k, 'v) mm_lru" where
  "set_value_size_calculator f S = S\<lparr>value_size_fn := Some f\<rparr>"

section \<open>Queries\<close>

definition has_active_handles :: "('k, 'v) mm_lru \<Rightarrow> bool" where
  "has_active_handles S \<longleftrightarrow>
     list_ex (\<lambda>a. has_active_handle (item S a)) (ml_items S) \<or>
     list_ex (\<lambda>a. has_active_handle (item S a)) (pending_deletion S)"

fun walk_back :: "nat \<Rightarrow> addr option \<Rightarrow> ('k, 'v) mm_lru \<Rightarrow> addr option" where
  "walk_back n None S = None"
| "walk_back 0 (Some a) S = Some a"
| "walk_back (Suc n) (Some a) S = walk_back n (list_get_prev S a) S"

record eviction_age_stat =
  stat_oldest_element_age :: u64
  stat_projected_age :: u64

definition get_eviction_age_stat :: "nat \<Rightarrow> ('k, 'v) mm_lru \<Rightarrow> eviction_age_stat" where
  "get_eviction_age_stat projected_length S =
     (let age = (\<lambda>a. ucast (now_sec S - it_update_time (item S a)));
          oldest = (case list_tail S of None \<Rightarrow> 0 | Some t \<Rightarrow> age t)
      in \<lparr>stat_oldest_element_age = oldest,
          stat_projected_age =
            (case walk_back projected_length (list_tail S) S of None \<Rightarrow> oldest | Some a \<Rightarrow> age a)\<rparr>)"

definition tail_age :: "('k, 'v) mm_lru \<Rightarrow> u32 option" where
  "tail_age S = map_option (\<lambda>t. now_sec S - it_update_time (item S t)) (list_tail S)"

text \<open>The lock-holding iterator is the node it is at; it walks from the tail to the head.\<close>

definition iterator_begin :: "('k, 'v) mm_lru \<Rightarrow> addr option" where
  "iterator_begin S = list_tail S"

definition iterator_next :: "addr option \<Rightarrow> ('k, 'v) mm_lru \<Rightarrow> bool \<times> addr option" where
  "iterator_next c S =
     (case c of
        None \<Rightarrow> (False, None)
      | Some a \<Rightarrow> (let c' = list_get_prev S a in (c' \<noteq> None, c')))"

definition contents :: "('k, 'v) mm_lru \<Rightarrow> ('k \<times> 'v) list" where
  "contents S = map (\<lambda>a. (it_key (item S a), it_value (item S a))) (ml_items S)"

definition lru_equal :: "('k, 'v) mm_lru \<Rightarrow> ('k, 'v) mm_lru \<Rightarrow> bool" where
  "lru_equal A B \<longleftrightarrow>
     size_of A = size_of B \<and> list_all2 (\<lambda>(k, v) (k', v'). k = k' \<and> v = v') (contents A) (contents B)"

section \<open>Replacing a node\<close>

definition replace_node :: "addr \<Rightarrow> addr \<Rightarrow> ('k, 'v) mm_lru \<Rightarrow> ('k, 'v) mm_lru" where
  "replace_node old_node new_node S =
     (if old_node = new_node then S
      else if \<not> is_in_container (item S old_node) \<or> is_in_container (item S new_node) then S
      else if has_active_handle (item S old_node) then S
      else
        let S = on_item new_node (refcount_step unmarkInMMContainer_try) S;
            S = ensure_not_insertion_point old_node S;
            was_tail = it_tail (item S old_node);
            S = leave_tail old_node S;
            S = on_item new_node (\<lambda>i. i\<lparr>it_update_time := it_update_time (item S old_node)\<rparr>) S;
            S = on_item new_node (\<lambda>i. i\<lparr>it_accessed := it_accessed (item S old_node)\<rparr>) S;
            S = list_replace old_node new_node S;
            S = on_item old_node (refcount_step unmarkInMMContainer_try) S;
            S = on_item new_node (refcount_step markInMMContainer_try) S;
            S = S\<lparr>ml_map := (ml_map S)(it_key (item S old_node) := Some new_node)\<rparr>;
            S = (if tail_size S > 0 \<and> insertion_point S = Some old_node
                 then S\<lparr>insertion_point := Some new_node\<rparr> else S);
            S = (if was_tail
                 then (on_item new_node (\<lambda>i. i\<lparr>it_tail := True\<rparr>) S)\<lparr>tail_size := tail_size S + 1\<rparr>
                 else S);
            S = S\<lparr>unpinned_tail := None\<rparr>;
            S = update_lru_insertion_point S
        in retire_item old_node S)"

section \<open>Rebuilding from a serialized image\<close>

record ('k, 'v) serialized_item =
  si_key :: 'k
  si_value :: 'v
  si_update_time :: u32
  si_flags :: u8
  si_queue_id :: u8

definition rebuild_item :: "('k, 'v) serialized_item \<Rightarrow> ('k, 'v) mm_lru \<Rightarrow> ('k, 'v) mm_lru" where
  "rebuild_item x S =
     (let (a, S) = allocate_item (si_key x) (si_value x) S;
          S = on_item a (\<lambda>i. i\<lparr>it_update_time := si_update_time x\<rparr>) S;
          S = (if si_flags x AND kAccessedFlag \<noteq> 0 then on_item a (\<lambda>i. i\<lparr>it_accessed := True\<rparr>) S else S);
          S = on_item a (\<lambda>i. i\<lparr>it_queue_id := si_queue_id x\<rparr>) S;
          S = list_link_at_tail a S;
          S = on_item a (refcount_step markInMMContainer_try) S;
          S = map_insert (it_key (item S a)) a S
      in on_stats (memory_add (item_memory S a)) S)"

definition rebuild_from_serialized ::
  "('k, 'v) serialized_item list \<Rightarrow> u32 \<Rightarrow> nat \<Rightarrow> ('k, 'v) mm_lru \<Rightarrow> ('k, 'v) mm_lru" where
  "rebuild_from_serialized xs ins_pos tail_sz S =
     (let S = lru_flush S;
          S = fold rebuild_item xs S;
          S = store_size S;
          S = S\<lparr>tail_size := 0, insertion_point := None\<rparr>
      in if ins_pos \<noteq> - 1 \<and> unat ins_pos < list_size S
         then let p = ml_items S ! unat ins_pos;
                  S = S\<lparr>insertion_point := Some p, tail_size := of_nat tail_sz\<rparr>
              in fold (\<lambda>a. on_item a (\<lambda>i. i\<lparr>it_tail := True\<rparr>)) (take tail_sz (p # succs p (ml_items S))) S
         else S)"

end
