(* ===== verification/Mm_Lru_Inv.thy ===== *)
theory Mm_Lru_Inv
  imports Mm_Lru_Ops
begin

text \<open>
  The invariant of \<^verbatim>\<open>mm_lru\<close> and its preservation by every operation of theory \<open>Mm_Lru_Ops\<close>.
\<close>

section \<open>Reference counts of items\<close>

definition refs :: "('k, 'v) cache_item \<Rightarrow> nat" where
  "refs i = unat (access_ref (it_refcount i))"

lemma refs_upd [simp]:
  "refs (i\<lparr>it_update_time := t\<rparr>) = refs i" "refs (i\<lparr>it_tail := b\<rparr>) = refs i"
  "refs (i\<lparr>it_accessed := b\<rparr>) = refs i" "refs (i\<lparr>it_value := v\<rparr>) = refs i"
  "refs (i\<lparr>it_expiry_ns := e\<rparr>) = refs i" "refs (i\<lparr>it_queue_id := q\<rparr>) = refs i"
  by (simp_all add: refs_def)

lemma handle_refs: "unclaimed i \<Longrightarrow> has_active_handle i \<longleftrightarrow> 0 < refs i"
  by (simp add: handle_unclaimed refs_def access_ref_pos_iff)

lemma refs_new [simp]: "refs (new_item k v) = 0"
  by (simp add: refs_def new_item_def access_ref_def)

lemma refs_container [item_simps]:
  "refs (refcount_step markInMMContainer_try i) = refs i"
  "refs (refcount_step unmarkInMMContainer_try i) = refs i"
  unfolding refcount_step_try(1) [OF markInMMContainer_try_def] refcount_step_try(1) [OF unmarkInMMContainer_try_def]
    snd_conv refs_def
  by (simp_all only: it_refcount_upd set_linked_word clear_linked_word)

lemma refs_claim [item_simps]:
  "refs (refcount_step markForEviction_try i) = refs i"
  "refs (refcount_step unmarkForEviction_try i) = refs i"
proof -
  show "refs (refcount_step unmarkForEviction_try i) = refs i"
    unfolding refcount_step_try(1) [of unmarkForEviction_try, OF unmarkForEviction_try_def [unfolded Let_def]]
      snd_conv refs_def
    by (simp only: it_refcount_upd clear_exclusive_word)
  show "refs (refcount_step markForEviction_try i) = refs i"
  proof (cases "fst (on_refcount markForEviction_try i) = kSuccess")
    case True
    then have "markForEviction_try (it_refcount i) = Try_cas (it_refcount i OR push_bit kExclusiveBit 1) kSuccess"
      by (auto simp: on_refcount_def atomically_def markForEviction_try_def split: if_splits)
    then have "on_refcount markForEviction_try i = (kSuccess, i\<lparr>it_refcount := it_refcount i OR push_bit kExclusiveBit 1\<rparr>)"
      by (rule refcount_step_try(1))
    then show ?thesis by (simp only: snd_conv refs_def it_refcount_upd set_exclusive_word)
  next
    case False
    then show ?thesis by (simp add: claim_fails)
  qed
qed

lemma refs_pin [item_simps]:
  assumes "fst (on_refcount incRef_try i) = kIncOk"
  shows "refs (refcount_step incRef_try i) = refs i + 1"
proof -
  let ?w = "it_refcount i"
  have *: "incRef_try ?w = Try_cas (?w + 1) kIncOk" "unat (access_ref ?w) < 2 ^ 32 - 1"
    using assms access_ref_below_max_iff [of ?w]
    by (auto simp: on_refcount_def atomically_def incRef_try_def split: if_splits)
  have "refcount_step incRef_try i = i\<lparr>it_refcount := ?w + 1\<rparr>"
    by (simp only: refcount_step_try(1) [of incRef_try i, OF *(1)] snd_conv)
  then show ?thesis using unat_access_ref_inc [OF *(2)] by (simp add: refs_def)
qed

lemma unpin [item_simps]:
  "refs (refcount_step decRef_try i) = refs i - 1"
  "is_in_container (refcount_step decRef_try i) = is_in_container i"
  "unclaimed (refcount_step decRef_try i) = unclaimed i"
proof -
  let ?w = "it_refcount i"
  have "refs (refcount_step decRef_try i) = refs i - 1 \<and>
    is_in_container (refcount_step decRef_try i) = is_in_container i \<and>
    unclaimed (refcount_step decRef_try i) = unclaimed i"
  proof (cases "access_ref ?w = 0")
    case True
    then show ?thesis
      by (simp add: refcount_step_try(2) [of decRef_try i] decRef_try_def refs_def)
  next
    case False
    then have p: "0 < unat (access_ref ?w)" by (simp add: access_ref_eq_0_iff)
    have eq: "refcount_step decRef_try i = i\<lparr>it_refcount := ?w - 1\<rparr>"
      using False by (simp add: refcount_step_try(1) [of decRef_try i] decRef_try_def)
    have b: "bit (?w - 1) n = bit ?w n" if "32 \<le> n" for n using bit_dec [OF p that] .
    show ?thesis
      unfolding eq using unat_access_ref_dec [OF p] b [OF layout_bounds(3)] b [OF layout_bounds(4)]
      by (simp add: question_defs refs_def)
  qed
  then show "refs (refcount_step decRef_try i) = refs i - 1"
    "is_in_container (refcount_step decRef_try i) = is_in_container i"
    "unclaimed (refcount_step decRef_try i) = unclaimed i" by auto
qed

section \<open>The invariant\<close>

definition in_list :: "addr option \<Rightarrow> addr list \<Rightarrow> bool" where
  "in_list p xs = (case p of None \<Rightarrow> True | Some a \<Rightarrow> a \<in> set xs)"

text \<open>Every allocated item is in one of three places, and no item is in two.\<close>

definition addrs_ok :: "('k, 'v) mm_lru \<Rightarrow> bool" where
  "addrs_ok S \<longleftrightarrow>
     distinct (ml_items S @ pending_deletion S @ map snd (ml_retired S)) \<and>
     set (ml_items S @ pending_deletion S @ map snd (ml_retired S)) = {a. a < ml_fresh S}"

definition items_ok :: "('k, 'v) mm_lru \<Rightarrow> bool" where
  "items_ok S \<longleftrightarrow>
     (\<forall>a \<in> set (ml_items S). is_in_container (item S a) \<and> unclaimed (item S a)) \<and>
     (\<forall>a \<in> set (pending_deletion S). \<not> is_in_container (item S a) \<and> unclaimed (item S a)) \<and>
     (\<forall>a \<in> snd ` set (ml_retired S). \<not> is_in_container (item S a) \<and> refs (item S a) = 0)"

definition map_ok :: "('k, 'v) mm_lru \<Rightarrow> bool" where
  "map_ok S \<longleftrightarrow> (\<forall>k a. ml_map S k = Some a \<longleftrightarrow> a \<in> set (ml_items S) \<and> it_key (item S a) = k)"

definition cursors_ok :: "('k, 'v) mm_lru \<Rightarrow> bool" where
  "cursors_ok S \<longleftrightarrow> in_list (unpinned_tail S) (ml_items S) \<and> in_list (insertion_point S) (ml_items S)"

definition counts_ok :: "('k, 'v) mm_lru \<Rightarrow> bool" where
  "counts_ok S \<longleftrightarrow>
     current_size (ml_stats S) = length (ml_items S) \<and>
     current_memory (ml_stats S) = (\<Sum>a \<leftarrow> ml_items S. item_memory S a)"

definition ml_ok :: "('k, 'v) mm_lru \<Rightarrow> bool" where
  "ml_ok S \<longleftrightarrow> addrs_ok S \<and> items_ok S \<and> map_ok S \<and> cursors_ok S \<and> counts_ok S"

lemmas ml_ok_defs = ml_ok_def addrs_ok_def items_ok_def map_ok_def cursors_ok_def counts_ok_def

text \<open>The expiry of the item a key maps to, and what the index knows about it.\<close>

definition lru_live :: "('k, 'v) mm_lru \<Rightarrow> 'k \<Rightarrow> u64 option" where
  "lru_live S k = map_option (\<lambda>a. it_expiry_ns (item S a)) (ml_map S k)"

definition ttl_ok :: "('k, 'v) mm_lru \<Rightarrow> bool" where
  "ttl_ok S \<longleftrightarrow>
     th_ok (ml_index S) \<and> indexed (lru_live S) (ml_index S) \<and>
     (\<forall>a \<in> set (th_heap (ml_index S)). expiry_ns a \<noteq> 0)"

section \<open>Steps that keep every item where it is\<close>

definition same_item :: "('k, 'v) cache_item \<Rightarrow> ('k, 'v) cache_item \<Rightarrow> bool" where
  "same_item i j \<longleftrightarrow>
     it_key i = it_key j \<and> it_value i = it_value j \<and> it_expiry_ns i = it_expiry_ns j \<and>
     it_refcount i = it_refcount j"

lemma same_item_status:
  assumes "same_item i j"
  shows "it_key i = it_key j" "it_value i = it_value j" "it_expiry_ns i = it_expiry_ns j"
    "refs i = refs j" "is_in_container i = is_in_container j" "has_active_handle i = has_active_handle j"
    "unclaimed i = unclaimed j"
  using assms
  by (simp_all add: same_item_def refs_def is_in_container_def has_active_handle_def unclaimed_def)

text \<open>Equal up to the container and claim bits as well.\<close>

definition same_data :: "('k, 'v) cache_item \<Rightarrow> ('k, 'v) cache_item \<Rightarrow> bool" where
  "same_data i j \<longleftrightarrow>
     it_key i = it_key j \<and> it_value i = it_value j \<and> it_expiry_ns i = it_expiry_ns j \<and> refs i = refs j"

lemma same_item_data: "same_item i j \<Longrightarrow> same_data i j"
  by (simp add: same_item_def same_data_def refs_def)

lemma same_data_refl [simp]: "same_data i i"
  by (simp add: same_data_def)

lemma same_data_trans: "same_data i j \<Longrightarrow> same_data j k \<Longrightarrow> same_data i k"
  by (simp add: same_data_def)

lemma same_item_simps [simp]:
  "same_item i i" "same_item (i\<lparr>it_update_time := t\<rparr>) j = same_item i j"
  "same_item (i\<lparr>it_tail := b\<rparr>) j = same_item i j" "same_item (i\<lparr>it_accessed := b\<rparr>) j = same_item i j"
  by (simp_all add: same_item_def)

definition same_env :: "('k, 'v) mm_lru \<Rightarrow> ('k, 'v) mm_lru \<Rightarrow> bool" where
  "same_env S T \<longleftrightarrow>
     key_size_fn T = key_size_fn S \<and> value_size_fn T = value_size_fn S \<and>
     item_overhead T = item_overhead S \<and> ml_max_size T = ml_max_size S \<and>
     ml_max_memory T = ml_max_memory S \<and> ml_config T = ml_config S \<and>
     eviction_predicate T = eviction_predicate S \<and> now_ns T = now_ns S \<and> now_sec T = now_sec S"

lemma same_env_refl [simp]: "same_env S S"
  by (simp add: same_env_def)

lemma same_env_trans: "same_env S T \<Longrightarrow> same_env T U \<Longrightarrow> same_env S U"
  by (simp add: same_env_def)

lemma same_env_memory: "same_env S T \<Longrightarrow> calc_item_memory T = calc_item_memory S"
  by (simp add: same_env_def calc_item_memory_def fun_eq_iff)

definition quiet :: "('k, 'v) mm_lru \<Rightarrow> ('k, 'v) mm_lru \<Rightarrow> bool" where
  "quiet S T \<longleftrightarrow>
     same_env S T \<and> ml_fresh T = ml_fresh S \<and> mset (ml_items T) = mset (ml_items S) \<and>
     ml_map T = ml_map S \<and> (\<forall>a. same_item (item T a) (item S a)) \<and>
     pending_deletion T = pending_deletion S \<and> ml_retired T = ml_retired S \<and>
     current_size (ml_stats T) = current_size (ml_stats S) \<and>
     current_memory (ml_stats T) = current_memory (ml_stats S) \<and> ml_index T = ml_index S \<and>
     cursors_ok T"

lemma quiet_refl: "cursors_ok S \<Longrightarrow> quiet S S"
  by (simp add: quiet_def)

lemma quiet_trans: "quiet S T \<Longrightarrow> quiet T U \<Longrightarrow> quiet S U"
  by (auto simp: quiet_def same_item_def intro: same_env_trans)

lemma quiet_memory:
  assumes "quiet S T" shows "item_memory T a = item_memory S a"
  using assms same_env_memory [of S T]
  by (simp add: quiet_def item_memory_def same_item_def)

lemma sum_list_mset_eq:
  fixes f :: "'a \<Rightarrow> 'b :: comm_monoid_add"
  shows "mset xs = mset ys \<Longrightarrow> sum_list (map f xs) = sum_list (map f ys)"
  by (metis mset_map sum_mset_sum_list)

lemma quiet_ok:
  assumes "ml_ok S" "quiet S T"
  shows "ml_ok T"
proof -
  have m: "mset (ml_items T) = mset (ml_items S)" and s: "\<And>a. same_item (item T a) (item S a)"
    using assms(2) by (auto simp: quiet_def)
  have st: "set (ml_items T) = set (ml_items S)" "length (ml_items T) = length (ml_items S)"
    "distinct (ml_items T) = distinct (ml_items S)"
    using m by (metis set_mset_mset, metis size_mset, metis mset_eq_imp_distinct_iff)
  have "(\<Sum>a \<leftarrow> ml_items T. item_memory T a) = (\<Sum>a \<leftarrow> ml_items S. item_memory S a)"
    using sum_list_mset_eq [OF m] quiet_memory [OF assms(2)] by simp
  then show ?thesis
    using assms st same_item_status [OF s]
    by (simp add: ml_ok_def addrs_ok_def items_ok_def map_ok_def counts_ok_def quiet_def)
qed

lemma quiet_live: "quiet S T \<Longrightarrow> lru_live T = lru_live S"
  by (auto simp: quiet_def lru_live_def same_item_def fun_eq_iff intro!: map_option_cong)

lemma quiet_ttl: "quiet S T \<Longrightarrow> ttl_ok S \<Longrightarrow> ttl_ok T"
  using quiet_live [of S T] by (simp add: ttl_ok_def quiet_def)


section \<open>The insertion point stays in the list\<close>

lemmas prim_defs = item_def on_item_def on_stats_def report_def memory_add_def memory_sub_def
  retire_item_def map_erase_def list_size_def size_of_def

lemma in_list_simps [simp]: "in_list None xs" "in_list (Some a) xs \<longleftrightarrow> a \<in> set xs"
  by (simp_all add: in_list_def)

lemma in_list_mono: "in_list p xs \<Longrightarrow> set xs \<subseteq> set ys \<Longrightarrow> in_list p ys"
  by (auto simp: in_list_def split: option.splits)

lemma set_preds: "set (preds a xs) \<subseteq> set xs - {a}"
  by (auto simp: preds_def dest: set_takeWhileD)

lemma set_succs: "set (succs a xs) \<subseteq> set xs"
proof -
  have "set (tl ys) \<subseteq> set ys" for ys :: "addr list" by (cases ys) auto
  then show ?thesis unfolding succs_def by (blast dest: set_dropWhileD)
qed

lemma first_in: "first xs = Some a \<Longrightarrow> a \<in> set xs"
  by (simp add: first_def split: list.splits)

lemma grow_tail_in: "fst (grow_tail e c ps S) \<in> insert c (set ps)"
  by (induction e c ps S rule: grow_tail.induct) (auto simp: Let_def)

lemma shrink_tail_in: "fst (shrink_tail e c ns S) \<in> insert c (set ns)"
  by (induction e c ns S rule: shrink_tail.induct) (auto simp: Let_def)

lemma grow_frame [simp]: "ml_items (snd (grow_tail e c ps S)) = ml_items S"
  using core_eqD(2) [OF core_grow] .

lemma update_ip:
  assumes "in_list (insertion_point S) (ml_items S)"
  shows "in_list (insertion_point (update_lru_insertion_point S)) (ml_items S)"
proof (cases "lru_insertion_point_spec (ml_config S) = 0")
  case True
  with assms show ?thesis by (simp add: update_lru_insertion_point_def)
next
  case False
  define S1 where "S1 = (if insertion_point S = None
     then let S = S\<lparr>insertion_point := list_tail S, tail_size := 0\<rparr>
          in (case insertion_point S of
                None \<Rightarrow> S
              | Some t \<Rightarrow> (on_item t (\<lambda>i. i\<lparr>it_tail := True\<rparr>) S)\<lparr>tail_size := 1\<rparr>)
     else S)"
  have i: "ml_items S1 = ml_items S" "in_list (insertion_point S1) (ml_items S)" "ml_config S1 = ml_config S"
    using assms by (auto simp: S1_def Let_def on_item_def list_tail_def split: option.splits)
  show ?thesis
  proof (cases "insertion_point S1")
    case None
    then show ?thesis using False
      unfolding update_lru_insertion_point_def S1_def [symmetric] by (simp add: Let_def)
  next
    case (Some c)
    let ?e = "drop_bit (unat (lru_insertion_point_spec (ml_config S))) (of_nat (list_size S1)) :: u64"
    obtain c1 T1 where g: "grow_tail ?e c (preds c (ml_items S)) S1 = (c1, T1)" by fastforce
    obtain c2 T2 where h: "shrink_tail ?e c1 (succs c1 (ml_items S)) T1 = (c2, T2)" by fastforce
    have "ml_items T1 = ml_items S" using g grow_frame i by (metis snd_conv)
    moreover have "c1 \<in> set (ml_items S)"
      using grow_tail_in [of ?e c "preds c (ml_items S)" S1] g Some i(2) set_preds [of c "ml_items S"] by auto
    moreover have "c2 \<in> insert c1 (set (ml_items S))"
      using shrink_tail_in [of ?e c1 "succs c1 (ml_items S)" T1] h set_succs [of c1 "ml_items S"] by auto
    ultimately show ?thesis
      using False Some g h i
      unfolding update_lru_insertion_point_def S1_def [symmetric] by (auto simp: Let_def)
  qed
qed

lemma ensure_ip:
  assumes "in_list (insertion_point S) (ml_items S)"
  shows "in_list (insertion_point (ensure_not_insertion_point a S)) (ml_items S)"
    "insertion_point (ensure_not_insertion_point a S) \<noteq> Some a"
  using assms set_preds [of a "ml_items S"]
  by (auto simp: ensure_not_insertion_point_def Let_def on_item_def list_get_prev_def
      split: option.splits dest!: first_in)

lemma leave_ip [simp]: "insertion_point (leave_tail a S) = insertion_point S"
  by (simp add: leave_tail_def on_item_def)

lemma frame_refs [simp]:
  "refs (ml_store (update_lru_insertion_point S) a) = refs (ml_store S a)"
  "refs (ml_store (ensure_not_insertion_point b S) a) = refs (ml_store S a)"
  "refs (ml_store (leave_tail b S) a) = refs (ml_store S a)"
  by (simp_all add: refs_def)

section \<open>Removing an item\<close>

lemma remove_frame:
  assumes "is_in_container (ml_store S a)"
  shows "ml_items (remove_from_list a S) = remove1 a (ml_items S)"
    "ml_fresh (remove_from_list a S) = ml_fresh S" "ml_map (remove_from_list a S) = ml_map S"
    "ml_max_size (remove_from_list a S) = ml_max_size S"
    "ml_max_memory (remove_from_list a S) = ml_max_memory S"
    "ml_config (remove_from_list a S) = ml_config S"
    "unpinned_tail (remove_from_list a S) = unpinned_tail S"
    "ml_stats (remove_from_list a S) = ml_stats S" "ml_events (remove_from_list a S) = ml_events S"
    "key_size_fn (remove_from_list a S) = key_size_fn S"
    "value_size_fn (remove_from_list a S) = value_size_fn S"
    "eviction_predicate (remove_from_list a S) = eviction_predicate S"
    "item_overhead (remove_from_list a S) = item_overhead S"
    "pending_deletion (remove_from_list a S) = pending_deletion S"
    "ml_retired (remove_from_list a S) = ml_retired S" "ml_index (remove_from_list a S) = ml_index S"
    "now_sec (remove_from_list a S) = now_sec S" "now_ns (remove_from_list a S) = now_ns S"
  using assms by (simp_all add: remove_from_list_def Let_def prim_defs list_remove_def)

lemma remove_store:
  assumes "is_in_container (ml_store S a)"
  shows "b \<noteq> a \<Longrightarrow> same_item (ml_store (remove_from_list a S) b) (ml_store S b)"
    "\<not> is_in_container (ml_store (remove_from_list a S) a)"
    "refs (ml_store (remove_from_list a S) a) = refs (ml_store S a)"
    "unclaimed (ml_store (remove_from_list a S) a) = unclaimed (ml_store S a)"
    "it_key (ml_store (remove_from_list a S) a) = it_key (ml_store S a)"
    "it_value (ml_store (remove_from_list a S) a) = it_value (ml_store S a)"
    "it_expiry_ns (ml_store (remove_from_list a S) a) = it_expiry_ns (ml_store S a)"
  using assms
  by (simp_all add: remove_from_list_def Let_def prim_defs list_remove_def same_item_def
      unmark_in_container refs_container)

lemma remove_ip:
  assumes "is_in_container (ml_store S a)" "in_list (insertion_point S) (ml_items S)" "distinct (ml_items S)"
  shows "in_list (insertion_point (remove_from_list a S)) (remove1 a (ml_items S))"
proof -
  have *: "in_list p (remove1 a xs)" if "in_list p xs" "p \<noteq> Some a" "distinct xs" for p xs
    using that by (auto simp: in_list_def split: option.splits)
  let ?U = "list_remove a (on_item a (refcount_step unmarkInMMContainer_try)
    (on_item a (\<lambda>i. i\<lparr>it_accessed := False\<rparr>) (leave_tail a (ensure_not_insertion_point a S))))"
  have r: "remove_from_list a S = update_lru_insertion_point ?U" "ml_items ?U = remove1 a (ml_items S)"
    using assms(1) by (simp_all add: remove_from_list_def Let_def prim_defs list_remove_def)
  have "in_list (insertion_point ?U) (ml_items ?U)"
    using ensure_ip [OF assms(2), of a] * assms(3) by (simp add: list_remove_def on_item_def)
  from update_ip [OF this] show ?thesis by (simp only: r)
qed


text \<open>What every path that takes item \<open>a\<close> out of the cache does to the state.\<close>

definition took_out :: "addr \<Rightarrow> ('k, 'v) mm_lru \<Rightarrow> ('k, 'v) mm_lru \<Rightarrow> bool" where
  "took_out a S T \<longleftrightarrow>
     same_env S T \<and> ml_fresh T = ml_fresh S \<and> ml_items T = remove1 a (ml_items S) \<and>
     ml_map T = (ml_map S)(it_key (item S a) := None) \<and>
     (\<forall>b. b \<noteq> a \<longrightarrow> same_item (item T b) (item S b)) \<and>
     \<not> is_in_container (item T a) \<and> unclaimed (item T a) \<and> same_data (item T a) (item S a) \<and>
     current_size (ml_stats T) = length (ml_items T) \<and>
     current_memory (ml_stats T) = current_memory (ml_stats S) - item_memory S a \<and>
     ml_index T = ml_index S \<and> cursors_ok T"

definition retired_out :: "addr \<Rightarrow> ('k, 'v) mm_lru \<Rightarrow> ('k, 'v) mm_lru \<Rightarrow> bool" where
  "retired_out a S T \<longleftrightarrow>
     took_out a S T \<and> pending_deletion T = pending_deletion S \<and>
     ml_retired T = ml_retired S @ [(if use_ebr (ml_config S) then Ebr else Hazptr, a)]"

definition pended_out :: "addr \<Rightarrow> ('k, 'v) mm_lru \<Rightarrow> ('k, 'v) mm_lru \<Rightarrow> bool" where
  "pended_out a S T \<longleftrightarrow>
     took_out a S T \<and> pending_deletion T = pending_deletion S @ [a] \<and> ml_retired T = ml_retired S"

lemma took_out_memory:
  assumes "took_out a S T" "b \<noteq> a" shows "item_memory T b = item_memory S b"
  using assms same_env_memory [of S T] by (simp add: took_out_def item_memory_def same_item_def)

lemma took_out_parts:
  assumes ok: "ml_ok S" and a: "a \<in> set (ml_items S)" and t: "took_out a S T"
  shows "map_ok T" "counts_ok T" "cursors_ok T"
    "\<forall>b \<in> set (ml_items T). is_in_container (item T b) \<and> unclaimed (item T b)"
proof -
  have d: "distinct (ml_items S)" using ok by (simp add: ml_ok_defs)
  have i: "ml_items T = remove1 a (ml_items S)" "set (ml_items T) = set (ml_items S) - {a}"
    using t d by (simp_all add: took_out_def)
  have s: "b \<noteq> a \<Longrightarrow> same_item (item T b) (item S b)" for b using t by (simp add: took_out_def)
  have map: "ml_map S k = Some b \<longleftrightarrow> b \<in> set (ml_items S) \<and> it_key (item S b) = k" for k b
    using ok by (simp add: ml_ok_defs)
  have "ml_map T k = Some b \<longleftrightarrow> b \<in> set (ml_items T) \<and> it_key (item T b) = k" for k b
  proof (cases "b = a")
    case True
    with map [of k a] i(2) t a show ?thesis by (auto simp: took_out_def)
  next
    case False
    have "ml_map S (it_key (item S a)) = Some a" using map a by blast
    with False same_item_status(1) [OF s [OF False]] map [of k b] map [of "it_key (item S a)" b] i(2) t show ?thesis
      by (auto simp: took_out_def)
  qed
  then show "map_ok T" by (simp add: map_ok_def)
  have "(\<Sum>b \<leftarrow> ml_items S. item_memory S b) = item_memory S a + (\<Sum>b \<leftarrow> ml_items T. item_memory S b)"
    using sum_list_map_remove1 [OF a] i(1) by simp
  moreover have "(\<Sum>b \<leftarrow> ml_items T. item_memory T b) = (\<Sum>b \<leftarrow> ml_items T. item_memory S b)"
    using took_out_memory [OF t] i(2) by (intro arg_cong [of _ _ sum_list] map_cong) auto
  ultimately show "counts_ok T" using ok t by (simp add: ml_ok_def counts_ok_def took_out_def)
  show "cursors_ok T" using t by (simp add: took_out_def)
  show "\<forall>b \<in> set (ml_items T). is_in_container (item T b) \<and> unclaimed (item T b)"
    using ok same_item_status(5,7) [OF s] i(2) by (simp add: ml_ok_def items_ok_def)
qed

lemma took_out_rest:
  assumes ok: "ml_ok S" and a: "a \<in> set (ml_items S)" and t: "took_out a S T"
  shows "b \<in> set (pending_deletion S) \<Longrightarrow> \<not> is_in_container (item T b) \<and> unclaimed (item T b)"
    "b \<in> snd ` set (ml_retired S) \<Longrightarrow> \<not> is_in_container (item T b) \<and> refs (item T b) = 0"
proof -
  have s: "b \<noteq> a \<Longrightarrow> same_item (item T b) (item S b)" using t by (simp add: took_out_def)
  have "b \<noteq> a" if "b \<in> set (pending_deletion S) \<or> b \<in> snd ` set (ml_retired S)"
    using ok a that by (auto simp: ml_ok_def addrs_ok_def)
  then show "b \<in> set (pending_deletion S) \<Longrightarrow> \<not> is_in_container (item T b) \<and> unclaimed (item T b)"
    "b \<in> snd ` set (ml_retired S) \<Longrightarrow> \<not> is_in_container (item T b) \<and> refs (item T b) = 0"
    using ok same_item_status [OF s] by (auto simp: ml_ok_def items_ok_def)
qed

lemma took_out_live:
  assumes ok: "ml_ok S" and a: "a \<in> set (ml_items S)" and t: "took_out a S T"
  shows "lru_live T = (lru_live S)(it_key (item S a) := None)"
proof
  fix k
  have map: "ml_map S k = Some b \<longleftrightarrow> b \<in> set (ml_items S) \<and> it_key (item S b) = k" for k b
    using ok by (simp add: ml_ok_defs)
  then show "lru_live T k = ((lru_live S)(it_key (item S a) := None)) k"
  proof (cases "ml_map S k")
    case (Some b)
    then have "k \<noteq> it_key (item S a) \<Longrightarrow> b \<noteq> a" using map [of k b] by auto
    with Some t show ?thesis by (auto simp: lru_live_def took_out_def same_item_def)
  qed (use t in \<open>simp add: lru_live_def took_out_def\<close>)
qed

lemma retired_out_ok:
  assumes "ml_ok S" "a \<in> set (ml_items S)" "\<not> has_active_handle (item S a)" "retired_out a S T"
  shows "ml_ok T"
proof -
  have t: "took_out a S T" using assms(4) by (simp add: retired_out_def)
  have u: "unclaimed (item S a)" using assms(1,2) by (simp add: ml_ok_def items_ok_def)
  have "addrs_ok T" using assms t by (auto simp: ml_ok_def addrs_ok_def retired_out_def took_out_def)
  moreover have "items_ok T"
    unfolding items_ok_def
    using took_out_parts(4) [OF assms(1,2) t] took_out_rest [OF assms(1,2) t] assms(3,4) t handle_refs [OF u]
    by (auto simp: retired_out_def took_out_def same_data_def)
  ultimately show ?thesis using took_out_parts [OF assms(1,2) t] by (simp add: ml_ok_def)
qed

lemma pended_out_ok:
  assumes "ml_ok S" "a \<in> set (ml_items S)" "pended_out a S T"
  shows "ml_ok T"
proof -
  have t: "took_out a S T" using assms(3) by (simp add: pended_out_def)
  have "addrs_ok T" using assms t by (auto simp: ml_ok_def addrs_ok_def pended_out_def took_out_def)
  moreover have "items_ok T"
    unfolding items_ok_def
    using took_out_parts(4) [OF assms(1,2) t] took_out_rest [OF assms(1,2) t] assms(3) t
    by (auto simp: pended_out_def took_out_def)
  ultimately show ?thesis using took_out_parts [OF assms(1,2) t] by (simp add: ml_ok_def)
qed

lemma took_out_ttl:
  assumes "ml_ok S" "a \<in> set (ml_items S)" "took_out a S T" "ttl_ok S"
  shows "ttl_ok T"
  using assms(3,4) took_out_live [OF assms(1-3)]
  by (auto simp: ttl_ok_def took_out_def indexed_def split: if_splits)


section \<open>Deferred deletions\<close>

definition cleaned :: "('k, 'v) mm_lru \<Rightarrow> addr list \<Rightarrow> ('k, 'v) mm_lru" where
  "cleaned S xs =
     (let out = filter (\<lambda>a. \<not> has_active_handle (item S a)) xs in
      S\<lparr>ml_events := ml_events S @ map (\<lambda>a. On_evict (it_key (item S a)) (it_value (item S a))) out,
        ml_retired := ml_retired S @ map (Pair (if use_ebr (ml_config S) then Ebr else Hazptr)) out,
        pending_deletion := fold remove1 out (pending_deletion S)\<rparr>)"

lemma cleanup_loop_cleaned: "cleanup_loop xs S = cleaned S xs"
  by (induction xs S rule: cleanup_loop.induct)
    (simp_all add: cleaned_def Let_def item_def report_def retire_item_def comp_def)

lemma fold_remove1_filter:
  "distinct xs \<Longrightarrow> fold remove1 (filter P xs) xs = filter (\<lambda>x. \<not> P x) xs"
proof -
  have *: "distinct ys \<Longrightarrow> fold remove1 zs ys = filter (\<lambda>x. x \<notin> set zs) ys" for ys zs :: "'a list"
    by (induction zs arbitrary: ys) (auto simp: distinct_remove1_removeAll removeAll_filter_not_eq intro!: filter_cong)
  assume "distinct xs"
  from * [OF this, of "filter P xs"] show ?thesis by (auto intro!: filter_cong)
qed

lemma cleanup_eq:
  assumes "ml_ok S"
  shows "pending_deletion (cleanup_pending_deletion S) = filter (\<lambda>a. has_active_handle (item S a)) (pending_deletion S)"
    "ml_retired (cleanup_pending_deletion S) = ml_retired S @
       map (Pair (if use_ebr (ml_config S) then Ebr else Hazptr))
         (filter (\<lambda>a. \<not> has_active_handle (item S a)) (pending_deletion S))"
  using assms fold_remove1_filter [of "pending_deletion S" "\<lambda>a. \<not> has_active_handle (item S a)"]
  by (simp_all add: cleanup_pending_deletion_def cleanup_loop_cleaned cleaned_def Let_def ml_ok_defs)

lemma cleanup_env [simp]: "same_env S (cleanup_pending_deletion S)"
  by (simp add: same_env_def)

lemma cleanup_item [simp]: "item (cleanup_pending_deletion S) = item S"
  by (simp add: item_def fun_eq_iff)

lemma cleanup_vetoed [simp]: "vetoed (cleanup_pending_deletion S) = vetoed S"
  by (simp add: vetoed_def fun_eq_iff split: option.split)

lemma cleanup_ok:
  assumes "ml_ok S" shows "ml_ok (cleanup_pending_deletion S)"
proof -
  let ?T = "cleanup_pending_deletion S" and ?P = "\<lambda>a. has_active_handle (item S a)"
  have m: "item_memory ?T = item_memory S"
    using same_env_memory [OF cleanup_env, of S] by (simp add: item_memory_def item_def fun_eq_iff)
  have "addrs_ok ?T"
    using assms cleanup_eq [OF assms] unfolding ml_ok_def addrs_ok_def by (auto simp: comp_def)
  moreover have "items_ok ?T"
    using assms cleanup_eq [OF assms] handle_refs unfolding ml_ok_def items_ok_def
    by (auto simp: item_def image_image)
  moreover have "map_ok ?T" "cursors_ok ?T" "counts_ok ?T"
    using assms m by (simp_all add: ml_ok_def map_ok_def cursors_ok_def counts_ok_def item_def)
  ultimately show ?thesis by (simp add: ml_ok_def)
qed

lemma cleanup_ttl: "ttl_ok (cleanup_pending_deletion S) = ttl_ok S"
  by (simp add: ttl_ok_def lru_live_def [abs_def] item_def)

section \<open>Eviction\<close>

lemma victim_scan_result:
  assumes "victim_scan S xs tries steps pinned fu = (v, steps', pinned', fu')"
  shows "pinned \<le> pinned' \<and> (fu' = fu \<or> in_list fu' xs) \<and>
    (\<forall>a. v = Some a \<longrightarrow> a \<in> set xs \<and> \<not> has_active_handle (item S a) \<and> \<not> vetoed S a \<and>
      (pinned < pinned' \<longrightarrow> a \<in> set (tl xs)))"
  using assms
proof (induction S xs tries steps pinned fu rule: victim_scan.induct)
  case (1 S tries steps pinned first_unpinned)
  then show ?case by simp
next
  case (2 S b bs tries steps pinned fu)
  have tl: "a \<in> set (tl bs) \<Longrightarrow> a \<in> set bs" for a by (cases bs) auto
  show ?case
  proof (cases "has_active_handle (item S b)")
    case True
    with 2(1) [OF True] 2(3) show ?thesis by (auto simp: in_list_def split: option.splits)
  next
    case False
    show ?thesis
    proof (cases "vetoed S b \<and> \<not> tries + 1 \<ge> eviction_search_tries (ml_config S)")
      case True
      with False 2(2) [OF False refl] 2(3) tl show ?thesis
        by (auto simp: in_list_def Let_def split: option.splits if_splits)
    next
      case False
      with \<open>\<not> has_active_handle (item S b)\<close> 2(3) show ?thesis
        by (auto simp: in_list_def Let_def split: option.splits if_splits)
    qed
  qed
qed

lemma preds_not_last:
  assumes "distinct xs" "c \<in> set xs" "a \<in> set (preds c xs)" shows "a \<noteq> last xs"
proof
  assume a: "a = last xs"
  have "dropWhile (\<lambda>b. b \<noteq> c) xs \<noteq> []" using assms(2) by (simp add: dropWhile_eq_Nil_conv)
  then have "last xs \<in> set (dropWhile (\<lambda>b. b \<noteq> c) xs)"
    by (metis last_appendR last_in_set takeWhile_dropWhile_id)
  moreover have "a \<in> set (takeWhile (\<lambda>b. b \<noteq> c) xs)" using assms(3) by (simp add: preds_def)
  ultimately show False
    using assms(1) a by (metis IntI append.assoc disjoint_iff distinct_append takeWhile_dropWhile_id)
qed

lemma scan_start_in: "cursors_ok S \<Longrightarrow> in_list (scan_start S) (ml_items S)"
  by (auto simp: cursors_ok_def scan_start_def list_tail_def split: option.splits)

lemma list_get_prev_in: "list_get_prev S a = Some b \<Longrightarrow> b \<in> set (ml_items S) \<and> b \<noteq> a"
  using set_preds [of a "ml_items S"] by (auto simp: list_get_prev_def dest: first_in)

lemma list_tail_in: "in_list (list_tail S) (ml_items S)"
  by (simp add: list_tail_def)

lemma find_eviction_victim_quiet:
  assumes ok: "ml_ok S" and f: "find_eviction_victim S = (v, T)"
  shows "quiet S T" "ml_items T = ml_items S"
    "v = Some a \<Longrightarrow> a \<in> set (ml_items S) \<and> \<not> has_active_handle (item S a) \<and> \<not> vetoed S a \<and>
       unpinned_tail T \<noteq> Some a"
proof -
  have d: "distinct (ml_items S)" and c: "cursors_ok S" using ok by (simp_all add: ml_ok_defs)
  have "quiet S T \<and> ml_items T = ml_items S \<and> (\<forall>a. v = Some a \<longrightarrow>
      a \<in> set (ml_items S) \<and> \<not> has_active_handle (item S a) \<and> \<not> vetoed S a \<and> unpinned_tail T \<noteq> Some a)"
  proof (cases "scan_start S")
    case None
    with f c show ?thesis by (auto simp: find_eviction_victim_def quiet_refl)
  next
    case (Some b)
    then have b: "b \<in> set (ml_items S)" using scan_start_in [OF c] by simp
    obtain w steps pinned fu where s:
      "victim_scan S (b # preds b (ml_items S)) 0 0 0 None = (w, steps, pinned, fu)" by (metis prod_cases4)
    note r = victim_scan_result [OF s]
    have x: "set (b # preds b (ml_items S)) \<subseteq> set (ml_items S)"
      using b set_preds [of b "ml_items S"] by auto
    let ?u = "if pinned > 0 then list_tail S
      else case w of Some a \<Rightarrow> list_get_prev S a | None \<Rightarrow> fu"
    have u: "in_list ?u (ml_items S)"
      using r x list_tail_in [of S]
      by (auto simp: in_list_def split: option.splits dest: list_get_prev_in)
    have n: "?u \<noteq> Some a" if "w = Some a" for a
      using r that preds_not_last [OF d b, of a] list_get_prev_in [of S a a]
      by (auto simp: list_tail_def)
    have T: "v = w" "\<exists>st. T = S\<lparr>ml_stats := st, unpinned_tail := ?u\<rparr> \<and>
        current_size st = current_size (ml_stats S) \<and> current_memory st = current_memory (ml_stats S)"
      using f Some s by (auto simp: find_eviction_victim_def on_stats_def Let_def list_tail_def
          list_get_prev_def simp del: victim_scan.simps split: option.splits)
    have "quiet S T" using T(2) u c by (auto simp: quiet_def same_env_def cursors_ok_def item_def)
    with T n r x show ?thesis by auto
  qed
  then show "quiet S T" "ml_items T = ml_items S"
    "v = Some a \<Longrightarrow> a \<in> set (ml_items S) \<and> \<not> has_active_handle (item S a) \<and> \<not> vetoed S a \<and>
       unpinned_tail T \<noteq> Some a" by auto
qed


lemma in_remove1: "in_list p xs \<Longrightarrow> p \<noteq> Some a \<Longrightarrow> in_list p (remove1 a xs)"
  by (auto simp: in_list_def split: option.splits)

lemma ml_okD:
  assumes "ml_ok S"
  shows "distinct (ml_items S)" "in_list (insertion_point S) (ml_items S)"
    "in_list (unpinned_tail S) (ml_items S)" "cursors_ok S"
    "a \<in> set (ml_items S) \<Longrightarrow> is_in_container (ml_store S a)"
    "a \<in> set (ml_items S) \<Longrightarrow> unclaimed (ml_store S a)"
    "ml_map S k = Some a \<longleftrightarrow> a \<in> set (ml_items S) \<and> it_key (ml_store S a) = k"
    "current_size (ml_stats S) = length (ml_items S)"
  using assms by (simp_all add: ml_ok_defs item_def)

lemmas took_out_defs = took_out_def same_data_def same_env_def prim_defs store_size_def item_memory_def
  calc_item_memory_def Let_def

text \<open>Removal of an item that was not claimed first, whatever is counted and reported on the way.\<close>

lemma unlink_store:
  assumes "is_in_container (ml_store S a)" "unclaimed (ml_store S a)" "ml_store U = ml_store S"
  shows "b \<noteq> a \<Longrightarrow> same_item (ml_store (remove_from_list a U) b) (ml_store S b)"
    "\<not> is_in_container (ml_store (remove_from_list a U) a)"
    "refs (ml_store (remove_from_list a U) a) = refs (ml_store S a)"
    "unclaimed (ml_store (remove_from_list a U) a)"
    "it_key (ml_store (remove_from_list a U) a) = it_key (ml_store S a)"
    "it_value (ml_store (remove_from_list a U) a) = it_value (ml_store S a)"
    "it_expiry_ns (ml_store (remove_from_list a U) a) = it_expiry_ns (ml_store S a)"
  using remove_store [of U a] assms by simp_all

lemma unlink_ip:
  assumes "ml_ok S" "a \<in> set (ml_items S)" "is_in_container (ml_store U a)"
    "insertion_point U = insertion_point S" "ml_items U = ml_items S"
  shows "in_list (insertion_point (remove_from_list a U)) (remove1 a (ml_items S))"
  using remove_ip [of U a] assms ml_okD(1,2) [OF assms(1)] by simp

lemma erase_impl_out:
  assumes ok: "ml_ok S" and k: "ml_map S k = Some a" and h: "\<not> has_active_handle (item S a)"
  shows "retired_out a S (erase_impl k S)" "retired_out a S (erase_expired_impl k S)"
proof -
  have a: "a \<in> set (ml_items S)" "it_key (ml_store S a) = k" using ml_okD(7) [OF ok] k by auto
  note o = ml_okD(5,6) [OF ok a(1)]
  note ip = unlink_ip [OF ok a(1)]
  show "retired_out a S (erase_impl k S)"
    using a o k h
    by (simp add: retired_out_def erase_impl_def erase_as_def took_out_defs cursors_ok_def remove_frame
        unlink_store [OF o] ip)
  show "retired_out a S (erase_expired_impl k S)"
    using a o k h
    by (simp add: retired_out_def erase_expired_impl_def erase_as_def took_out_defs cursors_ok_def remove_frame
        unlink_store [OF o] ip)
qed


lemma take_out_out:
  assumes ok: "ml_ok S" and a: "a \<in> set (ml_items S)"
  shows "retired_out a S (take_out a S)"
proof -
  note o = ml_okD(5,6) [OF ok a] and ip = unlink_ip [OF ok a]
  show ?thesis using a o
    by (simp add: retired_out_def take_out_def took_out_defs cursors_ok_def remove_frame
        unlink_store [OF o] ip)
qed

lemma force_del_out:
  assumes ok: "ml_ok S" and k: "ml_map (cleanup_pending_deletion S) k = Some a"
    and "\<not> (has_active_handle (item S a) \<and> pending_deletion_at_cap (cleanup_pending_deletion S))"
  shows "if has_active_handle (item S a) then pended_out a (cleanup_pending_deletion S) (snd (force_del k S))
     else retired_out a (cleanup_pending_deletion S) (snd (force_del k S))"
    "fst (force_del k S)"
proof -
  let ?S = "cleanup_pending_deletion S"
  have ok': "ml_ok ?S" by (rule cleanup_ok [OF ok])
  have a: "a \<in> set (ml_items ?S)" "it_key (ml_store ?S a) = k" using ml_okD(7) [OF ok'] k by auto
  note o = ml_okD(5,6) [OF ok' a(1)] and ip = unlink_ip [OF ok' a(1), simplified]
  have h: "has_active_handle (ml_store (remove_from_list a U) a) = has_active_handle (ml_store S a)"
    if "ml_store U = ml_store S" for U
    using unlink_store [OF o, of U] o that by (simp add: handle_refs)
  show "fst (force_del k S)" using k assms(3) by (auto simp: force_del_def Let_def item_def)
  show "if has_active_handle (item S a) then pended_out a ?S (snd (force_del k S))
     else retired_out a ?S (snd (force_del k S))"
    using a o k assms(3)
    by (simp add: retired_out_def pended_out_def force_del_def took_out_defs cursors_ok_def remove_frame
        unlink_store [OF o, simplified] ip h)
qed

text \<open>Removal of an item that was claimed first.\<close>

lemma claimed_store:
  assumes "is_in_container (ml_store T a)"
    and U: "ml_store U = (ml_store T)(a := refcount_step markForEviction_try (ml_store T a))"
  shows "b \<noteq> a \<Longrightarrow> same_item (ml_store (remove_from_list a U) b) (ml_store T b)"
    "\<not> is_in_container (ml_store (remove_from_list a U) a)"
    "refs (ml_store (remove_from_list a U) a) = refs (ml_store T a)"
    "it_key (ml_store (remove_from_list a U) a) = it_key (ml_store T a)"
    "it_value (ml_store (remove_from_list a U) a) = it_value (ml_store T a)"
    "it_expiry_ns (ml_store (remove_from_list a U) a) = it_expiry_ns (ml_store T a)"
proof -
  have c: "is_in_container (ml_store U a)" using assms by (simp add: claim_container)
  show "b \<noteq> a \<Longrightarrow> same_item (ml_store (remove_from_list a U) b) (ml_store T b)"
    using remove_store(1) [OF c, of b] U by simp
  show "\<not> is_in_container (ml_store (remove_from_list a U) a)" using remove_store(2) [OF c] .
  show "refs (ml_store (remove_from_list a U) a) = refs (ml_store T a)"
    using remove_store(3) [OF c] U by (simp add: refs_claim)
  show "it_key (ml_store (remove_from_list a U) a) = it_key (ml_store T a)"
    "it_value (ml_store (remove_from_list a U) a) = it_value (ml_store T a)"
    "it_expiry_ns (ml_store (remove_from_list a U) a) = it_expiry_ns (ml_store T a)"
    using remove_store(5,6,7) [OF c] U by simp_all
qed

definition evict_start :: "addr \<Rightarrow> ('k, 'v) mm_lru \<Rightarrow> ('k, 'v) mm_lru" where
  "evict_start a S =
     (let S = on_item a (refcount_step markForEviction_try) S;
          key = it_key (item S a);
          S = on_stats (memory_sub (item_memory S a)) S;
          S = on_stats register_eviction S;
          S = on_stats (\<lambda>st. st\<lparr>evictions_capacity := evictions_capacity st + 1\<rparr>) S;
          S = (if has_eviction_callbacks S then report (On_evict key (it_value (item S a))) S else S)
      in map_erase key S)"

definition evict_finish :: "addr \<Rightarrow> ('k, 'v) mm_lru \<Rightarrow> ('k, 'v) mm_lru" where
  "evict_finish a S =
     (let S = (if unpinned_tail S = None then S\<lparr>unpinned_tail := list_tail S\<rparr> else S);
          S = on_item a (refcount_step unmarkForEviction_try) S;
          S = retire_item a S
      in store_size S)"

lemma evict_lru_eq:
  "find_eviction_victim (cleanup_pending_deletion S) = (Some a, T) \<Longrightarrow>
   fst (on_refcount markForEviction_try (item T a)) = kSuccess \<Longrightarrow>
   evict_lru S = evict_finish a (remove_from_list a (evict_start a T))"
  by (simp only: evict_lru_def evict_start_def evict_finish_def Let_def prod.case option.case if_False simp_thms)

lemma evict_start_frame:
  "ml_store (evict_start a S) = (ml_store S)(a := refcount_step markForEviction_try (ml_store S a))"
  "ml_items (evict_start a S) = ml_items S" "insertion_point (evict_start a S) = insertion_point S"
  "unpinned_tail (evict_start a S) = unpinned_tail S"
  "ml_map (evict_start a S) = (ml_map S)(it_key (ml_store S a) := None)"
  "same_env S (evict_start a S)" "ml_fresh (evict_start a S) = ml_fresh S"
  "pending_deletion (evict_start a S) = pending_deletion S" "ml_retired (evict_start a S) = ml_retired S"
  "ml_index (evict_start a S) = ml_index S"
  "current_memory (ml_stats (evict_start a S)) = current_memory (ml_stats S) - item_memory S a"
  by (simp_all add: evict_start_def Let_def prim_defs register_eviction_def same_env_def item_memory_def
      calc_item_memory_def split: option.split)

lemma evict_finish_frame:
  "ml_store (evict_finish a S) = (ml_store S)(a := refcount_step unmarkForEviction_try (ml_store S a))"
  "ml_items (evict_finish a S) = ml_items S" "insertion_point (evict_finish a S) = insertion_point S"
  "unpinned_tail (evict_finish a S) = (if unpinned_tail S = None then list_tail S else unpinned_tail S)"
  "ml_map (evict_finish a S) = ml_map S" "same_env S (evict_finish a S)" "ml_fresh (evict_finish a S) = ml_fresh S"
  "pending_deletion (evict_finish a S) = pending_deletion S"
  "ml_retired (evict_finish a S) = ml_retired S @ [(if use_ebr (ml_config S) then Ebr else Hazptr, a)]"
  "ml_index (evict_finish a S) = ml_index S"
  "current_memory (ml_stats (evict_finish a S)) = current_memory (ml_stats S)"
  "current_size (ml_stats (evict_finish a S)) = length (ml_items S)"
  by (simp_all add: evict_finish_def Let_def prim_defs store_size_def same_env_def)

lemma remove_env: "is_in_container (ml_store S a) \<Longrightarrow> same_env S (remove_from_list a S)"
  by (simp add: same_env_def remove_frame)

lemma claimed_out:
  assumes ok: "ml_ok T" and a: "a \<in> set (ml_items T)" and u: "unpinned_tail T \<noteq> Some a"
  shows "retired_out a T (evict_finish a (remove_from_list a (evict_start a T)))"
proof -
  let ?U = "evict_start a T" let ?V = "remove_from_list a ?U" let ?W = "evict_finish a ?V"
  note o = ml_okD(5) [OF ok a]
  have c: "is_in_container (ml_store ?U a)" by (simp add: evict_start_frame claim_container o)
  note st = claimed_store [OF o evict_start_frame(1)]
  have env: "same_env T ?W"
    using evict_start_frame(6) remove_env [OF c] evict_finish_frame(6) same_env_trans by blast
  then have cfg: "ml_config ?W = ml_config T" "ml_config ?V = ml_config T"
    using evict_start_frame(6) remove_env [OF c] by (auto simp: same_env_def)
  have i: "ml_items ?W = remove1 a (ml_items T)"
    by (simp add: evict_finish_frame evict_start_frame remove_frame [OF c])
  have cur: "cursors_ok ?W"
    using unlink_ip [OF ok a c evict_start_frame(3,2)] in_remove1 [OF ml_okD(3) [OF ok] u]
    by (simp add: cursors_ok_def evict_finish_frame remove_frame [OF c] evict_start_frame list_tail_def)
  show ?thesis
    unfolding retired_out_def took_out_def
    using env i cur st cfg
    by (simp add: evict_finish_frame evict_start_frame remove_frame [OF c] item_def unmark_exclusive refs_claim
        same_data_def)
qed

lemma evict_lru_cases:
  assumes ok: "ml_ok S"
  obtains (kept) "quiet (cleanup_pending_deletion S) (evict_lru S)" "ml_items (evict_lru S) = ml_items S"
      "fst (find_eviction_victim (cleanup_pending_deletion S)) = None"
  | (evicted) a T where "fst (find_eviction_victim (cleanup_pending_deletion S)) = Some a"
      "quiet (cleanup_pending_deletion S) T" "ml_items T = ml_items S" "a \<in> set (ml_items S)"
      "\<not> has_active_handle (item S a)" "\<not> vetoed S a" "retired_out a T (evict_lru S)"
proof -
  let ?S = "cleanup_pending_deletion S"
  have ok': "ml_ok ?S" by (rule cleanup_ok [OF ok])
  obtain v T where f: "find_eviction_victim ?S = (v, T)" by fastforce
  note q = find_eviction_victim_quiet [OF ok' f]
  have okT: "ml_ok T" by (rule quiet_ok [OF ok' q(1)])
  show ?thesis
  proof (cases v)
    case None
    then have "evict_lru S = store_size T" by (simp add: evict_lru_def f)
    moreover have "quiet T (store_size T)"
      using ml_okD(8) [OF okT] ml_okD(4) [OF okT]
      by (simp add: quiet_def prim_defs store_size_def same_env_def cursors_ok_def)
    ultimately show ?thesis using kept q None f quiet_trans by (auto simp: store_size_def prim_defs)
  next
    case (Some a)
    note v = q(3) [OF Some]
    have a: "a \<in> set (ml_items T)" using v q(2) by simp
    note o = ml_okD(5,6) [OF okT a]
    have h: "\<not> has_active_handle (ml_store T a)"
      using v q(1) by (auto simp: quiet_def item_def dest: same_item_status(6))
    have c: "fst (on_refcount markForEviction_try (item T a)) = kSuccess"
      using claim_iff [OF o(2)] o h by (simp add: item_def)
    have "retired_out a T (evict_lru S)"
      using claimed_out [OF okT a] v evict_lru_eq [OF _ c] f Some by simp
    with f q v Some show ?thesis by (intro evicted [of a T]) simp_all
  qed
qed


section \<open>Operations that only let items go\<close>

text \<open>
  \<open>lets_go S T\<close>: from \<open>S\<close> to \<open>T\<close> some items without handles left the cache. No item's data
  changed and no handle was taken or released.
\<close>

definition lets_go :: "('k, 'v) mm_lru \<Rightarrow> ('k, 'v) mm_lru \<Rightarrow> bool" where
  "lets_go S T \<longleftrightarrow>
     ml_ok T \<and> (ttl_ok S \<longrightarrow> ttl_ok T) \<and> same_env S T \<and> ml_fresh T = ml_fresh S \<and>
     set (ml_items T) \<subseteq> set (ml_items S) \<and> length (ml_items T) \<le> length (ml_items S) \<and>
     (\<forall>a. same_data (item T a) (item S a)) \<and>
     (\<forall>a \<in> set (ml_items S). refs (item S a) > 0 \<longrightarrow> a \<in> set (ml_items T))"

lemma lets_go_refl: "ml_ok S \<Longrightarrow> lets_go S S"
  by (simp add: lets_go_def)

lemma lets_go_trans:
  assumes "lets_go S T" "lets_go T U" shows "lets_go S U"
proof -
  have "same_data (item U a) (item S a)" for a
    using assms same_data_trans unfolding lets_go_def by blast
  moreover have "same_env S U" using assms same_env_trans unfolding lets_go_def by blast
  moreover have "refs (item T a) = refs (item S a)" for a using assms by (simp add: lets_go_def same_data_def)
  ultimately show ?thesis using assms unfolding lets_go_def by auto
qed

lemma lets_go_quiet: "ml_ok S \<Longrightarrow> quiet S T \<Longrightarrow> lets_go S T"
  using quiet_ok [of S T] quiet_ttl [of S T] same_item_data
  unfolding lets_go_def quiet_def by (auto dest: mset_eq_setD mset_eq_length)

lemma lets_go_cleanup: "ml_ok S \<Longrightarrow> lets_go S (cleanup_pending_deletion S)"
  by (simp add: lets_go_def cleanup_ok cleanup_ttl)

lemma lets_go_retired:
  assumes "ml_ok S" "a \<in> set (ml_items S)" "\<not> has_active_handle (item S a)" "retired_out a S T"
  shows "lets_go S T"
proof -
  have t: "took_out a S T" using assms(4) by (simp add: retired_out_def)
  have "same_data (item T b) (item S b)" for b
    using t same_item_data by (cases "b = a") (auto simp: took_out_def)
  moreover have "refs (item S a) = 0"
    using assms(1-3) handle_refs [of "item S a"] by (simp add: ml_okD item_def)
  ultimately show ?thesis
    using retired_out_ok [OF assms] took_out_ttl [OF assms(1,2) t] t assms(1)
    by (auto simp: lets_go_def took_out_def ml_okD notin_set_remove1 length_remove1)
qed

lemma lets_go_evict: assumes "ml_ok S" shows "lets_go S (evict_lru S)"
  using assms
proof (cases rule: evict_lru_cases)
  case kept
  then show ?thesis
    using lets_go_cleanup [OF assms] lets_go_quiet cleanup_ok [OF assms] lets_go_trans by blast
next
  case (evicted a T)
  have okT: "ml_ok T" using quiet_ok [OF cleanup_ok [OF assms] evicted(2)] .
  have "has_active_handle (item T a) = has_active_handle (item S a)"
    using evicted(2) by (auto simp: quiet_def dest: same_item_status(6))
  then have "lets_go T (evict_lru S)"
    using lets_go_retired [OF okT] evicted by simp
  then show ?thesis
    using lets_go_cleanup [OF assms] lets_go_quiet [OF cleanup_ok [OF assms] evicted(2)] lets_go_trans by blast
qed

lemma lets_go_shrink: "ml_ok S \<Longrightarrow> lets_go S (shrink_to_fit S)"
proof (induction S rule: shrink_to_fit.induct)
  case (1 S)
  note e = lets_go_evict [OF 1(2)]
  then have ok: "ml_ok (evict_lru S)" by (simp add: lets_go_def)
  show ?case
    using 1(1) [OF _ refl _ ok] e lets_go_trans [OF e] lets_go_refl [OF 1(2)]
    by (subst shrink_to_fit.simps) (simp add: Let_def)
qed

lemma lets_go_stats:
  assumes "lets_go S T" "current_size (f (ml_stats T)) = current_size (ml_stats T)"
    "current_memory (f (ml_stats T)) = current_memory (ml_stats T)"
  shows "lets_go S (on_stats f T)"
proof -
  have "ml_ok T" using assms(1) by (simp add: lets_go_def)
  moreover then have "quiet T (on_stats f T)"
    using assms(2,3) by (simp add: quiet_def on_stats_def same_env_def item_def ml_okD cursors_ok_def)
  ultimately show ?thesis using lets_go_quiet lets_go_trans [OF assms(1)] by blast
qed

lemma lets_go_make_room: "ml_ok S \<Longrightarrow> lets_go S (snd (make_room S))"
proof (induction S rule: make_room.induct)
  case (1 S)
  note e = lets_go_evict [OF 1(2)]
  then have ok: "ml_ok (evict_lru S)" by (simp add: lets_go_def)
  show ?case
    using 1(1) [OF _ refl _ ok] lets_go_stats [OF e] lets_go_trans [OF e] lets_go_refl [OF 1(2)]
    by (subst make_room.simps) (simp add: Let_def)
qed

lemma lets_go_make_memory_room: "ml_ok S \<Longrightarrow> lets_go S (snd (make_memory_room m S))"
proof (induction m S rule: make_memory_room.induct)
  case (1 m S)
  note e = lets_go_evict [OF 1(2)]
  then have ok: "ml_ok (evict_lru S)" by (simp add: lets_go_def)
  show ?case
    using 1(1) [OF _ refl _ ok] e lets_go_trans [OF e] lets_go_refl [OF 1(2)]
    by (subst make_memory_room.simps) (simp add: Let_def)
qed

end
