(* ===== verification/Mm_Lru_Safe.thy ===== *)
theory Mm_Lru_Safe
  imports Mm_Lru_Inv
begin

text \<open>
  Every public operation of \<^verbatim>\<open>mm_lru\<close> keeps the invariant of theory \<open>Mm_Lru_Inv\<close>, the step
  relation of a client that holds read handles, and the safety of every sequence of
  operations.
\<close>

section \<open>Promotion\<close>

lemma reconfigure_frame [simp]:
  "ml_store (reconfigure_locked t S) = ml_store S" "ml_items (reconfigure_locked t S) = ml_items S"
  "insertion_point (reconfigure_locked t S) = insertion_point S"
  "unpinned_tail (reconfigure_locked t S) = unpinned_tail S"
  "ml_fresh (reconfigure_locked t S) = ml_fresh S" "ml_map (reconfigure_locked t S) = ml_map S"
  "pending_deletion (reconfigure_locked t S) = pending_deletion S"
  "ml_retired (reconfigure_locked t S) = ml_retired S" "ml_index (reconfigure_locked t S) = ml_index S"
  "ml_stats (reconfigure_locked t S) = ml_stats S" "same_env S (reconfigure_locked t S)"
  by (simp_all add: reconfigure_locked_def Let_def same_env_def)

lemma same_envD:
  assumes "same_env S T"
  shows "key_size_fn T = key_size_fn S" "value_size_fn T = value_size_fn S"
    "item_overhead T = item_overhead S" "ml_max_size T = ml_max_size S"
    "ml_max_memory T = ml_max_memory S" "ml_config T = ml_config S"
    "eviction_predicate T = eviction_predicate S" "now_ns T = now_ns S" "now_sec T = now_sec S"
  using assms by (simp_all add: same_env_def)

lemma move_to_head_mset:
  "a \<in> set (ml_items S) \<Longrightarrow> mset (ml_items (items_move_to_head a S)) = mset (ml_items S)"
  by (simp add: items_move_to_head_def)

lemma move_to_head_frame [simp]:
  "ml_store (items_move_to_head a S) = ml_store S"
  "insertion_point (items_move_to_head a S) = insertion_point S"
  "unpinned_tail (items_move_to_head a S) = unpinned_tail S"
  "ml_fresh (items_move_to_head a S) = ml_fresh S" "ml_map (items_move_to_head a S) = ml_map S"
  "pending_deletion (items_move_to_head a S) = pending_deletion S"
  "ml_retired (items_move_to_head a S) = ml_retired S" "ml_index (items_move_to_head a S) = ml_index S"
  "ml_stats (items_move_to_head a S) = ml_stats S" "same_env S (items_move_to_head a S)"
  by (simp_all add: items_move_to_head_def same_env_def)

lemma core_same_env: "core S = core T \<Longrightarrow> same_env S T"
  using core_eqD [of S T] by (simp add: same_env_def)

lemmas frame_env [simp] = core_same_env [OF core_update [symmetric]] core_same_env [OF core_ensure [symmetric]]
  core_same_env [OF core_leave [symmetric]]

lemma in_list_set: "set xs = set ys \<Longrightarrow> in_list p xs = in_list p ys"
  by (simp add: in_list_def split: option.split)

lemma cursors_okD:
  assumes "cursors_ok S"
  shows "in_list (unpinned_tail S) (ml_items S)" "in_list (insertion_point S) (ml_items S)"
  using assms by (simp_all add: cursors_ok_def)

lemma promote_quiet:
  assumes ok: "cursors_ok S" and a: "a \<in> set (ml_items S)"
  shows "quiet S (promote_locked a cur S)"
proof -
  define R where "R = ensure_not_insertion_point a (reconfigure_locked cur S)"
  define U where "U = on_item a (\<lambda>i. i\<lparr>it_update_time := cur\<rparr>) (items_move_to_head a R)"
  define V where "V = (on_item a (\<lambda>i. i\<lparr>it_tail := False\<rparr>) U)\<lparr>tail_size := tail_size U - 1\<rparr>"
  have e: "promote_locked a cur S = (if it_tail (item U a) then update_lru_insertion_point V else U)"
    by (simp add: promote_locked_def R_def U_def V_def Let_def)
  have R: "ml_items R = ml_items S" "in_list (insertion_point R) (ml_items S)" "same_env S R"
    using ensure_ip(1) [of "reconfigure_locked cur S" a] cursors_okD(2) [OF ok]
      same_env_trans [OF reconfigure_frame(11) frame_env(2)]
    by (simp_all add: R_def)
  have m: "mset (ml_items U) = mset (ml_items S)"
    using move_to_head_mset [of a R] a R by (simp add: U_def on_item_def)
  have ip: "in_list (insertion_point U) (ml_items U)" "in_list (unpinned_tail U) (ml_items U)"
    using R(2) in_list_set [OF mset_eq_setD [OF m]] cursors_okD(1) [OF ok]
    by (simp_all add: U_def R_def on_item_def)
  have env: "same_env S U" using R(3) same_env_trans [OF R(3) move_to_head_frame(10)]
    by (simp add: U_def on_item_def same_env_def)
  have q: "quiet S U"
    using env m ip by (simp add: quiet_def cursors_ok_def) (simp add: U_def R_def prim_defs same_item_def)
  have "in_list (insertion_point (update_lru_insertion_point V)) (ml_items U)"
    using update_ip [of V] ip by (simp add: V_def on_item_def)
  then have "quiet U (update_lru_insertion_point V)"
    using ip same_env_trans [OF _ frame_env(1), of U V]
    by (simp add: quiet_def cursors_ok_def same_item_def item_def)
      (simp add: V_def on_item_def same_env_def)
  with q e quiet_trans [OF q] show ?thesis by simp
qed


lemma record_access_at_quiet:
  assumes ok: "cursors_ok S" and a: "a \<in> set (ml_items S)"
  shows "quiet S (snd (record_access_at a mode cur S))"
proof -
  define T where "T = (if it_accessed (item S a) then S else on_item a (\<lambda>i. i\<lparr>it_accessed := True\<rparr>) S)"
  have i: "ml_items T = ml_items S" "cursors_ok T"
    using ok by (simp_all add: T_def on_item_def cursors_ok_def)
  have q: "quiet S T" using ok by (auto simp: T_def prim_defs quiet_def cursors_ok_def same_env_def)
  have p: "quiet S (promote_locked a cur T)"
    using promote_quiet [OF i(2)] a i(1) quiet_trans [OF q] by simp
  have st: "quiet S (on_stats (\<lambda>st. st\<lparr>try_lock_fail_count := try_lock_fail_count st + 1\<rparr>) T)"
    using q by (simp add: quiet_def cursors_ok_def on_stats_def same_env_def item_def)
  show ?thesis
    using quiet_refl [OF ok] p st
    by (simp add: record_access_at_def T_def [symmetric] Let_def)
qed

lemma record_access_quiet:
  "cursors_ok S \<Longrightarrow> a \<in> set (ml_items S) \<Longrightarrow> quiet S (snd (record_access a mode S))"
  unfolding record_access_def by (rule record_access_at_quiet)

lemma report_quiet: "cursors_ok S \<Longrightarrow> quiet S (report e S)"
  by (simp add: quiet_def report_def cursors_ok_def same_env_def item_def)

lemma stats_quiet:
  "cursors_ok S \<Longrightarrow> current_size (f (ml_stats S)) = current_size (ml_stats S) \<Longrightarrow>
   current_memory (f (ml_stats S)) = current_memory (ml_stats S) \<Longrightarrow> quiet S (on_stats f S)"
  by (simp add: quiet_def on_stats_def cursors_ok_def same_env_def item_def)

lemma quiet_cursors: "quiet S T \<Longrightarrow> cursors_ok T"
  by (simp add: quiet_def)

section \<open>Update in place\<close>

text \<open>\<open>revalued a v S T\<close>: item \<open>a\<close> has value \<open>v\<close> and the memory account follows.\<close>

definition revalued :: "addr \<Rightarrow> 'v \<Rightarrow> ('k, 'v) mm_lru \<Rightarrow> ('k, 'v) mm_lru \<Rightarrow> bool" where
  "revalued a v S T \<longleftrightarrow>
     same_env S T \<and> ml_fresh T = ml_fresh S \<and> mset (ml_items T) = mset (ml_items S) \<and>
     ml_map T = ml_map S \<and> (\<forall>b. b \<noteq> a \<longrightarrow> same_item (item T b) (item S b)) \<and>
     same_item (item T a) ((item S a)\<lparr>it_value := v\<rparr>) \<and>
     pending_deletion T = pending_deletion S \<and> ml_retired T = ml_retired S \<and>
     current_size (ml_stats T) = current_size (ml_stats S) \<and>
     current_memory (ml_stats T) = current_memory (ml_stats S) - item_memory S a + item_memory T a \<and>
     ml_index T = ml_index S \<and> cursors_ok T"

lemma same_item_value:
  assumes "same_item i (j\<lparr>it_value := v\<rparr>)"
  shows "it_key i = it_key j" "it_value i = v" "it_expiry_ns i = it_expiry_ns j"
    "refs i = refs j" "is_in_container i = is_in_container j" "has_active_handle i = has_active_handle j"
    "unclaimed i = unclaimed j"
  using same_item_status [OF assms] by simp_all

lemma revalued_data:
  assumes "revalued a v S T"
  shows "it_key (item T b) = it_key (item S b)" "it_expiry_ns (item T b) = it_expiry_ns (item S b)"
    "refs (item T b) = refs (item S b)" "is_in_container (item T b) = is_in_container (item S b)"
    "unclaimed (item T b) = unclaimed (item S b)"
    "it_value (item T b) = (if b = a then v else it_value (item S b))"
  using assms same_item_value [of "item T a" v "item S a"] same_item_status [of "item T b" "item S b"]
  by (cases "b = a"; simp add: revalued_def)+

lemma sum_list_map_update:
  fixes f g :: "'a \<Rightarrow> 'b :: ab_group_add"
  assumes "a \<in> set xs" "distinct xs" "\<And>b. b \<noteq> a \<Longrightarrow> g b = f b"
  shows "sum_list (map g xs) = sum_list (map f xs) - f a + g a"
proof -
  have "sum_list (map g (remove1 a xs)) = sum_list (map f (remove1 a xs))"
    using assms by (intro arg_cong [of _ _ sum_list] map_cong) auto
  then show ?thesis using sum_list_map_remove1 [OF assms(1), of f] sum_list_map_remove1 [OF assms(1), of g]
    by simp
qed

lemma revalued_ok:
  assumes ok: "ml_ok S" and a: "a \<in> set (ml_items S)" and r: "revalued a v S T"
  shows "ml_ok T"
proof -
  note d = revalued_data [OF r]
  have m: "mset (ml_items T) = mset (ml_items S)" using r by (simp add: revalued_def)
  have st: "set (ml_items T) = set (ml_items S)" "length (ml_items T) = length (ml_items S)"
    "distinct (ml_items T) = distinct (ml_items S)"
    using m by (metis set_mset_mset, metis size_mset, metis mset_eq_imp_distinct_iff)
  have mem: "item_memory T b = item_memory S b" if "b \<noteq> a" for b
    using that d same_env_memory [of S T] r by (simp add: revalued_def item_memory_def)
  have "(\<Sum>b \<leftarrow> ml_items T. item_memory T b) =
      (\<Sum>b \<leftarrow> ml_items S. item_memory S b) - item_memory S a + item_memory T a"
    using sum_list_map_update [OF a _ mem] sum_list_mset_eq [OF m, of "item_memory T"] ml_okD(1) [OF ok]
    by simp
  then have "counts_ok T" using ok r st by (simp add: ml_ok_def counts_ok_def revalued_def)
  then show ?thesis
    using ok r st d by (simp add: ml_ok_def addrs_ok_def items_ok_def map_ok_def revalued_def)
qed

lemma revalued_ttl: "revalued a v S T \<Longrightarrow> ttl_ok S \<Longrightarrow> ttl_ok T"
  using revalued_data(2) [of a v S T]
  by (auto simp: ttl_ok_def lru_live_def [abs_def] revalued_def cong: map_option_cong)

lemma item_memory_stats [simp]: "item_memory (on_stats f S) a = item_memory S a"
  by (simp add: item_memory_def on_stats_def item_def calc_item_memory_def)

lemma update_existing_cases:
  assumes ok: "ml_ok S" and a: "a \<in> set (ml_items S)"
  obtains T U where "revalued a v S T" "lets_go T U" "quiet U (update_existing a v mode S)"
    "U = (if should_evict T then shrink_to_fit T else T)"
proof -
  let ?S1 = "on_item a (\<lambda>i. i\<lparr>it_value := v\<rparr>) S"
  let ?S2 = "snd (record_access_at a mode (now_sec ?S1) ?S1)"
  let ?new = "item_memory ?S2 a" and ?old = "item_memory S a"
  define T where "T = (if ?new > ?old then on_stats (memory_add (?new - ?old)) ?S2
    else if ?new < ?old then on_stats (memory_sub (?old - ?new)) ?S2 else ?S2)"
  define U where "U = (if should_evict T then shrink_to_fit T else T)"
  have e: "update_existing a v mode S = report (On_update (it_key (item U a)) (it_value (item U a))) U"
    by (simp add: update_existing_def T_def U_def Let_def split_beta)
  have q: "quiet ?S1 ?S2"
    using record_access_at_quiet [of ?S1 a] a ml_okD(4) [OF ok] by (simp add: on_item_def cursors_ok_def)
  have mem: "item_memory T a = ?new" by (simp add: T_def)
  have "current_memory (ml_stats T) = current_memory (ml_stats S) - ?old + ?new"
    using q unfolding T_def quiet_def on_stats_def memory_add_def memory_sub_def on_item_def by auto
  moreover have "same_item (item T b) (item ?S2 b)" "same_env ?S2 T" "ml_fresh T = ml_fresh ?S2"
    "ml_items T = ml_items ?S2" "ml_map T = ml_map ?S2" "pending_deletion T = pending_deletion ?S2"
    "ml_retired T = ml_retired ?S2" "current_size (ml_stats T) = current_size (ml_stats ?S2)"
    "ml_index T = ml_index ?S2" "cursors_ok T = cursors_ok ?S2" for b
    by (simp_all add: T_def prim_defs same_env_def cursors_ok_def)
  ultimately have r: "revalued a v S T"
    using q mem by (auto simp: revalued_def quiet_def prim_defs same_item_def same_env_def)
  have okT: "ml_ok T" by (rule revalued_ok [OF ok a r])
  have l: "lets_go T U" using lets_go_shrink [OF okT] lets_go_refl [OF okT] by (simp add: U_def)
  then have "cursors_ok U" using ml_okD(4) [of U] by (simp add: lets_go_def)
  then have "quiet U (update_existing a v mode S)" unfolding e by (rule report_quiet)
  with r l U_def show ?thesis using that by blast
qed


section \<open>The TTL index\<close>

lemma set_index_push:
  "set (th_heap (ttl_index_push D s key e H)) =
     (if needs_rebuild (th_push key e H) (ttl_live_count D s) kMaxTtlHeapMultiplier
      then set (th_heap (rebuild (ttl_for_each_live D s) (th_push key e H)))
      else (if e = 0 then {} else {\<lparr>expiry_ns = e, entry_key = key\<rparr>}) \<union> set (th_heap H))"
proof -
  have "set (th_heap (th_push key e H)) = set_mset (mset (th_heap (th_push key e H)))" by simp
  then show ?thesis unfolding mset_th_push by (simp add: ttl_index_push_def ttl_index_rebuild_def Let_def)
qed

lemma th_ok_index_push: "th_ok H \<Longrightarrow> th_ok (ttl_index_push D s key e H)"
  by (auto simp: ttl_index_push_def ttl_index_rebuild_def Let_def th_ok_rebuild)

lemma live_emitted:
  assumes "map_ok S" "lru_live S k = Some e" "e \<noteq> 0"
  shows "(k, e) \<in> set (lru_ttl_for_each_live S)"
  using assms by (force simp: lru_live_def map_ok_def lru_ttl_for_each_live_def)

text \<open>
  Recording an expiry repairs an index that knew every expiry but the one of \<open>key\<close>.
\<close>

lemma ttl_heap_push_ok:
  assumes "map_ok S" "th_ok (ml_index S)" "\<forall>a \<in> set (th_heap (ml_index S)). expiry_ns a \<noteq> 0"
    "indexed ((lru_live S)(key := None)) (ml_index S)" "lru_live S key = Some e \<or> lru_live S key = None" "e \<noteq> 0"
  shows "ttl_ok (ttl_heap_push key e S)"
proof -
  have l: "lru_live (ttl_heap_push key e S) = lru_live S"
    by (simp add: lru_live_def [abs_def] ttl_heap_push_def item_def)
  have "\<lparr>expiry_ns = x, entry_key = k\<rparr> \<in> set (th_heap (ml_index (ttl_heap_push key e S)))"
    if "lru_live S k = Some x" "x \<noteq> 0" for k x
    using assms that live_emitted [OF assms(1) that]
    by (cases "k = key") (force simp: ttl_heap_push_def set_index_push set_rebuild lru_ttl_def indexed_def)+
  moreover have "\<forall>a \<in> set (th_heap (ml_index (ttl_heap_push key e S))). expiry_ns a \<noteq> 0"
    using assms by (auto simp: ttl_heap_push_def set_index_push set_rebuild lru_ttl_def)
  ultimately show ?thesis
    using l assms(2) by (auto simp: ttl_ok_def indexed_def ttl_heap_push_def th_ok_index_push)
qed

lemma ttl_heap_push_frame [simp]:
  "ml_store (ttl_heap_push k e S) = ml_store S" "ml_items (ttl_heap_push k e S) = ml_items S"
  "insertion_point (ttl_heap_push k e S) = insertion_point S"
  "unpinned_tail (ttl_heap_push k e S) = unpinned_tail S"
  "ml_fresh (ttl_heap_push k e S) = ml_fresh S" "ml_map (ttl_heap_push k e S) = ml_map S"
  "pending_deletion (ttl_heap_push k e S) = pending_deletion S"
  "ml_retired (ttl_heap_push k e S) = ml_retired S"
  "ml_stats (ttl_heap_push k e S) = ml_stats S" "same_env S (ttl_heap_push k e S)"
  "ml_config (ttl_heap_push k e S) = ml_config S"
  by (simp_all add: ttl_heap_push_def same_env_def)

section \<open>Insertion\<close>

lemma link_new_mset: "mset (ml_items (link_new a S)) = add_mset a (mset (ml_items S))"
proof -
  have "mset (takeWhile P xs) + mset (dropWhile P xs) = mset xs" for P and xs :: "addr list"
    by (metis mset_append takeWhile_dropWhile_id)
  then show ?thesis
    by (simp add: link_new_def list_link_at_head_def list_insert_before_def split: option.split)
qed

lemma link_new_frame [simp]:
  "ml_store (link_new a S) = ml_store S" "insertion_point (link_new a S) = insertion_point S"
  "unpinned_tail (link_new a S) = unpinned_tail S"
  "ml_fresh (link_new a S) = ml_fresh S" "ml_map (link_new a S) = ml_map S"
  "pending_deletion (link_new a S) = pending_deletion S" "ml_retired (link_new a S) = ml_retired S"
  "ml_stats (link_new a S) = ml_stats S" "ml_index (link_new a S) = ml_index S" "same_env S (link_new a S)"
  "ml_config (link_new a S) = ml_config S"
  by (simp_all add: link_new_def list_link_at_head_def list_insert_before_def same_env_def split: option.split)

definition linked_in :: "'k \<Rightarrow> 'v \<Rightarrow> u64 \<Rightarrow> ('k, 'v) mm_lru \<Rightarrow> ('k, 'v) mm_lru \<Rightarrow> bool" where
  "linked_in k v e S T \<longleftrightarrow>
     same_env S T \<and> ml_fresh T = ml_fresh S + 1 \<and>
     mset (ml_items T) = add_mset (ml_fresh S) (mset (ml_items S)) \<and>
     ml_map T = (ml_map S)(k := Some (ml_fresh S)) \<and>
     (\<forall>b. b \<noteq> ml_fresh S \<longrightarrow> same_item (item T b) (item S b)) \<and>
     is_in_container (item T (ml_fresh S)) \<and> unclaimed (item T (ml_fresh S)) \<and>
     same_data (item T (ml_fresh S)) ((new_item k v)\<lparr>it_expiry_ns := e\<rparr>) \<and>
     pending_deletion T = pending_deletion S \<and> ml_retired T = ml_retired S \<and>
     current_size (ml_stats T) = length (ml_items T) \<and>
     current_memory (ml_stats T) = current_memory (ml_stats S) + calc_item_memory S k v \<and>
     cursors_ok T"

lemma linked_in_ok:
  assumes ok: "ml_ok S" and k: "ml_map S k = None" and l: "linked_in k v e S T"
  shows "ml_ok T"
proof -
  let ?a = "ml_fresh S"
  have m: "mset (ml_items T) = add_mset ?a (mset (ml_items S))" using l by (simp add: linked_in_def)
  have n: "?a \<notin> set (ml_items S)" "?a \<notin> set (pending_deletion S)" "?a \<notin> snd ` set (ml_retired S)"
    using ok by (auto simp: ml_ok_def addrs_ok_def)
  have st: "set (ml_items T) = insert ?a (set (ml_items S))" "distinct (ml_items T)"
    "mset (ml_items T) = mset (?a # ml_items S)"
    using m n ml_okD(1) [OF ok]
    by (metis set_mset_add_mset_insert set_mset_mset, metis distinct.simps(2) mset.simps(2) mset_eq_imp_distinct_iff, simp)
  have s: "b \<noteq> ?a \<Longrightarrow> same_item (item T b) (item S b)" for b using l by (simp add: linked_in_def)
  have new: "it_key (item T ?a) = k" "it_value (item T ?a) = v" using l by (simp_all add: linked_in_def same_data_def)
  have c: "calc_item_memory T = calc_item_memory S" using l same_env_memory by (auto simp: linked_in_def)
  have mem: "item_memory T b = item_memory S b" if "b \<in> set (ml_items S)" for b
  proof -
    have "b \<noteq> ?a" using that n(1) by blast
    from same_item_status [OF s [OF this]] c show ?thesis by (simp add: item_memory_def)
  qed
  have "(\<Sum>b \<leftarrow> ml_items T. item_memory T b) = calc_item_memory S k v + (\<Sum>b \<leftarrow> ml_items S. item_memory S b)"
    using sum_list_mset_eq [OF st(3), of "item_memory T"] mem new c
    by (simp add: item_memory_def [of T ?a] cong: map_cong)
  then have "counts_ok T" using ok l by (simp add: ml_ok_def counts_ok_def linked_in_def)
  moreover have "addrs_ok T" using ok l n st by (auto simp: ml_ok_def addrs_ok_def linked_in_def intro: less_SucI)
  moreover have old: "is_in_container (item T b) = is_in_container (item S b) \<and>
      unclaimed (item T b) = unclaimed (item S b) \<and> refs (item T b) = refs (item S b)"
    if "b \<in> set (ml_items S) \<or> b \<in> set (pending_deletion S) \<or> b \<in> snd ` set (ml_retired S)" for b
    using that n same_item_status(4,5,7) [OF s [of b]] by (cases "b = ?a") simp_all
  have "items_ok T"
    using ok l st(1) old by (simp add: ml_ok_def items_ok_def linked_in_def)
  moreover note this
  moreover have "map_ok T"
    unfolding map_ok_def
  proof (intro allI)
    fix j b
    show "ml_map T j = Some b \<longleftrightarrow> b \<in> set (ml_items T) \<and> it_key (item T b) = j"
      using l n(1) st(1) new same_item_status(1) [OF s [of b]] ml_okD(7) [OF ok, of j b] ml_okD(7) [OF ok, of k b] k
      by (cases "b = ?a") (auto simp: linked_in_def item_def)
  qed
  ultimately show ?thesis using l by (simp add: ml_ok_def linked_in_def)
qed


definition new_node :: "'k \<Rightarrow> 'v \<Rightarrow> u64 \<Rightarrow> ('k, 'v) mm_lru \<Rightarrow> ('k, 'v) mm_lru" where
  "new_node key value expiry S =
     (let (a, S) = allocate_item key value S;
          S = on_item a (\<lambda>i. i\<lparr>it_update_time := now_sec S, it_accessed := False\<rparr>) S
      in if expiry \<noteq> 0 then on_item a (\<lambda>i. i\<lparr>it_expiry_ns := expiry\<rparr>) S else S)"

lemma new_node_frame:
  "b \<noteq> ml_fresh S \<Longrightarrow> ml_store (new_node k v e S) b = ml_store S b"
  "\<not> is_in_container (ml_store (new_node k v e S) (ml_fresh S))"
  "unclaimed (ml_store (new_node k v e S) (ml_fresh S))"
  "it_key (ml_store (new_node k v e S) (ml_fresh S)) = k"
  "it_value (ml_store (new_node k v e S) (ml_fresh S)) = v"
  "it_expiry_ns (ml_store (new_node k v e S) (ml_fresh S)) = e"
  "refs (ml_store (new_node k v e S) (ml_fresh S)) = 0"
  "ml_items (new_node k v e S) = ml_items S" "insertion_point (new_node k v e S) = insertion_point S"
  "unpinned_tail (new_node k v e S) = unpinned_tail S" "ml_fresh (new_node k v e S) = ml_fresh S + 1"
  "ml_map (new_node k v e S) = ml_map S" "pending_deletion (new_node k v e S) = pending_deletion S"
  "ml_retired (new_node k v e S) = ml_retired S" "ml_stats (new_node k v e S) = ml_stats S"
  "ml_index (new_node k v e S) = ml_index S" "same_env S (new_node k v e S)"
  by (simp_all add: new_node_def allocate_item_def on_item_def Let_def same_env_def)

definition put_in :: "'k \<Rightarrow> addr \<Rightarrow> ('k, 'v) mm_lru \<Rightarrow> ('k, 'v) mm_lru" where
  "put_in key a S = map_insert key a (on_item a (refcount_step markInMMContainer_try) (link_new a S))"

lemma put_in_frame:
  "ml_store (put_in k a S) = (ml_store S)(a := refcount_step markInMMContainer_try (ml_store S a))"
  "mset (ml_items (put_in k a S)) = add_mset a (mset (ml_items S))"
  "ml_map S k = None \<Longrightarrow> ml_map (put_in k a S) = (ml_map S)(k := Some a)"
  "insertion_point (put_in k a S) = insertion_point S"
  "unpinned_tail (put_in k a S) = unpinned_tail S" "ml_fresh (put_in k a S) = ml_fresh S"
  "pending_deletion (put_in k a S) = pending_deletion S" "ml_retired (put_in k a S) = ml_retired S"
  "ml_stats (put_in k a S) = ml_stats S" "ml_index (put_in k a S) = ml_index S" "same_env S (put_in k a S)"
  using link_new_frame(10) [of S a] link_new_mset [of a S]
  by (simp_all add: put_in_def map_insert_def on_item_def same_env_def)

definition account :: "'k \<Rightarrow> addr \<Rightarrow> u64 \<Rightarrow> ('k, 'v) mm_lru \<Rightarrow> ('k, 'v) mm_lru" where
  "account key a mem S =
     (let S = store_size S;
          S = on_stats (memory_add mem) S;
          S = on_stats register_insertion S
      in report (On_insert key (it_value (item S a))) S)"

lemma account_frame:
  "ml_store (account k a m S) = ml_store S" "ml_items (account k a m S) = ml_items S"
  "ml_map (account k a m S) = ml_map S" "insertion_point (account k a m S) = insertion_point S"
  "unpinned_tail (account k a m S) = unpinned_tail S" "ml_fresh (account k a m S) = ml_fresh S"
  "pending_deletion (account k a m S) = pending_deletion S" "ml_retired (account k a m S) = ml_retired S"
  "ml_index (account k a m S) = ml_index S" "same_env S (account k a m S)"
  "current_size (ml_stats (account k a m S)) = length (ml_items S)"
  "current_memory (ml_stats (account k a m S)) = current_memory (ml_stats S) + m"
  by (simp_all add: account_def Let_def prim_defs store_size_def register_insertion_def same_env_def)

lemma insert_item_eq:
  "insert_item k v e mem S =
     (let T = put_in k (ml_fresh S) (new_node k v e S)
      in update_lru_insertion_point (account k (ml_fresh S) mem (if e \<noteq> 0 then ttl_heap_push k e T else T)))"
  by (simp only: insert_item_def new_node_def put_in_def account_def Let_def allocate_item_def prod.case)

lemma insert_item_linked:
  assumes ok: "ml_ok S" and k: "ml_map S k = None" and mem: "mem = calc_item_memory S k v"
  shows "linked_in k v e S (insert_item k v e mem S)"
    "ttl_ok S \<Longrightarrow> ttl_ok (insert_item k v e mem S)"
proof -
  let ?a = "ml_fresh S"
  let ?N = "new_node k v e S"
  let ?T = "put_in k ?a ?N"
  let ?P = "if e \<noteq> 0 then ttl_heap_push k e ?T else ?T"
  let ?A = "account k ?a mem ?P"
  let ?U = "update_lru_insertion_point ?A"
  have eq: "insert_item k v e mem S = ?U" by (simp add: insert_item_eq Let_def)
  have T: "same_env S ?T" by (rule same_env_trans [OF new_node_frame(17) put_in_frame(11)])
  then have "same_env S ?P" using same_env_trans [OF T ttl_heap_push_frame(10)] by (cases "e = 0") simp_all
  then have env: "same_env S ?U"
    by (rule same_env_trans [OF same_env_trans [OF _ account_frame(10)] frame_env(1)])
  have m: "mset (ml_items ?T) = add_mset ?a (mset (ml_items S))" by (simp add: put_in_frame new_node_frame)
  then have st: "set (ml_items ?T) = insert ?a (set (ml_items S))"
    by (metis set_mset_add_mset_insert set_mset_mset)
  have P: "ml_items ?A = ml_items ?T" "ml_items ?U = ml_items ?T" by (simp_all add: account_frame)
  have ip: "in_list (insertion_point ?A) (ml_items ?A)" "in_list (unpinned_tail ?U) (ml_items ?T)"
    using in_list_mono [OF ml_okD(2) [OF ok]] in_list_mono [OF ml_okD(3) [OF ok]] st
    by (auto simp add: account_frame put_in_frame new_node_frame)
  have cur: "cursors_ok ?U" using update_ip [OF ip(1)] ip(2) P by (simp add: cursors_ok_def)
  show l: "linked_in k v e S (insert_item k v e mem S)"
    unfolding eq linked_in_def using env cur m mem
    by (auto simp: P account_frame put_in_frame new_node_frame k item_def same_item_def same_data_def
        mark_in_container refs_container)
  show "ttl_ok (insert_item k v e mem S)" if t: "ttl_ok S"
  proof -
    have okU: "ml_ok ?U" using linked_in_ok [OF ok k l] by (simp add: eq)
    have n: "?a \<notin> set (ml_items S)" using ok by (auto simp: ml_ok_def addrs_ok_def)
    have live: "lru_live ?U = (lru_live S)(k := Some e)" "lru_live ?T = (lru_live S)(k := Some e)"
      using n ml_okD(7) [OF ok]
      by (auto simp: lru_live_def fun_eq_iff account_frame put_in_frame new_node_frame k item_def
          intro!: map_option_cong)
    have ix: "ml_index ?U = ml_index ?P" by (simp add: account_frame)
    show ?thesis
    proof (cases "e = 0")
      case True
      then have "ml_index ?U = ml_index S" unfolding ix by (simp add: put_in_frame new_node_frame)
      moreover have "indexed (lru_live ?U) (ml_index S)"
        unfolding live(1) indexed_def using t True by (simp add: ttl_ok_def indexed_def)
      ultimately show ?thesis using t unfolding eq ttl_ok_def by simp
    next
      case False
      have "map_ok ?T"
        using okU P False
        by (simp add: ml_ok_def map_ok_def account_frame item_def)
      then have "ttl_ok (ttl_heap_push k e ?T)"
        using t live(2) False
        by (intro ttl_heap_push_ok) (auto simp: ttl_ok_def indexed_def put_in_frame new_node_frame)
      moreover have "lru_live (ttl_heap_push k e ?T) = lru_live ?T"
        by (simp add: lru_live_def [abs_def] item_def)
      then have "lru_live (ttl_heap_push k e ?T) = lru_live ?U" using live by simp
      ultimately show ?thesis using False ix unfolding eq by (simp add: ttl_ok_def)
    qed
  qed
qed


lemma lets_goD:
  assumes "lets_go S T"
  shows "ml_ok T" "ttl_ok S \<Longrightarrow> ttl_ok T" "same_env S T" "ml_fresh T = ml_fresh S"
    "set (ml_items T) \<subseteq> set (ml_items S)" "length (ml_items T) \<le> length (ml_items S)"
    "same_data (item T a) (item S a)" "refs (item T a) = refs (item S a)"
    "it_key (item T a) = it_key (item S a)" "it_value (item T a) = it_value (item S a)"
    "it_expiry_ns (item T a) = it_expiry_ns (item S a)"
    "a \<in> set (ml_items S) \<Longrightarrow> refs (item S a) > 0 \<Longrightarrow> a \<in> set (ml_items T)"
  using assms by (simp_all add: lets_go_def same_data_def)

lemma ml_ok_map: "ml_ok S \<Longrightarrow> ml_map S k = Some a \<longleftrightarrow> a \<in> set (ml_items S) \<and> it_key (item S a) = k"
  by (simp add: ml_ok_def map_ok_def)

lemma lets_go_map:
  assumes "ml_ok S" "lets_go S T" "ml_map T k = Some a" shows "ml_map S k = Some a"
  using assms lets_goD(1,5) [OF assms(2)] lets_goD(9) [OF assms(2), of a] by (auto simp: ml_ok_map)

lemma make_room_done: "make_room S = (True, T) \<Longrightarrow> \<not> should_evict T"
proof (induction S rule: make_room.induct)
  case (1 S)
  from 1(2) show ?case
    using 1(1) [OF _ refl] by (subst (asm) make_room.simps) (auto simp: Let_def split: if_splits)
qed

lemma make_memory_room_done:
  "make_memory_room m S = (True, T) \<Longrightarrow>
     ml_items T = [] \<or> unat (current_memory (ml_stats T) + m) \<le> ml_max_memory T"
proof (induction m S rule: make_memory_room.induct)
  case (1 m S)
  from 1(2) show ?case
    using 1(1) [OF _ refl] by (subst (asm) make_memory_room.simps) (auto simp: Let_def split: if_splits)
qed

text \<open>
  An insertion either gives up, and then at most let items go, or inserts into a cache with room:
  below the size limit, and within the memory limit unless the new item is alone.
\<close>

definition has_room :: "u64 \<Rightarrow> ('k, 'v) mm_lru \<Rightarrow> bool" where
  "has_room mem S \<longleftrightarrow>
     (ml_max_size S \<noteq> unlimited \<longrightarrow> length (ml_items S) < ml_max_size S) \<and>
     (ml_max_memory S \<noteq> unlimited \<longrightarrow>
        ml_items S = [] \<or> unat (current_memory (ml_stats S) + mem) \<le> ml_max_memory S)"

lemma insert_new_cases:
  assumes ok: "ml_ok S"
  obtains (given_up) "lets_go S (insert_new k v e S)"
  | (inserted) T where "lets_go S T" "insert_new k v e S = insert_item k v e (calc_item_memory T k v) T"
      "has_room (calc_item_memory T k v) T"
proof (cases "ml_max_size S = 0 \<or> ml_max_memory S = 0")
  case True
  then show ?thesis using given_up lets_go_refl [OF ok] by (simp add: insert_new_def)
next
  case False
  define A where "A = cleanup_pending_deletion S"
  define B where "B = (if ml_max_size A \<noteq> unlimited \<and> size_of A \<ge> ml_max_size A then evict_lru A else A)"
  have A: "lets_go S A" unfolding A_def by (rule lets_go_cleanup [OF ok])
  have B: "lets_go S B"
    using lets_go_trans [OF A lets_go_evict [OF lets_goD(1) [OF A]]] A by (simp add: B_def)
  show ?thesis
  proof (cases "ml_max_size B \<noteq> unlimited \<and> size_of B \<ge> ml_max_size B")
    case True
    with False have "insert_new k v e S = on_stats (\<lambda>st. st\<lparr>eviction_failed := eviction_failed st + 1\<rparr>) B"
      by (simp add: insert_new_def A_def [symmetric] B_def [symmetric])
    then show ?thesis using given_up lets_go_stats [OF B] by simp
  next
    case room: False
    obtain g C where C: "make_room B = (g, C)" by fastforce
    have lC: "lets_go S C"
      using lets_go_trans [OF B lets_go_make_room [OF lets_goD(1) [OF B]]] C by simp
    let ?m = "calc_item_memory C k v"
    obtain h D where D: "(if ml_max_memory C \<noteq> unlimited then make_memory_room ?m C else (True, C)) = (h, D)"
      by fastforce
    have CD: "lets_go C D"
      using D lets_go_make_memory_room [OF lets_goD(1) [OF lC], of ?m] lets_go_refl [OF lets_goD(1) [OF lC]]
      by (simp add: prod_eq_iff split: if_splits)
    have lD: "lets_go S D" by (rule lets_go_trans [OF lC CD])
    have eq: "insert_new k v e S = (if \<not> g then C else if \<not> h then D else insert_item k v e ?m D)"
      by (simp only: insert_new_def Let_def False room if_False A_def [symmetric] B_def [symmetric] C D prod.case)
    have m: "calc_item_memory D = calc_item_memory C" using same_env_memory [OF lets_goD(3) [OF CD]] .
    have "lets_go B C" using lets_go_make_room [OF lets_goD(1) [OF B]] C by simp
    then have "ml_max_size D \<noteq> unlimited \<longrightarrow> length (ml_items D) < ml_max_size D"
      using room lets_goD(3,6) [OF CD] lets_goD(3,6) [of B C] by (auto simp: size_of_def list_size_def same_env_def)
    moreover have "ml_max_memory D \<noteq> unlimited \<longrightarrow>
        ml_items D = [] \<or> unat (current_memory (ml_stats D) + ?m) \<le> ml_max_memory D" if "h"
      using D that make_memory_room_done [of ?m C D] lets_goD(3) [OF CD]
      by (cases "ml_max_memory C = unlimited") (simp_all add: same_env_def)
    ultimately have r: "has_room (calc_item_memory D k v) D" if "h" using that by (simp add: has_room_def m)
    show ?thesis
    proof (cases "g \<and> h")
      case True
      then have "insert_new k v e S = insert_item k v e (calc_item_memory D k v) D" using eq by (simp add: m)
      with True r show ?thesis using inserted [OF lD] by blast
    next
      case no: False
      then have "insert_new k v e S = C \<or> insert_new k v e S = D" using eq by (simp split: if_splits)
      then have "lets_go S (insert_new k v e S)" using lC lD by (elim disjE) (simp_all only:)
      then show ?thesis by (rule given_up)
    qed
  qed
qed


section \<open>Flush\<close>

text \<open>What the state is worth during pass 1 of a flush, with the items already collected.\<close>

definition flush_view :: "addr list \<Rightarrow> ('k, 'v) mm_lru \<Rightarrow> ('k, 'v) mm_lru" where
  "flush_view tr S =
     S\<lparr>unpinned_tail := None, ml_stats := (ml_stats S)\<lparr>current_size := length (ml_items S)\<rparr>,
       ml_retired := ml_retired S @ map (Pair (if use_ebr (ml_config S) then Ebr else Hazptr)) tr\<rparr>"

lemma flush_view_frame [simp]:
  "ml_store (flush_view tr S) = ml_store S" "ml_items (flush_view tr S) = ml_items S"
  "insertion_point (flush_view tr S) = insertion_point S" "unpinned_tail (flush_view tr S) = None"
  "ml_fresh (flush_view tr S) = ml_fresh S" "ml_map (flush_view tr S) = ml_map S"
  "pending_deletion (flush_view tr S) = pending_deletion S" "ml_index (flush_view tr S) = ml_index S"
  "ml_config (flush_view tr S) = ml_config S" "same_env (flush_view tr S) T = same_env S T"
  "same_env T (flush_view tr S) = same_env T S" "item (flush_view tr S) = item S"
  "current_memory (ml_stats (flush_view tr S)) = current_memory (ml_stats S)"
  "current_size (ml_stats (flush_view tr S)) = length (ml_items S)"
  "item_memory (flush_view tr S) = item_memory S"
  by (simp_all add: flush_view_def same_env_def item_def fun_eq_iff item_memory_def calc_item_memory_def)

definition flush_one :: "addr \<Rightarrow> ('k, 'v) mm_lru \<Rightarrow> ('k, 'v) mm_lru" where
  "flush_one a S =
     (let S = on_item a (refcount_step markForEviction_try) S;
          S = on_stats (memory_sub (item_memory S a)) S;
          S = report (On_evict (it_key (item S a)) (it_value (item S a))) S
      in map_erase (it_key (item S a)) S)"

lemma flush_one_frame:
  "ml_store (flush_one a S) = (ml_store S)(a := refcount_step markForEviction_try (ml_store S a))"
  "ml_items (flush_one a S) = ml_items S" "insertion_point (flush_one a S) = insertion_point S"
  "ml_map (flush_one a S) = (ml_map S)(it_key (ml_store S a) := None)"
  "same_env S (flush_one a S)" "ml_fresh (flush_one a S) = ml_fresh S"
  "pending_deletion (flush_one a S) = pending_deletion S" "ml_retired (flush_one a S) = ml_retired S"
  "ml_index (flush_one a S) = ml_index S"
  "current_memory (ml_stats (flush_one a S)) = current_memory (ml_stats S) - item_memory S a"
  by (simp_all add: flush_one_def Let_def prim_defs same_env_def item_memory_def
      calc_item_memory_def split: option.split)

lemma flush_step_out:
  assumes ok: "ml_ok (flush_view tr S)" and a: "a \<in> set (ml_items S)"
  shows "retired_out a (flush_view tr S) (flush_view (tr @ [a])
     (on_item a (refcount_step unmarkForEviction_try) (remove_from_list a (flush_one a S))))"
proof -
  let ?U = "flush_one a S" let ?V = "remove_from_list a ?U"
  let ?W = "on_item a (refcount_step unmarkForEviction_try) ?V"
  have o: "is_in_container (ml_store S a)" using ml_okD(5) [OF ok] a by simp
  have c: "is_in_container (ml_store ?U a)" by (simp add: flush_one_frame claim_container o)
  note st = claimed_store [OF o flush_one_frame(1)]
  have env: "same_env S ?V" by (rule same_env_trans [OF flush_one_frame(5) remove_env [OF c]])
  then have "same_env S ?W" by (simp add: on_item_def same_env_def)
  moreover have "in_list (insertion_point ?V) (remove1 a (ml_items S))"
    using remove_ip [OF c] ml_okD(1,2) [OF ok] by (simp add: flush_one_frame)
  ultimately show ?thesis
    using env st unfolding retired_out_def took_out_def
    by (auto simp: cursors_ok_def) (auto simp: flush_view_def on_item_def remove_frame [OF c] flush_one_frame
        item_def unmark_exclusive refs_claim same_data_def same_env_def)
qed

lemma flush_pass_view:
  assumes "flush_pass xs tr S = (tr', S')" "ml_ok (flush_view tr S)" "distinct xs" "set xs \<subseteq> set (ml_items S)"
  shows "lets_go (flush_view tr S) (flush_view tr' S') \<and>
    set (ml_items S') = set (ml_items S) - {a \<in> set xs. refs (item S a) = 0}"
  using assms
proof (induction xs tr S rule: flush_pass.induct)
  case (1 tr S)
  then show ?case using lets_go_refl [of "flush_view tr S"] by simp
next
  case (2 a as tr S)
  have a: "a \<in> set (ml_items S)" "distinct as" "a \<notin> set as" using "2.prems"(3,4) by auto
  note o = ml_okD(5,6) [OF "2.prems"(2)]
  have h: "has_active_handle (item S a) \<longleftrightarrow> refs (item S a) > 0"
    using handle_refs [of "item S a"] o(2) a(1) by (simp add: item_def)
  show ?case
  proof (cases "has_active_handle (item S a)")
    case True
    let ?T = "on_item a (\<lambda>i. i\<lparr>it_tail := False\<rparr>) S"
    have q: "quiet (flush_view tr S) (flush_view tr ?T)"
      using ml_okD(4) [OF "2.prems"(2)] by (simp add: quiet_def cursors_ok_def) (simp add: on_item_def flush_view_def same_env_def item_def)
    have i: "ml_items ?T = ml_items S" "refs (item ?T b) = refs (item S b)" for b
      by (simp_all add: on_item_def item_def)
    have "flush_pass as tr ?T = (tr', S')" using "2.prems"(1) True by simp
    from "2.IH"(3) [OF _ this quiet_ok [OF "2.prems"(2) q] a(2)] True "2.prems"(4) i
    have "lets_go (flush_view tr ?T) (flush_view tr' S') \<and>
        set (ml_items S') = set (ml_items S) - {b \<in> set as. refs (item S b) = 0}" by simp
    then show ?thesis using lets_go_trans [OF lets_go_quiet [OF "2.prems"(2) q]] True h by auto
  next
    case False
    have c: "fst (on_refcount markForEviction_try (item S a)) = kSuccess"
      using claim_iff [of "item S a"] o a(1) False by (simp add: item_def)
    let ?T = "on_item a (refcount_step unmarkForEviction_try) (remove_from_list a (flush_one a S))"
    have r: "retired_out a (flush_view tr S) (flush_view (tr @ [a]) ?T)"
      by (rule flush_step_out [OF "2.prems"(2) a(1)])
    have l: "lets_go (flush_view tr S) (flush_view (tr @ [a]) ?T)"
      using lets_go_retired [OF "2.prems"(2) _ _ r] a(1) False by simp
    have i: "ml_items ?T = remove1 a (ml_items S)" "set (ml_items ?T) = set (ml_items S) - {a}"
      using r ml_okD(1) [OF "2.prems"(2)] by (auto simp: retired_out_def took_out_def)
    have rf: "refs (item ?T b) = refs (item S b)" for b using lets_goD(8) [OF l, of b] by simp
    have "flush_pass as (tr @ [a]) ?T = (tr', S')" using "2.prems"(1) False c by (simp add: Let_def flush_one_def)
    then have "lets_go (flush_view (tr @ [a]) ?T) (flush_view tr' S') \<and>
        set (ml_items S') = set (ml_items S) - {a} - {b \<in> set as. refs (item S b) = 0}"
      using "2.IH"(2) [OF False _ refl refl refl refl refl refl] lets_goD(1) [OF l] a "2.prems"(4) i c False rf
      by (auto simp: flush_one_def Let_def)
    then show ?thesis using lets_go_trans [OF l] False h by auto
  qed
qed


lemma fold_retire:
  "fold retire_item xs S =
     S\<lparr>ml_retired := ml_retired S @ map (Pair (if use_ebr (ml_config S) then Ebr else Hazptr)) xs\<rparr>"
  by (induction xs arbitrary: S) (simp_all add: retire_item_def)

lemma flush_lets_go:
  assumes ok: "ml_ok S"
  shows "lets_go S (lru_flush S)" "set (ml_items (lru_flush S)) = {a \<in> set (ml_items S). refs (item S a) > 0}"
    "a \<in> set (pending_deletion (lru_flush S)) \<Longrightarrow> refs (item S a) > 0"
proof -
  obtain tr T where f: "flush_pass (ml_items S) [] S = (tr, T)" by fastforce
  let ?V = "flush_view tr T"
  let ?U = "?V\<lparr>insertion_point := None, tail_size := 0, insertion_point_pos := unlimited\<rparr>"
  have q: "quiet S (flush_view [] S)"
    using ml_okD(4,8) [OF ok] by (simp add: quiet_def cursors_ok_def) (simp add: flush_view_def)
  note p = flush_pass_view [OF f quiet_ok [OF ok q] ml_okD(1) [OF ok] subset_refl]
  have l: "lets_go S ?V" using lets_go_trans [OF lets_go_quiet [OF ok q]] p by blast
  have qU: "quiet ?V ?U" by (simp add: quiet_def cursors_ok_def same_env_def item_def)
  have "store_size ((fold retire_item tr T)\<lparr>insertion_point := None, unpinned_tail := None, tail_size := 0,
      insertion_point_pos := unlimited\<rparr>) = ?U"
    by (rule mm_lru.equality) (simp_all add: fold_retire flush_view_def store_size_def on_stats_def list_size_def)
  then have eq: "lru_flush S = cleanup_pending_deletion ?U"
    by (simp only: lru_flush_def f Let_def prod.case)
  have lU: "lets_go S ?U" using lets_go_trans [OF l lets_go_quiet [OF lets_goD(1) [OF l] qU]] .
  show "lets_go S (lru_flush S)"
    unfolding eq by (rule lets_go_trans [OF lU lets_go_cleanup [OF lets_goD(1) [OF lU]]])
  show "set (ml_items (lru_flush S)) = {a \<in> set (ml_items S). refs (item S a) > 0}"
  proof -
    have "ml_items (lru_flush S) = ml_items T" unfolding eq by simp
    moreover have "set (ml_items T) = set (ml_items S) - {a \<in> set (ml_items S). refs (item S a) = 0}"
      using p by blast
    moreover have "A - {a \<in> A. f a = 0} = {a \<in> A. f a > (0 :: nat)}" for A :: "addr set" and f by auto
    ultimately show ?thesis by (simp only:)
  qed
  note okU = lets_goD(1) [OF lU]
  show "refs (item S a) > 0" if "a \<in> set (pending_deletion (lru_flush S))"
  proof -
    have "a \<in> set (pending_deletion ?U)" "has_active_handle (item ?U a)"
      using that cleanup_eq(1) [OF okU] unfolding eq by simp_all
    moreover from this have "unclaimed (item ?U a)" using okU by (simp only: ml_ok_def items_ok_def)
    ultimately show ?thesis using handle_refs [of "item ?U a"] lets_goD(8) [OF lU, of a] by simp
  qed
qed

section \<open>The TTL sweep\<close>

definition lru_pinned :: "('k, 'v) mm_lru \<Rightarrow> 'k \<Rightarrow> bool" where
  "lru_pinned S k = (case ml_map S k of None \<Rightarrow> False | Some a \<Rightarrow> has_active_handle (item S a))"

text \<open>
  \<^verbatim>\<open>mm_lru\<close> as a client of the shared index. The invariant is relative to the state \<open>S\<^sub>0\<close> the
  sweep started in: since then items without handles left, and nothing else happened.
\<close>

interpretation lru_index: ttl_client lru_ttl "\<lambda>S. ml_ok S0 \<and> lets_go S0 S" lru_live lru_pinned
  for S0 :: "('k, 'v) mm_lru"
proof unfold_locales
  fix S :: "('k, 'v) mm_lru" and k :: 'k and e :: u64
  assume i: "ml_ok S0 \<and> lets_go S0 S"
  then have ok: "ml_ok S" using lets_goD(1) by blast
  show "ttl_probe_entry lru_ttl k e S = (case lru_live S k of None \<Rightarrow> Absent
     | Some e' \<Rightarrow> if e' \<noteq> e then Stale else if lru_pinned S k then Pinned else Ready)"
    by (simp add: lru_ttl_def lru_ttl_probe_entry_def lru_live_def lru_pinned_def split: option.split)
  assume "lru_live S k \<noteq> None" "\<not> lru_pinned S k"
  then obtain a where m: "ml_map S k = Some a" and h: "\<not> has_active_handle (item S a)"
    by (auto simp: lru_live_def lru_pinned_def)
  have a: "a \<in> set (ml_items S)" "it_key (item S a) = k" using ok m by (auto simp: ml_ok_map)
  have r: "retired_out a S (ttl_erase_expired lru_ttl k S)"
    using erase_impl_out(2) [OF ok m h] by (simp add: lru_ttl_def)
  then have t: "took_out a S (ttl_erase_expired lru_ttl k S)" by (simp add: retired_out_def)
  show "ml_ok S0 \<and> lets_go S0 (ttl_erase_expired lru_ttl k S)"
    using lets_go_trans [OF _ lets_go_retired [OF ok a(1) h r]] i by blast
  show "lru_live (ttl_erase_expired lru_ttl k S) = (lru_live S)(k := None)"
    using took_out_live [OF ok a(1) t] a(2) by simp
  fix j assume j: "j \<noteq> k"
  have mj: "ml_map (ttl_erase_expired lru_ttl k S) j = ml_map S j" using t j a(2) by (simp add: took_out_def)
  show "lru_pinned (ttl_erase_expired lru_ttl k S) j = lru_pinned S j"
  proof (cases "ml_map S j")
    case (Some b)
    then have "b \<noteq> a" using j a(2) ml_ok_map [OF ok, of j b] by auto
    then have "same_item (item (ttl_erase_expired lru_ttl k S) b) (item S b)" using t by (simp add: took_out_def)
    with Some mj show ?thesis by (simp add: lru_pinned_def same_item_status(6))
  qed (simp add: lru_pinned_def mj)
qed

lemma ml_ok_index: "ml_ok S \<Longrightarrow> ml_ok (S\<lparr>ml_index := H\<rparr>)"
proof -
  assume "ml_ok S"
  moreover have "item_memory (S\<lparr>ml_index := H\<rparr>) = item_memory S"
    by (simp add: fun_eq_iff item_memory_def calc_item_memory_def item_def)
  ultimately show ?thesis by (simp add: ml_ok_defs item_def)
qed

lemma with_index_good:
  assumes "ml_ok S" "th_ok H" "indexed (lru_live S) H" "\<forall>a \<in> set (th_heap H). expiry_ns a \<noteq> 0"
  shows "ml_ok (S\<lparr>ml_index := H\<rparr>)" "ttl_ok (S\<lparr>ml_index := H\<rparr>)"
proof -
  show "ml_ok (S\<lparr>ml_index := H\<rparr>)" by (rule ml_ok_index [OF assms(1)])
  have "lru_live (S\<lparr>ml_index := H\<rparr>) = lru_live S" by (simp add: lru_live_def [abs_def] item_def)
  then show "ttl_ok (S\<lparr>ml_index := H\<rparr>)" using assms(2-4) by (simp add: ttl_ok_def)
qed

lemma evict_expired_good:
  assumes ok: "ml_ok S" and t: "ttl_ok S"
  shows "lets_go S (snd (lru_evict_expired_n b S))"
proof -
  let ?C = "cleanup_pending_deletion S"
  have C: "lets_go S ?C" "ml_ok ?C" "ttl_ok ?C"
    using lets_go_cleanup [OF ok] cleanup_ok [OF ok] t by (simp_all add: cleanup_ttl)
  obtain n H T where e: "evict_expired_n lru_ttl (now_ns S) b (ml_index S) ?C = (n, H, T)"
    by (metis prod_cases3)
  have "lru_evict_expired_n b S = (n, T\<lparr>ml_index := H\<rparr>)"
    using e by (simp add: lru_evict_expired_n_def lru_evict_expired_def with_index_def evict_expired_n_def
        split: if_splits)
  moreover have "(ml_ok ?C \<and> lets_go ?C T) \<and> th_ok H \<and> indexed (lru_live T) H \<and>
      (\<forall>a \<in> set (th_heap H). expiry_ns a \<noteq> 0)"
    using C(2,3) lets_go_refl [OF C(2)]
    by (intro lru_index.evict_expired_n_live [OF _ _ _ _ e]) (simp_all add: ttl_ok_def)
  then have "lets_go ?C (T\<lparr>ml_index := H\<rparr>)"
    using with_index_good [of T H] unfolding lets_go_def by (simp add: item_def same_env_def)
  ultimately show ?thesis using lets_go_trans [OF C(1)] by simp
qed


section \<open>Every operation keeps the invariant\<close>

definition good :: "('k, 'v) mm_lru \<Rightarrow> bool" where
  "good S \<longleftrightarrow> ml_ok S \<and> ttl_ok S"

text \<open>
  \<open>keeps S T\<close>: \<open>T\<close> satisfies the invariant, and no handle on an item of \<open>S\<close> was taken or
  released on the way; items allocated on the way have none.
\<close>

definition keeps :: "('k, 'v) mm_lru \<Rightarrow> ('k, 'v) mm_lru \<Rightarrow> bool" where
  "keeps S T \<longleftrightarrow>
     good T \<and> ml_fresh S \<le> ml_fresh T \<and> (\<forall>a < ml_fresh S. refs (item T a) = refs (item S a)) \<and>
     (\<forall>a. ml_fresh S \<le> a \<and> a < ml_fresh T \<longrightarrow> refs (item T a) = 0)"

lemma goodD: "good S \<Longrightarrow> ml_ok S" "good S \<Longrightarrow> ttl_ok S"
  by (simp_all add: good_def)

lemma keeps_good: "keeps S T \<Longrightarrow> good T"
  by (simp add: keeps_def)

lemma keeps_refl: "good S \<Longrightarrow> keeps S S"
  by (simp add: keeps_def)

lemma keeps_trans:
  assumes "keeps S T" "keeps T U" shows "keeps S U"
  unfolding keeps_def
proof (intro conjI allI impI)
  fix a assume "a < ml_fresh S"
  then show "refs (item U a) = refs (item S a)" using assms by (simp add: keeps_def)
next
  fix a assume "ml_fresh S \<le> a \<and> a < ml_fresh U"
  then show "refs (item U a) = 0" using assms by (cases "a < ml_fresh T") (simp_all add: keeps_def)
qed (use assms in \<open>auto simp: keeps_def\<close>)

lemma keeps_lets_go: "good S \<Longrightarrow> lets_go S T \<Longrightarrow> keeps S T"
  using lets_goD(1,2,4) [of S T] lets_goD(8) [of S T] by (simp add: keeps_def good_def)

lemma keeps_quiet: "good S \<Longrightarrow> quiet S T \<Longrightarrow> keeps S T"
  using keeps_lets_go lets_go_quiet goodD(1) by blast

lemma keeps_revalued: "good S \<Longrightarrow> a \<in> set (ml_items S) \<Longrightarrow> revalued a v S T \<Longrightarrow> keeps S T"
  using revalued_ok [of S a v T] revalued_ttl [of a v S T] revalued_data(3) [of a v S T]
  by (simp add: keeps_def good_def revalued_def)

lemma keeps_insert_item:
  assumes g: "good S" and k: "ml_map S k = None"
  shows "keeps S (insert_item k v e (calc_item_memory S k v) S)"
proof -
  let ?T = "insert_item k v e (calc_item_memory S k v) S"
  note l = insert_item_linked(1) [OF goodD(1) [OF g] k refl, of v e]
  have "ml_ok ?T" "ttl_ok ?T"
    using linked_in_ok [OF goodD(1) [OF g] k l] insert_item_linked(2) [OF goodD(1) [OF g] k refl] goodD(2) [OF g]
    by simp_all
  moreover have "refs (item ?T a) = refs (item S a)" if "a < ml_fresh S" for a
    using l that by (intro same_item_status(4)) (simp add: linked_in_def)
  ultimately show ?thesis using l by (auto simp: keeps_def good_def linked_in_def same_data_def less_Suc_eq)
qed

lemma keeps_insert_new:
  assumes g: "good S" and k: "ml_map S k = None"
  shows "keeps S (insert_new k v e S)"
proof (rule insert_new_cases [OF goodD(1) [OF g], of k v e])
  assume "lets_go S (insert_new k v e S)"
  then show ?thesis by (rule keeps_lets_go [OF g])
next
  fix T assume T: "lets_go S T" "insert_new k v e S = insert_item k v e (calc_item_memory T k v) T"
  have kT: "keeps S T" by (rule keeps_lets_go [OF g T(1)])
  have "ml_map T k = None" using lets_go_map [OF goodD(1) [OF g] T(1)] k by (cases "ml_map T k") auto
  from keeps_insert_item [OF keeps_good [OF kT] this] T(2) show ?thesis using keeps_trans [OF kT] by simp
qed

lemma keeps_update_existing:
  assumes g: "good S" and a: "a \<in> set (ml_items S)"
  shows "keeps S (update_existing a v mode S)"
proof (rule update_existing_cases [OF goodD(1) [OF g] a, of v mode])
  fix T U assume T: "revalued a v S T" "lets_go T U" "quiet U (update_existing a v mode S)"
  note kT = keeps_revalued [OF g a T(1)]
  note kU = keeps_lets_go [OF keeps_good [OF kT] T(2)]
  note kR = keeps_quiet [OF keeps_good [OF kU] T(3)]
  show ?thesis by (rule keeps_trans [OF kT keeps_trans [OF kU kR]])
qed

lemma mapped_in: "good S \<Longrightarrow> ml_map S k = Some a \<Longrightarrow> a \<in> set (ml_items S)"
  by (simp add: good_def ml_ok_map)

lemma keeps_cleanup: "good S \<Longrightarrow> keeps S (cleanup_pending_deletion S)"
  using keeps_lets_go lets_go_cleanup goodD(1) by blast

lemma keeps_set: "good S \<Longrightarrow> keeps S (lru_set k v S)"
  using mapped_in [of S k] keeps_insert_new [of S k v 0] keeps_update_existing [of S]
  by (simp add: lru_set_def split: option.split)

text \<open>Writing the expiry of an item and recording it in the index.\<close>

lemma set_expiry_ok:
  assumes "ml_ok S" shows "ml_ok (on_item a (\<lambda>i. i\<lparr>it_expiry_ns := e\<rparr>) S)"
proof -
  let ?T = "on_item a (\<lambda>i. i\<lparr>it_expiry_ns := e\<rparr>) S"
  have "item_memory ?T = item_memory S"
    by (simp add: fun_eq_iff item_memory_def calc_item_memory_def item_def on_item_def split: option.split)
  moreover have "it_key (item ?T b) = it_key (item S b)" "refs (item ?T b) = refs (item S b)"
    "is_in_container (item ?T b) = is_in_container (item S b)" "unclaimed (item ?T b) = unclaimed (item S b)" for b
    by (simp_all add: item_def on_item_def)
  ultimately show ?thesis using assms by (simp add: ml_ok_defs) (simp add: on_item_def)
qed

lemma keeps_set_expiry:
  assumes g: "good S" and a: "a \<in> set (ml_items S) \<Longrightarrow> it_key (item S a) = k"
  shows "keeps S (let T = on_item a (\<lambda>i. i\<lparr>it_expiry_ns := e\<rparr>) S in if e \<noteq> 0 then ttl_heap_push k e T else T)"
proof -
  let ?T = "on_item a (\<lambda>i. i\<lparr>it_expiry_ns := e\<rparr>) S"
  have ok: "ml_ok ?T" by (rule set_expiry_ok [OF goodD(1) [OF g]])
  have live: "lru_live ?T j = (if ml_map S j = Some a then Some e else lru_live S j)" for j
    by (auto simp: lru_live_def on_item_def item_def intro!: map_option_cong)
  have key: "ml_map S j = Some a \<longrightarrow> j = k" for j using a ml_ok_map [OF goodD(1) [OF g], of j a] by auto
  have t: "th_ok (ml_index ?T)" "\<forall>x \<in> set (th_heap (ml_index ?T)). expiry_ns x \<noteq> 0"
    "indexed (lru_live S) (ml_index ?T)"
    using goodD(2) [OF g] by (simp_all add: ttl_ok_def on_item_def)
  have "ttl_ok (if e \<noteq> 0 then ttl_heap_push k e ?T else ?T)"
  proof (cases "e = 0")
    case True
    have "indexed (lru_live ?T) (ml_index ?T)"
      unfolding indexed_def live using t(3) True by (simp add: indexed_def)
    with True t show ?thesis by (simp add: ttl_ok_def)
  next
    case False
    have "indexed ((lru_live ?T)(k := None)) (ml_index ?T)"
      unfolding indexed_def fun_upd_apply live using t(3) key by (simp add: indexed_def)
    moreover have "lru_live ?T k = Some e \<or> ttl_ok (ttl_heap_push k e ?T)"
    proof (cases "ml_map S k = Some a")
      case n: False
      then have e: "lru_live ?T = lru_live S" using key live by (auto simp: fun_eq_iff)
      have "\<lparr>expiry_ns = x, entry_key = j\<rparr> \<in> set (th_heap (ml_index (ttl_heap_push k e ?T)))"
        if "lru_live ?T j = Some x" "x \<noteq> 0" for j x
        using t(3) that e live_emitted [OF _ that] ok
        by (force simp: ttl_heap_push_def set_index_push set_rebuild lru_ttl_def indexed_def ml_ok_def)
      moreover have "lru_live (ttl_heap_push k e ?T) = lru_live ?T"
        by (simp add: lru_live_def [abs_def] item_def)
      moreover have "\<forall>x \<in> set (th_heap (ml_index (ttl_heap_push k e ?T))). expiry_ns x \<noteq> 0"
        using t(2) False by (auto simp: ttl_heap_push_def set_index_push set_rebuild lru_ttl_def)
      moreover have "th_ok (ml_index (ttl_heap_push k e ?T))"
        using t(1) by (simp add: ttl_heap_push_def th_ok_index_push)
      ultimately show ?thesis by (simp add: ttl_ok_def indexed_def)
    qed (simp add: live)
    ultimately have "ttl_ok (ttl_heap_push k e ?T)"
      using ttl_heap_push_ok [OF _ t(1,2) _ _ False, of k] ok by (auto simp: ml_ok_def)
    with False show ?thesis by simp
  qed
  moreover have "ml_ok (if e \<noteq> 0 then ttl_heap_push k e ?T else ?T)"
    using ok ml_ok_index [OF ok] by (cases "e = 0") (simp_all add: ttl_heap_push_def)
  ultimately show ?thesis by (simp add: keeps_def good_def Let_def) (simp add: item_def on_item_def)
qed


lemma keeps_set_with_expiry:
  assumes g: "good S" shows "keeps S (set_with_expiry k v e S)"
proof (cases "ml_map S k")
  case None
  then show ?thesis using keeps_insert_new [OF g] by (simp add: set_with_expiry_def)
next
  case (Some a)
  have a: "a \<in> set (ml_items S)" "it_key (item S a) = k" using Some ml_ok_map [OF goodD(1) [OF g]] by auto
  let ?U = "update_existing a v Write_access S"
  have kU: "keeps S ?U" by (rule keeps_update_existing [OF g a(1)])
  have "it_key (item ?U a) = k"
  proof (rule update_existing_cases [OF goodD(1) [OF g] a(1), of v Write_access])
    fix T U assume "revalued a v S T" "lets_go T U" "quiet U ?U"
    then show ?thesis using revalued_data(1) [of a v S T a] lets_goD(9) [of T U a] a(2)
      by (simp add: quiet_def same_item_def)
  qed
  from keeps_set_expiry [OF keeps_good [OF kU], of a k e] this Some show ?thesis
    using keeps_trans [OF kU] by (simp add: set_with_expiry_def)
qed

lemma keeps_record_access:
  "good S \<Longrightarrow> a \<in> set (ml_items S) \<Longrightarrow> keeps S (snd (record_access a mode S))"
  using keeps_quiet record_access_quiet goodD(1) ml_okD(4) by blast

lemma keeps_stats:
  "good S \<Longrightarrow> current_size (f (ml_stats S)) = current_size (ml_stats S) \<Longrightarrow>
   current_memory (f (ml_stats S)) = current_memory (ml_stats S) \<Longrightarrow> keeps S (on_stats f S)"
  using keeps_quiet stats_quiet [of S f] goodD(1) ml_okD(4) by blast

lemma keeps_report: "good S \<Longrightarrow> keeps S (report e S)"
  using keeps_quiet report_quiet goodD(1) ml_okD(4) by blast

lemma keeps_note: "good S \<Longrightarrow> keeps S (note_miss k S)" "good S \<Longrightarrow> keeps S (note_hit k a S)"
  unfolding note_miss_def note_hit_def
  by (rule keeps_trans [OF keeps_stats keeps_report [OF keeps_good [OF keeps_stats]]];
      simp add: register_miss_def register_hit_def)+

lemma keeps_add: assumes "good S" shows "keeps S (snd (lru_add k v S))"
proof (cases "ml_map S k")
  case None
  with assms show ?thesis by (simp add: lru_add_def keeps_insert_new)
next
  case (Some a)
  with assms show ?thesis using mapped_in [OF assms Some] by (simp add: lru_add_def keeps_record_access)
qed

lemma keeps_replace: assumes "good S" shows "keeps S (snd (lru_replace k v S))"
proof -
  note c = keeps_cleanup [OF assms]
  show ?thesis
  proof (cases "ml_map S k")
    case None
    then show ?thesis using c by (simp add: lru_replace_def)
  next
    case (Some a)
    then have "a \<in> set (ml_items (cleanup_pending_deletion S))" using mapped_in [OF assms Some] by simp
    from keeps_trans [OF c keeps_update_existing [OF keeps_good [OF c] this]] Some show ?thesis
      by (simp add: lru_replace_def)
  qed
qed

lemma keeps_retired:
  "good S \<Longrightarrow> a \<in> set (ml_items S) \<Longrightarrow> \<not> has_active_handle (item S a) \<Longrightarrow> retired_out a S T \<Longrightarrow> keeps S T"
  using keeps_lets_go lets_go_retired goodD(1) by blast

lemma keeps_del: assumes "good S" shows "keeps S (snd (lru_del k S))"
proof -
  note c = keeps_cleanup [OF assms]
  let ?C = "cleanup_pending_deletion S"
  show ?thesis
  proof (cases "ml_map ?C k")
    case None
    then show ?thesis using c by (simp add: lru_del_def Let_def)
  next
    case (Some a)
    have "keeps ?C (erase_impl k ?C)" if "\<not> has_active_handle (item ?C a)"
      using keeps_retired [OF keeps_good [OF c] mapped_in [OF keeps_good [OF c] Some] that]
        erase_impl_out(1) [OF goodD(1) [OF keeps_good [OF c]] Some that] by blast
    then show ?thesis using c keeps_trans [OF c] Some by (simp add: lru_del_def Let_def)
  qed
qed

lemma keeps_take_out:
  "good S \<Longrightarrow> a \<in> set (ml_items S) \<Longrightarrow> \<not> has_active_handle (item S a) \<Longrightarrow> keeps S (take_out a S)"
  using keeps_retired take_out_out goodD(1) by blast

lemma keeps_pop: assumes "good S" shows "keeps S (snd (lru_pop k S))" "keeps S (snd (pop_lru S))"
proof -
  note c = keeps_cleanup [OF assms]
  let ?C = "cleanup_pending_deletion S"
  have t: "keeps S (take_out a ?C)" if "a \<in> set (ml_items ?C)" "\<not> has_active_handle (item ?C a)" for a
    using keeps_trans [OF c keeps_take_out [OF keeps_good [OF c] that]] .
  show "keeps S (snd (lru_pop k S))"
  proof (cases "ml_map ?C k")
    case (Some a)
    then show ?thesis using c t mapped_in [OF assms, of k a] by (simp add: lru_pop_def Let_def)
  qed (use c in \<open>simp add: lru_pop_def Let_def\<close>)
  show "keeps S (snd (pop_lru S))"
  proof (cases "list_tail ?C")
    case (Some a)
    then have "a \<in> set (ml_items ?C)" using list_tail_in [of ?C] by simp
    then show ?thesis using c t Some by (simp add: pop_lru_def Let_def)
  qed (use c in \<open>simp add: pop_lru_def Let_def\<close>)
qed

lemma keeps_force_del: assumes g: "good S" shows "keeps S (snd (force_del k S))"
proof -
  note c = keeps_cleanup [OF g]
  let ?C = "cleanup_pending_deletion S"
  show ?thesis
  proof (cases "ml_map ?C k")
    case None
    then show ?thesis using c by (simp add: force_del_def Let_def)
  next
    case (Some a)
    have a: "a \<in> set (ml_items ?C)" by (rule mapped_in [OF keeps_good [OF c] Some])
    show ?thesis
    proof (cases "has_active_handle (item S a) \<and> pending_deletion_at_cap ?C")
      case True
      moreover have "keeps ?C (?C\<lparr>pending_deletion_skipped_count := pending_deletion_skipped_count ?C + 1\<rparr>)"
        using keeps_good [OF c] ml_okD(4) [OF goodD(1) [OF keeps_good [OF c]]]
        by (intro keeps_quiet) (simp_all add: quiet_def cursors_ok_def same_env_def item_def)
      ultimately show ?thesis using keeps_trans [OF c] Some by (simp add: force_del_def Let_def)
    next
      case False
      note o = force_del_out(1) [OF goodD(1) [OF g] Some False]
      have "keeps ?C (snd (force_del k S))"
      proof (cases "has_active_handle (item S a)")
        case True
        with o have p: "pended_out a ?C (snd (force_del k S))" by simp
        then have t: "took_out a ?C (snd (force_del k S))" by (simp add: pended_out_def)
        have "refs (item (snd (force_del k S)) b) = refs (item ?C b)" for b
          using t same_item_status(4) by (cases "b = a") (auto simp: took_out_def same_data_def)
        then show ?thesis
          using pended_out_ok [OF goodD(1) [OF keeps_good [OF c]] a p]
            took_out_ttl [OF goodD(1) [OF keeps_good [OF c]] a t goodD(2) [OF keeps_good [OF c]]] t
          by (simp add: keeps_def good_def took_out_def)
      next
        case n: False
        with o show ?thesis using keeps_retired [OF keeps_good [OF c] a] by simp
      qed
      then show ?thesis by (rule keeps_trans [OF c])
    qed
  qed
qed


lemma keeps_check_expiry: "good S \<Longrightarrow> keeps S (snd (check_expiry a k False S))"
proof -
  assume g: "good S"
  let ?A = "on_stats (\<lambda>st. st\<lparr>ttl_checked_count := ttl_checked_count st + 1\<rparr>) S"
  let ?B = "on_stats (\<lambda>st. st\<lparr>ttl_expired_count := ttl_expired_count st + 1,
    evictions_ttl := evictions_ttl st + 1\<rparr>) ?A"
  have A: "keeps S ?A" by (rule keeps_stats [OF g]) simp_all
  have B: "keeps ?A ?B" by (rule keeps_stats [OF keeps_good [OF A]]) simp_all
  have C: "keeps ?B (note_miss k ?B)" by (rule keeps_note(1) [OF keeps_good [OF B]])
  show ?thesis
    using keeps_refl [OF g] A keeps_trans [OF keeps_trans [OF A B] C]
    by (simp add: check_expiry_def Let_def)
qed

lemma keeps_contains: assumes "good S" shows "keeps S (snd (lru_contains k S))"
proof (cases "ml_map S k")
  case None
  with keeps_refl [OF assms] show ?thesis by (simp add: lru_contains_def)
next
  case (Some a)
  with keeps_check_expiry [OF assms] show ?thesis by (simp add: lru_contains_def split_beta)
qed

lemma keeps_get_shared: "good S \<Longrightarrow> keeps S (snd (get_shared k S))"
  by (simp add: get_shared_def keeps_note split: option.split)

lemma keeps_promote: "good S \<Longrightarrow> keeps S (snd (lru_promote k S))"
  by (auto simp: lru_promote_def keeps_refl intro: keeps_record_access mapped_in split: option.split)

lemma keeps_max:
  assumes g: "good S" shows "keeps S (set_max_size n S)" "keeps S (set_max_memory n S)"
proof -
  have *: "keeps S T" if "ml_store T = ml_store S" "ml_fresh T = ml_fresh S" "ml_items T = ml_items S"
    "ml_map T = ml_map S" "pending_deletion T = pending_deletion S" "ml_retired T = ml_retired S"
    "unpinned_tail T = unpinned_tail S" "insertion_point T = insertion_point S"
    "current_size (ml_stats T) = current_size (ml_stats S)"
    "current_memory (ml_stats T) = current_memory (ml_stats S)" "item_memory T = item_memory S"
    "ml_index T = ml_index S" for T
    using g that by (simp add: keeps_def good_def ml_ok_defs ttl_ok_def lru_live_def [abs_def] item_def)
  let ?A = "on_stats (\<lambda>st. st\<lparr>st_max_size := n\<rparr>) (S\<lparr>ml_max_size := n\<rparr>)"
  let ?B = "on_stats (\<lambda>st. st\<lparr>st_max_memory := n\<rparr>) (S\<lparr>ml_max_memory := n\<rparr>)"
  have A: "keeps S ?A" and B: "keeps S ?B"
    by (rule *; simp add: on_stats_def item_memory_def fun_eq_iff calc_item_memory_def item_def)+
  show "keeps S (set_max_size n S)"
    using A keeps_trans [OF A keeps_lets_go [OF keeps_good [OF A] lets_go_shrink [OF goodD(1) [OF keeps_good [OF A]]]]]
    by (cases "n = unlimited") (simp_all add: set_max_size_def Let_def)
  show "keeps S (set_max_memory n S)"
    using B keeps_trans [OF B keeps_lets_go [OF keeps_good [OF B] lets_go_shrink [OF goodD(1) [OF keeps_good [OF B]]]]]
    by (cases "n = unlimited") (simp_all add: set_max_memory_def Let_def)
qed

section \<open>Handles\<close>

text \<open>\<open>pins a S T\<close>: one more handle on item \<open>a\<close>; \<open>unpins a S T\<close>: one handle fewer.\<close>

lemma refcount_item_ok:
  assumes ok: "ml_ok S"
    and T: "T = on_item a (refcount_step f) S"
    and c: "is_in_container (refcount_step f (item S a)) = is_in_container (item S a)"
      "unclaimed (item S a) \<Longrightarrow> unclaimed (refcount_step f (item S a))"
    and r: "a \<in> snd ` set (ml_retired S) \<Longrightarrow> refs (refcount_step f (item S a)) = 0"
  shows "ml_ok T" "ttl_ok S \<Longrightarrow> ttl_ok T"
proof -
  have i: "item T b = (if b = a then refcount_step f (item S a) else item S b)" for b
    by (simp add: T on_item_def item_def)
  have m: "item_memory T b = item_memory S b" for b
    by (simp add: item_memory_def i) (simp add: T on_item_def calc_item_memory_def)
  have f: "ml_items T = ml_items S" "pending_deletion T = pending_deletion S" "ml_retired T = ml_retired S"
    "ml_fresh T = ml_fresh S" "ml_map T = ml_map S" "unpinned_tail T = unpinned_tail S"
    "insertion_point T = insertion_point S" "ml_stats T = ml_stats S" "ml_index T = ml_index S"
    by (simp_all add: T on_item_def)
  have "items_ok T" using ok c r unfolding ml_ok_def items_ok_def by (auto simp: f i)
  moreover have "map_ok T" using ok unfolding ml_ok_def map_ok_def by (simp add: f i)
  ultimately show "ml_ok T"
    using ok by (simp add: ml_ok_def addrs_ok_def cursors_ok_def counts_ok_def f m)
  show "ttl_ok S \<Longrightarrow> ttl_ok T" 
  proof -
    have "lru_live T = lru_live S" by (auto simp: lru_live_def fun_eq_iff f i intro!: map_option_cong)
    then show "ttl_ok S \<Longrightarrow> ttl_ok T" by (simp add: ttl_ok_def f)
  qed
qed

lemma make_handle_some:
  assumes g: "good S" and h: "make_handle a S = (Some b, T)"
  shows "b = a" "good T" "refs (item T a) = refs (item S a) + 1" "ml_fresh T = ml_fresh S"
    "c \<noteq> a \<Longrightarrow> item T c = item S c" "ml_items T = ml_items S" "is_in_container (item S a)"
    "it_value (item T c) = it_value (item S c)"
proof -
  have k: "fst (on_refcount incRef_try (item S a)) = kIncOk" and T: "T = on_item a (refcount_step incRef_try) S"
    using h by (auto simp: make_handle_def split: if_splits)
  show "b = a" using h by (auto simp: make_handle_def split: if_splits)
  show ic: "is_in_container (item S a)" using pin [OF k] by simp
  then have "a \<notin> snd ` set (ml_retired S)" using g by (auto simp: good_def ml_ok_def items_ok_def)
  then show "good T"
    using refcount_item_ok [OF goodD(1) [OF g] T] pin_effect [OF k] ic goodD(2) [OF g] by (auto simp: good_def)
  show "refs (item T a) = refs (item S a) + 1" using refs_pin [OF k] by (simp add: T on_item_def item_def)
  show "c \<noteq> a \<Longrightarrow> item T c = item S c" "ml_fresh T = ml_fresh S" "ml_items T = ml_items S"
    "it_value (item T c) = it_value (item S c)"
    by (simp_all add: T on_item_def item_def)
qed

lemma make_handle_none: "make_handle a S = (None, T) \<Longrightarrow> T = S"
  by (simp add: make_handle_def split: if_splits)

lemma release_handle_good:
  assumes g: "good S"
  shows "good (release_handle a S)" "refs (item (release_handle a S) a) = refs (item S a) - 1"
    "c \<noteq> a \<Longrightarrow> item (release_handle a S) c = item S c" "ml_fresh (release_handle a S) = ml_fresh S"
proof -
  have "a \<in> snd ` set (ml_retired S) \<Longrightarrow> refs (refcount_step decRef_try (item S a)) = 0"
    using g by (auto simp: good_def ml_ok_def items_ok_def unpin)
  then show "good (release_handle a S)"
    using refcount_item_ok [OF goodD(1) [OF g] release_handle_def, of a] goodD(2) [OF g]
    by (simp add: good_def unpin(2,3))
  show "refs (item (release_handle a S) a) = refs (item S a) - 1"
    "c \<noteq> a \<Longrightarrow> item (release_handle a S) c = item S c" "ml_fresh (release_handle a S) = ml_fresh S"
    by (simp_all add: release_handle_def on_item_def item_def unpin)
qed

end
