(* ===== verification/Mm_Lru_Client.thy ===== *)
theory Mm_Lru_Client
  imports Mm_Lru_Safe
begin

text \<open>
  A client of \<^verbatim>\<open>mm_lru\<close>: any sequence of public operations, with the read handles the client
  holds and releases, the clocks moving between operations and the update mutex busy or
  not. The theories \<open>Mm_Lru_Inv\<close> and \<open>Mm_Lru_Safe\<close> give the invariant of every state the client can
  reach; this theory draws the conclusions.
\<close>

section \<open>The client\<close>

datatype ('k, 'v) lru_op =
    Op_set 'k 'v | Op_set_with_expiry 'k 'v u64 | Op_add 'k 'v | Op_replace 'k 'v
  | Op_get 'k | Op_get_const 'k | Op_peek 'k | Op_peek_for_get 'k | Op_get_shared 'k | Op_contains 'k
  | Op_del 'k | Op_force_del 'k | Op_pop 'k | Op_pop_lru | Op_flush | Op_promote 'k | Op_evict
  | Op_evict_expired nat | Op_max_size nat | Op_max_memory nat | Op_predicate "'k \<Rightarrow> 'v \<Rightarrow> bool"
  | Op_release addr | Op_environment u32 u64 bool

type_synonym ('k, 'v) conf = "('k, 'v) mm_lru \<times> addr list"

definition holding :: "addr list \<Rightarrow> addr option \<times> ('k, 'v) mm_lru \<Rightarrow> ('k, 'v) conf" where
  "holding H r = (snd r, (case fst r of None \<Rightarrow> H | Some a \<Rightarrow> a # H))"

fun lru_step :: "('k, 'v) lru_op \<Rightarrow> ('k, 'v) conf \<Rightarrow> ('k, 'v) conf" where
  "lru_step (Op_set k v) (S, H) = (lru_set k v S, H)"
| "lru_step (Op_set_with_expiry k v e) (S, H) = (set_with_expiry k v e S, H)"
| "lru_step (Op_add k v) (S, H) = (snd (lru_add k v S), H)"
| "lru_step (Op_replace k v) (S, H) = (snd (lru_replace k v S), H)"
| "lru_step (Op_get k) (S, H) = holding H (lru_get k S)"
| "lru_step (Op_get_const k) (S, H) = holding H (lru_get_const k S)"
| "lru_step (Op_peek k) (S, H) = holding H (lru_peek k S)"
| "lru_step (Op_peek_for_get k) (S, H) = holding H (peek_for_get k S)"
| "lru_step (Op_get_shared k) (S, H) = (snd (get_shared k S), H)"
| "lru_step (Op_contains k) (S, H) = (snd (lru_contains k S), H)"
| "lru_step (Op_del k) (S, H) = (snd (lru_del k S), H)"
| "lru_step (Op_force_del k) (S, H) = (snd (force_del k S), H)"
| "lru_step (Op_pop k) (S, H) = (snd (lru_pop k S), H)"
| "lru_step Op_pop_lru (S, H) = (snd (pop_lru S), H)"
| "lru_step Op_flush (S, H) = (lru_flush S, H)"
| "lru_step (Op_promote k) (S, H) = (snd (lru_promote k S), H)"
| "lru_step Op_evict (S, H) = (evict_lru S, H)"
| "lru_step (Op_evict_expired n) (S, H) = (snd (lru_evict_expired_n n S), H)"
| "lru_step (Op_max_size n) (S, H) = (set_max_size n S, H)"
| "lru_step (Op_max_memory n) (S, H) = (set_max_memory n S, H)"
| "lru_step (Op_predicate p) (S, H) = (set_eviction_predicate p S, H)"
| "lru_step (Op_release a) (S, H) = (if a \<in> set H then (release_handle a S, remove1 a H) else (S, H))"
| "lru_step (Op_environment s n b) (S, H) = (S\<lparr>now_sec := s, now_ns := n, update_mutex_busy := b\<rparr>, H)"

definition lru_run :: "('k, 'v) lru_op list \<Rightarrow> ('k, 'v) conf \<Rightarrow> ('k, 'v) conf" where
  "lru_run = fold lru_step"

definition conf_ok :: "('k, 'v) conf \<Rightarrow> bool" where
  "conf_ok c \<longleftrightarrow>
     good (fst c) \<and> (\<forall>a < ml_fresh (fst c). refs (item (fst c) a) = count_list (snd c) a) \<and>
     (\<forall>a \<in> set (snd c). a < ml_fresh (fst c))"

lemma conf_okD: "conf_ok (S, H) \<Longrightarrow> good S"
  by (simp add: conf_ok_def)

lemma conf_ok_keeps:
  assumes c: "conf_ok (S, H)" and k: "keeps S T" shows "conf_ok (T, H)"
proof -
  have "refs (item T a) = count_list H a" if "a < ml_fresh T" for a
  proof (cases "a < ml_fresh S")
    case True
    with c k show ?thesis by (simp add: conf_ok_def keeps_def)
  next
    case False
    then have "a \<notin> set H" using c by (auto simp: conf_ok_def)
    with False that k show ?thesis by (simp add: keeps_def count_list_0_iff)
  qed
  moreover have "a < ml_fresh T" if "a \<in> set H" for a
  proof -
    have "a < ml_fresh S" using c that by (simp add: conf_ok_def)
    then show ?thesis using k by (simp add: keeps_def)
  qed
  ultimately show ?thesis using k by (simp add: conf_ok_def keeps_def)
qed

lemma item_fresh: "good S \<Longrightarrow> a \<in> set (ml_items S) \<Longrightarrow> a < ml_fresh S"
  by (auto simp: good_def ml_ok_def addrs_ok_def)

lemma conf_ok_handle:
  assumes c: "conf_ok (S, H)" and a: "a \<in> set (ml_items S)"
  shows "conf_ok (holding H (make_handle a S))"
proof (cases "make_handle a S")
  case (Pair h T)
  show ?thesis
  proof (cases h)
    case None
    with Pair c make_handle_none [of a S T] show ?thesis by (simp add: holding_def)
  next
    case (Some b)
    note m = make_handle_some [OF conf_okD [OF c] Pair [unfolded Some]]
    have "refs (item T b') = count_list (a # H) b'" if "b' < ml_fresh S" for b'
      using c m(1,3,4) m(5) [of b'] that by (cases "b' = a") (simp_all add: conf_ok_def)
    moreover have "\<forall>x \<in> set (a # H). x < ml_fresh S"
      using c item_fresh [OF conf_okD [OF c] a] by (simp add: conf_ok_def)
    ultimately show ?thesis using Pair Some m(1,2,4) by (simp add: holding_def conf_ok_def)
  qed
qed

lemma conf_ok_release:
  assumes c: "conf_ok (S, H)" and a: "a \<in> set H" shows "conf_ok (release_handle a S, remove1 a H)"
proof -
  note r = release_handle_good [OF conf_okD [OF c]]
  have n: "count_list (remove1 a H) b = (if b = a then count_list H a - 1 else count_list H b)" for b
    using count_list_remove1 by (induction H) auto
  have "refs (item (release_handle a S) b) = count_list (remove1 a H) b" if "b < ml_fresh S" for b
    using c that r(2) [of a] r(3) [of b a] by (cases "b = a") (simp_all add: n conf_ok_def)
  moreover have "\<forall>x \<in> set (remove1 a H). x < ml_fresh S"
    using c notin_set_remove1 by (fastforce simp: conf_ok_def dest: notin_set_remove1)
  ultimately show ?thesis using r(1,4) by (simp add: conf_ok_def)
qed


lemma conf_ok_get:
  assumes c: "conf_ok (S, H)"
  shows "conf_ok (holding H (lru_get k S))" "conf_ok (holding H (lru_get_const k S))"
    "conf_ok (holding H (lru_peek k S))"
proof -
  note g = conf_okD [OF c]
  have miss: "conf_ok (holding H (None, note_miss k S))"
    using conf_ok_keeps [OF c keeps_note(1) [OF g]] by (simp add: holding_def)
  have hit: "conf_ok (holding H (make_handle a (note_hit k a T)))"
    if "keeps S T" "a \<in> set (ml_items T)" for a T
  proof -
    note n = keeps_note(2) [OF keeps_good [OF that(1)], of k a]
    have "conf_ok (note_hit k a T, H)" using conf_ok_keeps [OF c keeps_trans [OF that(1) n]] .
    then show ?thesis
      by (rule conf_ok_handle) (use that(2) in \<open>simp add: note_hit_def report_def on_stats_def\<close>)
  qed
  show "conf_ok (holding H (lru_get k S))"
  proof (cases "ml_map S k")
    case (Some a)
    have a: "a \<in> set (ml_items S)" by (rule mapped_in [OF g Some])
    have "set (ml_items (snd (record_access a Read_access S))) = set (ml_items S)"
      using record_access_quiet [OF ml_okD(4) [OF goodD(1) [OF g]] a] by (auto simp: quiet_def dest: mset_eq_setD)
    with hit [OF keeps_record_access [OF g a]] a Some show ?thesis by (simp add: lru_get_def)
  qed (simp add: lru_get_def miss)
  show "conf_ok (holding H (lru_get_const k S))"
  proof (cases "ml_map S k")
    case (Some a)
    with hit [OF keeps_refl [OF g]] mapped_in [OF g Some] show ?thesis by (simp add: lru_get_const_def)
  qed (simp add: lru_get_const_def miss)
  show "conf_ok (holding H (lru_peek k S))"
  proof (cases "ml_map S k")
    case (Some a)
    with conf_ok_handle [OF c mapped_in [OF g Some]] show ?thesis by (simp add: lru_peek_def)
  qed (use c in \<open>simp add: lru_peek_def holding_def\<close>)
qed

lemma conf_ok_peek_for_get:
  assumes c: "conf_ok (S, H)" shows "conf_ok (holding H (peek_for_get k S))"
proof (cases "lru_peek k S")
  case (Pair h T)
  note p = conf_ok_get(3) [OF c, of k, unfolded Pair]
  show ?thesis
  proof (cases h)
    case None
    with Pair p show ?thesis by (simp add: peek_for_get_def)
  next
    case (Some a)
    with p have t: "conf_ok (T, a # H)" by (simp add: holding_def)
    note g = conf_okD [OF t]
    let ?A = "on_stats (\<lambda>st. st\<lparr>ttl_checked_count := ttl_checked_count st + 1\<rparr>) T"
    let ?B = "on_stats (\<lambda>st. st\<lparr>ttl_expired_count := ttl_expired_count st + 1,
      evictions_ttl := evictions_ttl st + 1\<rparr>) ?A"
    have kA: "keeps T ?A" by (rule keeps_stats [OF g]) simp_all
    have kB: "keeps ?A ?B" by (rule keeps_stats [OF keeps_good [OF kA]]) simp_all
    have A: "conf_ok (?A, a # H)" by (rule conf_ok_keeps [OF t kA])
    have "conf_ok (?B, a # H)" by (rule conf_ok_keeps [OF A kB])
    then have R: "conf_ok (release_handle a ?B, H)" using conf_ok_release [of ?B "a # H" a] by simp
    have E: "conf_ok (note_miss k (release_handle a ?B), H)"
      by (rule conf_ok_keeps [OF R keeps_note(1) [OF conf_okD [OF R]]])
    have N: "conf_ok (U\<lparr>cached_now_ns := n\<rparr>, a # H)" if "conf_ok (U, a # H)" for U n
    proof (rule conf_ok_keeps [OF that], rule keeps_quiet [OF conf_okD [OF that]])
      show "quiet U (U\<lparr>cached_now_ns := n\<rparr>)"
        using ml_okD(4) [OF goodD(1) [OF conf_okD [OF that]]]
        by (simp add: quiet_def cursors_ok_def same_env_def item_def)
    qed
    show ?thesis
      using Pair Some t N [OF A] E
      by (simp add: peek_for_get_def check_expiry_def holding_def Let_def)
  qed
qed

lemma conf_ok_ops:
  assumes c: "conf_ok (S, H)"
  shows "conf_ok (lru_set k v S, H)" "conf_ok (set_with_expiry k v e S, H)" "conf_ok (snd (lru_add k v S), H)"
    "conf_ok (snd (lru_replace k v S), H)" "conf_ok (snd (get_shared k S), H)"
    "conf_ok (snd (lru_contains k S), H)" "conf_ok (snd (lru_del k S), H)" "conf_ok (snd (force_del k S), H)"
    "conf_ok (snd (lru_pop k S), H)" "conf_ok (snd (pop_lru S), H)" "conf_ok (snd (lru_promote k S), H)"
    "conf_ok (set_max_size n S, H)" "conf_ok (set_max_memory n S, H)"
proof -
  note g = conf_okD [OF c]
  note k = keeps_set [OF g] keeps_set_with_expiry [OF g] keeps_add [OF g] keeps_replace [OF g]
    keeps_get_shared [OF g] keeps_contains [OF g] keeps_del [OF g] keeps_force_del [OF g] keeps_pop [OF g]
    keeps_promote [OF g] keeps_max [OF g]
  show "conf_ok (lru_set k v S, H)" "conf_ok (set_with_expiry k v e S, H)" "conf_ok (snd (lru_add k v S), H)"
    "conf_ok (snd (lru_replace k v S), H)" "conf_ok (snd (get_shared k S), H)"
    "conf_ok (snd (lru_contains k S), H)" "conf_ok (snd (lru_del k S), H)" "conf_ok (snd (force_del k S), H)"
    "conf_ok (snd (lru_pop k S), H)" "conf_ok (snd (pop_lru S), H)" "conf_ok (snd (lru_promote k S), H)"
    "conf_ok (set_max_size n S, H)" "conf_ok (set_max_memory n S, H)"
    by (rule conf_ok_keeps [OF c], rule k)+
qed

lemma conf_ok_step: "conf_ok c \<Longrightarrow> conf_ok (lru_step x c)"
proof (induction x c rule: lru_step.induct)
  case (15 S H)
  then show ?case
    using conf_ok_keeps [OF 15 keeps_lets_go [OF conf_okD [OF 15] flush_lets_go(1)]] goodD(1) [OF conf_okD [OF 15]]
    by simp
next
  case (17 S H)
  then show ?case
    using conf_ok_keeps [OF 17 keeps_lets_go [OF conf_okD [OF 17] lets_go_evict]] goodD(1) [OF conf_okD [OF 17]]
    by simp
next
  case (18 n S H)
  note g = conf_okD [OF 18]
  show ?case
    using conf_ok_keeps [OF 18 keeps_lets_go [OF g evict_expired_good [OF goodD [OF g]]]] by simp
next
  case (21 p S H)
  have "keeps S (S\<lparr>eviction_predicate := Some p\<rparr>)"
    using conf_okD [OF 21]
    by (simp add: keeps_def good_def ml_ok_defs ttl_ok_def lru_live_def [abs_def] item_def item_memory_def
        calc_item_memory_def)
  then show ?case using conf_ok_keeps [OF 21] by (simp add: set_eviction_predicate_def)
next
  case (23 s n b S H)
  have "keeps S (S\<lparr>now_sec := s, now_ns := n, update_mutex_busy := b\<rparr>)"
    using conf_okD [OF 23]
    by (simp add: keeps_def good_def ml_ok_defs ttl_ok_def lru_live_def [abs_def] item_def item_memory_def
        calc_item_memory_def)
  then show ?case using conf_ok_keeps [OF 23] by simp
qed (simp_all add: conf_ok_get conf_ok_peek_for_get conf_ok_release conf_ok_ops)

lemma conf_ok_run: "conf_ok c \<Longrightarrow> conf_ok (lru_run xs c)"
  unfolding lru_run_def by (induction xs arbitrary: c) (simp_all add: conf_ok_step)

lemma new_ok:
  assumes "mm_lru_bounded s n ov cb ms mm c = Inr S"
  shows "conf_ok (S, [])"
  using assms
  by (auto simp: mm_lru_bounded_def mm_lru_new_def on_stats_def conf_ok_def good_def ml_ok_defs ttl_ok_def
      lru_live_def [abs_def] indexed_def new_stats_def th_new_def th_ok_def expiry.wf_empty item_def split: if_splits)

end
