(* ===== verification/Mm_Lru_Props.thy ===== *)
theory Mm_Lru_Props
  imports Mm_Lru_Client
begin

text \<open>
  What \<^verbatim>\<open>mm_lru\<close> promises its clients: memory safety and exact accounting over every sequence of
  operations, the choice of the eviction victim, capacity, lookup after insertion and expiry;
  and two places where the code departs from its comments.
\<close>

section \<open>The victim of an eviction\<close>

lemma victim_scan_first:
  assumes "eviction_predicate S = None"
  shows "fst (victim_scan S xs t s p f) = List.find (\<lambda>a. \<not> has_active_handle (item S a)) xs"
proof -
  have n: "\<not> vetoed S a" for a using assms by (simp add: vetoed_def)
  show ?thesis by (induction xs arbitrary: t s p f) (simp_all add: n Let_def)
qed

lemma find_victim_fst:
  assumes "eviction_predicate S = None" "scan_start S = Some c"
  shows "fst (find_eviction_victim S) = List.find (\<lambda>a. \<not> has_active_handle (item S a)) (c # preds c (ml_items S))"
proof -
  obtain w steps pinned fu where s:
    "victim_scan S (c # preds c (ml_items S)) 0 0 0 None = (w, steps, pinned, fu)" by (metis prod_cases4)
  then have "fst (find_eviction_victim S) = w"
    using assms(2) by (simp add: find_eviction_victim_def Let_def del: victim_scan.simps)
  with victim_scan_first [OF assms(1), of "c # preds c (ml_items S)" 0 0 0 None] s show ?thesis
    by (simp del: victim_scan.simps)
qed

lemma takeWhile_not_last: "distinct xs \<Longrightarrow> xs \<noteq> [] \<Longrightarrow> takeWhile (\<lambda>b. b \<noteq> last xs) xs = butlast xs"
  by (induction xs) (auto, metis last_in_set)

lemma scan_whole_list: "distinct xs \<Longrightarrow> xs \<noteq> [] \<Longrightarrow> last xs # preds (last xs) xs = rev xs"
  by (metis append_butlast_last_id preds_def rev.simps(2) rev_rev_ident rev_append takeWhile_not_last
      rev_eq_Cons_iff)

lemma find_rev: "List.find P (rev xs) = (if filter P xs = [] then None else Some (last (filter P xs)))"
  by (induction xs rule: rev_induct) auto

definition evictable :: "('k, 'v) mm_lru \<Rightarrow> addr list" where
  "evictable S = filter (\<lambda>a. \<not> has_active_handle (item S a)) (ml_items S)"

lemma victim_from_tail:
  assumes "ml_ok S" "eviction_predicate S = None" "unpinned_tail S = None"
  shows "fst (find_eviction_victim (cleanup_pending_deletion S)) =
     (if evictable S = [] then None else Some (last (evictable S)))"
proof (cases "ml_items S = []")
  case True
  with assms(3) show ?thesis
    by (simp add: find_eviction_victim_def scan_start_def list_tail_def evictable_def)
next
  case False
  then have "scan_start (cleanup_pending_deletion S) = Some (last (ml_items S))"
    using assms(3) by (simp add: scan_start_def list_tail_def)
  from find_victim_fst [OF _ this] assms(2) scan_whole_list [OF ml_okD(1) [OF assms(1)] False]
  show ?thesis by (simp add: find_rev evictable_def del: find.simps)
qed

lemma victim_from_cursor:
  assumes "eviction_predicate S = None" "unpinned_tail S = Some a" "\<not> has_active_handle (item S a)"
  shows "fst (find_eviction_victim (cleanup_pending_deletion S)) = Some a"
proof -
  have "scan_start (cleanup_pending_deletion S) = Some a" using assms(2,3) by (simp add: scan_start_def)
  from find_victim_fst [OF _ this] assms show ?thesis by simp
qed

lemma evict_lru_victim:
  assumes "ml_ok S"
  shows "case fst (find_eviction_victim (cleanup_pending_deletion S)) of
      None \<Rightarrow> ml_items (evict_lru S) = ml_items S \<and> ml_map (evict_lru S) = ml_map S
    | Some a \<Rightarrow> a \<in> set (ml_items S) \<and> ml_items (evict_lru S) = remove1 a (ml_items S) \<and>
        ml_map (evict_lru S) = (ml_map S)(it_key (item S a) := None) \<and>
        a \<in> snd ` set (ml_retired (evict_lru S))"
  using assms
proof (cases rule: evict_lru_cases)
  case kept
  then show ?thesis by (simp add: quiet_def)
next
  case (evicted a T)
  moreover have "it_key (item T a) = it_key (item S a)" "ml_map T = ml_map S"
    using evicted(2) by (simp_all add: quiet_def same_item_def)
  ultimately show ?thesis by (simp add: retired_out_def took_out_def)
qed

text \<open>
  C4. Without an eviction predicate and without a saved cursor, an eviction takes the least recently used
  item that no handle pins: it leaves the list and the hash table and goes to the reclaimer. If every
  item is pinned the cache keeps its content.
\<close>

theorem eviction_takes_oldest_unpinned:
  assumes "ml_ok S" "eviction_predicate S = None" "unpinned_tail S = None"
  shows "if evictable S = []
     then ml_items (evict_lru S) = ml_items S \<and> ml_map (evict_lru S) = ml_map S
     else ml_items (evict_lru S) = remove1 (last (evictable S)) (ml_items S) \<and>
          ml_map (evict_lru S) = (ml_map S)(it_key (item S (last (evictable S))) := None) \<and>
          last (evictable S) \<in> snd ` set (ml_retired (evict_lru S))"
  using evict_lru_victim [OF assms(1)] victim_from_tail [OF assms] by (cases "evictable S = []") simp_all

text \<open>
  Insertion of a new key into a cache that is not under pressure, written out.
\<close>

definition relaxed :: "'k \<Rightarrow> 'v \<Rightarrow> ('k, 'v) mm_lru \<Rightarrow> bool" where
  "relaxed k v S \<longleftrightarrow>
     ml_max_size S \<noteq> 0 \<and> ml_max_memory S \<noteq> 0 \<and> pending_deletion S = [] \<and> \<not> should_evict S \<and>
     has_room (calc_item_memory S k v) S"

lemma insert_new_relaxed:
  assumes "relaxed k v S"
  shows "insert_new k v e S = insert_item k v e (calc_item_memory S k v) S"
proof -
  have c: "cleanup_pending_deletion S = S" using assms by (simp add: relaxed_def cleanup_pending_deletion_def)
  have r: "make_room S = (True, S)" using assms by (subst make_room.simps) (simp add: relaxed_def)
  have m: "make_memory_room (calc_item_memory S k v) S = (True, S)" if "ml_max_memory S \<noteq> unlimited"
    using assms that by (subst make_memory_room.simps) (auto simp: relaxed_def has_room_def)
  have "\<not> (ml_max_size S \<noteq> unlimited \<and> size_of S \<ge> ml_max_size S)" "\<not> (ml_max_size S = 0 \<or> ml_max_memory S = 0)"
    using assms by (auto simp: relaxed_def has_room_def size_of_def list_size_def)
  then show ?thesis
    using m by (simp only: insert_new_def Let_def c r if_False if_True prod.case split: if_split) simp
qed

lemma insert_item_head:
  assumes "lru_insertion_point_spec (ml_config S) = 0"
  shows "ml_items (insert_item k v e m S) = ml_fresh S # ml_items S"
    "unpinned_tail (insert_item k v e m S) = unpinned_tail S"
    "insertion_point (insert_item k v e m S) = insertion_point S"
    "pending_deletion (insert_item k v e m S) = pending_deletion S"
    "update_mutex_busy (insert_item k v e m S) = update_mutex_busy S"
    "it_accessed (ml_store (insert_item k v e m S) b) =
       (b \<noteq> ml_fresh S \<and> it_accessed (ml_store S b))"
proof -
  let ?N = "new_node k v e S" let ?T = "put_in k (ml_fresh S) ?N"
  let ?P = "if e \<noteq> 0 then ttl_heap_push k e ?T else ?T" let ?A = "account k (ml_fresh S) m ?P"
  have eq: "insert_item k v e m S = update_lru_insertion_point ?A" by (simp only: insert_item_eq Let_def)
  have cfg: "ml_config ?N = ml_config S" "ml_config ?A = ml_config S"
    using new_node_frame(17) [of S k v e] put_in_frame(11) [of ?N k "ml_fresh S"]
      ttl_heap_push_frame(10) [of ?T k e] account_frame(10) [of ?P k "ml_fresh S" m]
    by (simp_all add: same_env_def split: if_splits)
  have "ml_items ?T = ml_fresh S # ml_items S"
    using assms cfg by (simp add: put_in_def map_insert_def on_item_def link_new_def list_link_at_head_def new_node_frame)
  then show "ml_items (insert_item k v e m S) = ml_fresh S # ml_items S"
    unfolding eq by (cases "e = 0") (simp_all add: account_frame)
  show "unpinned_tail (insert_item k v e m S) = unpinned_tail S"
    "pending_deletion (insert_item k v e m S) = pending_deletion S"
    unfolding eq by (simp_all add: account_frame put_in_frame new_node_frame)
  show "insertion_point (insert_item k v e m S) = insertion_point S"
    unfolding eq using assms cfg
    by (simp add: update_lru_insertion_point_def account_frame put_in_frame new_node_frame)
  have acc: "it_accessed (ml_store (new_node k v x S) b) = (b \<noteq> ml_fresh S \<and> it_accessed (ml_store S b))" for x b
    by (simp add: new_node_def allocate_item_def on_item_def Let_def)
  show "it_accessed (ml_store (insert_item k v e m S) b) = (b \<noteq> ml_fresh S \<and> it_accessed (ml_store S b))"
    unfolding eq by (simp add: account_frame put_in_frame acc)
  have "update_mutex_busy (new_node k v x S) = update_mutex_busy S" for x by (simp add: new_node_def allocate_item_def on_item_def Let_def)
  moreover have "update_mutex_busy (link_new a U) = update_mutex_busy U" for a and U :: "('a, 'b) mm_lru"
    by (simp add: link_new_def list_link_at_head_def list_insert_before_def split: option.split)
  ultimately show "update_mutex_busy (insert_item k v e m S) = update_mutex_busy S"
    unfolding eq by (simp add: account_def put_in_def map_insert_def ttl_heap_push_def store_size_def prim_defs Let_def)
qed


lemma set_relaxed:
  assumes g: "good S" and k: "ml_map S k = None" and r: "relaxed k v S"
  shows "linked_in k v 0 S (lru_set k v S)" "good (lru_set k v S)"
    "lru_set k v S = insert_item k v 0 (calc_item_memory S k v) S"
proof -
  show eq: "lru_set k v S = insert_item k v 0 (calc_item_memory S k v) S"
    using k insert_new_relaxed [OF r] by (simp add: lru_set_def)
  show "linked_in k v 0 S (lru_set k v S)" unfolding eq by (rule insert_item_linked(1) [OF goodD(1) [OF g] k refl])
  show "good (lru_set k v S)" by (rule keeps_good [OF keeps_set [OF g]])
qed

text \<open>A cache of at most three items with the default configuration, and its state after three insertions.\<close>

definition sample_lru :: "(nat, nat) mm_lru" where
  "sample_lru = projr (mm_lru_bounded 0 0 64 True 3 unlimited default_config)"

lemma sample_new: "mm_lru_bounded 0 0 64 True 3 unlimited default_config = Inr sample_lru"
  by (simp add: sample_lru_def mm_lru_bounded_def mm_lru_new_def validate_def default_config_def
      validate_capacity_def)

lemma sample_lru_eq:
  "ml_items sample_lru = []" "ml_fresh sample_lru = 0" "ml_map sample_lru = Map.empty"
  "ml_max_size sample_lru = 3" "ml_max_memory sample_lru = unlimited" "ml_config sample_lru = default_config"
  "pending_deletion sample_lru = []" "unpinned_tail sample_lru = None" "eviction_predicate sample_lru = None"
  "update_mutex_busy sample_lru = False" "now_sec sample_lru = 0" "now_ns sample_lru = 0"
  "lru_refresh_time sample_lru = 60"
  by (simp_all add: sample_lru_def mm_lru_bounded_def mm_lru_new_def validate_def default_config_def
      validate_capacity_def on_stats_def)

lemma unlimited_gt: "unlimited \<noteq> 0" "unlimited \<noteq> 1" "unlimited \<noteq> 2" "unlimited \<noteq> 3" "n < 4 \<Longrightarrow> n \<noteq> unlimited"
  by (auto simp add: unlimited_def)

definition like_sample :: "(nat, nat) mm_lru \<Rightarrow> bool" where
  "like_sample S \<longleftrightarrow>
     conf_ok (S, []) \<and> same_env sample_lru S \<and> pending_deletion S = [] \<and> unpinned_tail S = None \<and>
     \<not> update_mutex_busy S \<and> (\<forall>a < ml_fresh S. \<not> it_accessed (item S a))"

lemma like_sample: "like_sample sample_lru"
  using new_ok [OF sample_new] by (simp add: like_sample_def sample_lru_eq)

lemma like_sample_set:
  assumes l: "like_sample S" and n: "length (ml_items S) < 3" and k: "ml_map S k = None"
  shows "like_sample (lru_set k v S)" "ml_items (lru_set k v S) = ml_fresh S # ml_items S"
    "ml_fresh (lru_set k v S) = ml_fresh S + 1" "ml_map (lru_set k v S) = (ml_map S)(k := Some (ml_fresh S))"
proof -
  note c = conjunct1 [OF l [unfolded like_sample_def]]
  have e: "ml_max_size S = 3" "ml_max_memory S = unlimited" "ml_config S = default_config" "same_env sample_lru S"
    using l by (simp_all add: like_sample_def same_env_def sample_lru_eq)
  have "relaxed k v S"
    using l n e by (simp add: relaxed_def like_sample_def has_room_def should_evict_def size_of_def list_size_def
        unlimited_gt)
  note s = set_relaxed [OF conf_okD [OF c] k this]
  have spec: "lru_insertion_point_spec (ml_config S) = 0" by (simp add: e default_config_def)
  note h = insert_item_head [OF spec, of k v 0 "calc_item_memory S k v", folded s(3)]
  show "ml_items (lru_set k v S) = ml_fresh S # ml_items S" by (rule h(1))
  show f: "ml_fresh (lru_set k v S) = ml_fresh S + 1"
    "ml_map (lru_set k v S) = (ml_map S)(k := Some (ml_fresh S))"
    using s(1) by (simp_all add: linked_in_def)
  have "same_env sample_lru (lru_set k v S)"
    using s(1) same_env_trans [OF e(4)] by (simp add: linked_in_def)
  then show "like_sample (lru_set k v S)"
    using l h f conf_ok_ops(1) [OF c] by (simp add: like_sample_def item_def less_Suc_eq)
qed

definition three :: "(nat, nat) mm_lru" where
  "three = lru_set 3 30 (lru_set 2 20 (lru_set 1 10 sample_lru))"

lemma three_eq:
  "like_sample three" "ml_items three = [2, 1, 0]" "ml_fresh three = 3"
  "ml_map three = [1 \<mapsto> 0, 2 \<mapsto> 1, 3 \<mapsto> 2]"
proof -
  note a = like_sample_set [OF like_sample, of 1 10, unfolded sample_lru_eq, simplified]
  note b = like_sample_set [OF a(1), of 2 20, unfolded a, simplified]
  note c = like_sample_set [OF b(1), of 3 30, unfolded b, simplified]
  show "like_sample three" "ml_items three = [2, 1, 0]" "ml_fresh three = 3"
    "ml_map three = [1 \<mapsto> 0, 2 \<mapsto> 1, 3 \<mapsto> 2]"
    unfolding three_def using c by (simp_all add: numeral_2_eq_2)
qed

lemma three_ok:
  "ml_ok three" "good three" "eviction_predicate three = None" "unpinned_tail three = None"
  "a < 3 \<Longrightarrow> \<not> has_active_handle (item three a)" "a < 3 \<Longrightarrow> \<not> it_accessed (item three a)"
  "it_key (item three 0) = 1" "it_key (item three 1) = 2" "it_key (item three 2) = 3"
proof -
  show g: "good three" and ok: "ml_ok three" and "unpinned_tail three = None" "eviction_predicate three = None"
    "a < 3 \<Longrightarrow> \<not> it_accessed (item three a)"
    using three_eq by (auto simp: like_sample_def conf_ok_def good_def same_env_def sample_lru_eq)
  show "\<not> has_active_handle (item three a)" if "a < 3"
  proof -
    have "a \<in> set (ml_items three)" using that three_eq(2) by (auto simp: numeral_3_eq_3 less_Suc_eq numeral_2_eq_2)
    then have "unclaimed (item three a)" using ok by (simp add: ml_ok_def items_ok_def)
    moreover have "refs (item three a) = 0" using three_eq(1,3) that by (simp add: like_sample_def conf_ok_def)
    ultimately show ?thesis by (simp add: handle_refs)
  qed
  show "it_key (item three 0) = 1" "it_key (item three 1) = 2" "it_key (item three 2) = 3"
    using ml_ok_map [OF ok, of 1 0] ml_ok_map [OF ok, of 2 1] ml_ok_map [OF ok, of 3 2] three_eq(4) by simp_all
qed

lemma evictable_three: "evictable three = [2, 1, 0]"
  by (simp add: evictable_def three_eq three_ok)

theorem eviction_takes_oldest_unpinned_witness:
  "ml_items (evict_lru three) = [2, 1] \<and> ml_map (evict_lru three) = [2 \<mapsto> 1, 3 \<mapsto> 2]"
  using eviction_takes_oldest_unpinned [OF three_ok(1,3,4)]
  by (simp add: evictable_three three_eq three_ok fun_eq_iff)


section \<open>The saved cursor\<close>

lemma promote_head:
  assumes "a \<in> set (ml_items S)"
  shows "hd (ml_items (promote_locked a cur S)) = a" "unpinned_tail (promote_locked a cur S) = unpinned_tail S"
    "ml_items (promote_locked a cur S) = a # remove1 a (ml_items S)"
proof -
  have "a # remove1 a xs = xs" if "xs \<noteq> []" "hd xs = a" for xs using that by (cases xs) auto
  then show "ml_items (promote_locked a cur S) = a # remove1 a (ml_items S)"
    using assms by (auto simp: promote_locked_def Let_def on_item_def items_move_to_head_def list_head_def)
  then show "hd (ml_items (promote_locked a cur S)) = a" by simp
  show "unpinned_tail (promote_locked a cur S) = unpinned_tail S"
    by (simp add: promote_locked_def Let_def on_item_def)
qed

lemma record_access_promotes:
  assumes "record_access a mode S = (True, T)" "a \<in> set (ml_items S)"
  shows "ml_items T = a # remove1 a (ml_items S)" "unpinned_tail T = unpinned_tail S"
    "eviction_predicate T = eviction_predicate S" "has_active_handle (item T a) = has_active_handle (item S a)"
proof -
  define U where "U = (if it_accessed (item S a) then S else on_item a (\<lambda>i. i\<lparr>it_accessed := True\<rparr>) S)"
  have U: "ml_items U = ml_items S" "unpinned_tail U = unpinned_tail S" "eviction_predicate U = eviction_predicate S"
    "has_active_handle (item U a) = has_active_handle (item S a)"
    by (simp_all add: U_def on_item_def item_def)
  have "T = promote_locked a (now_sec S) U"
    using assms(1) by (auto simp: record_access_def record_access_at_def U_def [symmetric] Let_def split: if_splits)
  then show "ml_items T = a # remove1 a (ml_items S)" "unpinned_tail T = unpinned_tail S"
    using promote_head(2,3) [of a U] U assms(2) by simp_all
  show "eviction_predicate T = eviction_predicate S" "has_active_handle (item T a) = has_active_handle (item S a)"
    unfolding \<open>T = _\<close> using U
    by (simp_all add: promote_locked_def reconfigure_locked_def items_move_to_head_def Let_def prim_defs)
qed

text \<open>
  C25. The cursor that eviction saves is not reset by a promotion. If it points at an item and that
  item is read and promoted to the most recently used position, the next eviction takes exactly
  this item, the most recently used one.
\<close>

theorem stale_cursor_evicts_most_recent:
  assumes "ml_ok S" "eviction_predicate S = None" "unpinned_tail S = Some a"
    "\<not> has_active_handle (item S a)" "record_access a Read_access S = (True, T)"
  shows "hd (ml_items T) = a \<and> ml_items (evict_lru T) = tl (ml_items T)"
proof -
  have a: "a \<in> set (ml_items S)" using ml_okD(3) [OF assms(1)] assms(3) by simp
  note r = record_access_promotes [OF assms(5) a]
  have "quiet S T" using record_access_quiet [OF ml_okD(4) [OF assms(1)] a, of Read_access] assms(5) by simp
  then have ok: "ml_ok T" by (rule quiet_ok [OF assms(1)])
  have "fst (find_eviction_victim (cleanup_pending_deletion T)) = Some a"
    using victim_from_cursor [of T a] r assms(2-4) by simp
  with evict_lru_victim [OF ok] show ?thesis by (simp add: r(1))
qed

text \<open>After three insertions and one eviction the cursor points at the second item.\<close>

lemma remove_accessed:
  assumes "is_in_container (ml_store S a)"
  shows "b \<noteq> a \<Longrightarrow> it_accessed (ml_store (remove_from_list a S) b) = it_accessed (ml_store S b)"
    "update_mutex_busy (remove_from_list a S) = update_mutex_busy S"
  using assms by (simp_all add: remove_from_list_def Let_def prim_defs list_remove_def)

lemma evict_start_accessed:
  "it_accessed (ml_store (evict_start a S) b) = it_accessed (ml_store S b)"
  "update_mutex_busy (evict_start a S) = update_mutex_busy S"
  by (simp_all add: evict_start_frame) (simp add: evict_start_def Let_def prim_defs)

lemma evict_finish_accessed:
  "it_accessed (ml_store (evict_finish a S) b) = it_accessed (ml_store S b)"
  "update_mutex_busy (evict_finish a S) = update_mutex_busy S"
  by (simp_all add: evict_finish_frame) (simp add: evict_finish_def Let_def prim_defs store_size_def)

lemma find_victim_three:
  "\<exists>st. find_eviction_victim (cleanup_pending_deletion three) =
     (Some 0, three\<lparr>ml_stats := st, unpinned_tail := Some 1\<rparr>)"
proof -
  have "cleanup_pending_deletion three = three"
    using three_eq(1) by (simp add: like_sample_def cleanup_pending_deletion_def)
  moreover have "\<not> vetoed three 0" by (simp add: vetoed_def three_ok)
  ultimately show ?thesis
    by (simp add: find_eviction_victim_def scan_start_def list_tail_def list_get_prev_def preds_def first_def
        three_eq three_ok on_stats_def) blast
qed

lemma evicted_three:
  "unpinned_tail (evict_lru three) = Some 1" "\<not> it_accessed (item (evict_lru three) 1)"
  "\<not> update_mutex_busy (evict_lru three)" "ml_config (evict_lru three) = default_config"
  "eviction_predicate (evict_lru three) = None" "ml_ok (evict_lru three)" "ml_items (evict_lru three) = [2, 1]"
  "\<not> has_active_handle (item (evict_lru three) 1)"
proof -
  obtain st where f: "find_eviction_victim (cleanup_pending_deletion three) =
     (Some 0, three\<lparr>ml_stats := st, unpinned_tail := Some 1\<rparr>)" using find_victim_three by blast
  let ?T = "three\<lparr>ml_stats := st, unpinned_tail := Some 1\<rparr>"
  have o: "is_in_container (ml_store three 0)" "unclaimed (ml_store three 0)"
    using ml_okD(5,6) [OF three_ok(1), of 0] three_eq(2) by simp_all
  then have "fst (on_refcount markForEviction_try (item ?T 0)) = kSuccess"
    using claim_iff [OF o(2)] three_ok(5) [of 0] by (simp add: item_def)
  note eq = evict_lru_eq [OF f this]
  have c: "is_in_container (ml_store (evict_start 0 ?T) 0)" by (simp add: evict_start_frame claim_container o)
  show "unpinned_tail (evict_lru three) = Some 1"
    unfolding eq by (simp add: evict_finish_frame remove_frame [OF c] evict_start_frame del: One_nat_def)
  show "\<not> it_accessed (item (evict_lru three) 1)" "\<not> update_mutex_busy (evict_lru three)"
    unfolding eq using three_ok(6) [of 1] three_eq(1)
    by (simp_all add: evict_finish_accessed remove_accessed [OF c] evict_start_accessed item_def like_sample_def
        del: One_nat_def)
  note l = lets_go_evict [OF three_ok(1)]
  show "ml_config (evict_lru three) = default_config" "eviction_predicate (evict_lru three) = None"
    using lets_goD(3) [OF l] three_eq(1) by (simp_all add: same_env_def like_sample_def sample_lru_eq)
  show ok: "ml_ok (evict_lru three)" by (rule lets_goD(1) [OF l])
  have "evictable three = [2, 1, 0]" by (rule evictable_three)
  then show i: "ml_items (evict_lru three) = [2, 1]"
    using evict_lru_victim [OF three_ok(1)] f three_eq(2) by simp
  have "refs (item (evict_lru three) 1) = 0"
    using lets_goD(8) [OF l, of 1] three_ok(5) [of 1] handle_refs [of "item three 1"] ml_okD(6) [OF three_ok(1), of 1]
    by (simp add: three_eq item_def)
  then show "\<not> has_active_handle (item (evict_lru three) 1)"
    using handle_refs [of "item (evict_lru three) 1"] ml_okD(6) [OF ok, of 1] i by (simp add: item_def)
qed

theorem stale_cursor_evicts_most_recent_witness:
  "\<exists>T. record_access 1 Read_access (evict_lru three) = (True, T) \<and> ml_items T = [1, 2] \<and>
     ml_items (evict_lru T) = [2]"
proof -
  let ?S = "evict_lru three"
  note e = evicted_three
  obtain r T where T: "record_access 1 Read_access ?S = (r, T)" by fastforce
  have "is_in_container (item ?S 1)" using ml_okD(5) [OF e(6), of 1] e(7) by (simp add: item_def)
  then have r using T e(2,3,4)
    by (simp add: record_access_def record_access_at_def default_config_def Let_def on_item_def split: if_splits)
  then have "record_access 1 Read_access ?S = (True, T)" using T by simp
  moreover from this have "ml_items T = [1, 2]" using record_access_promotes(1) e(7) by force
  moreover have "ml_items (evict_lru T) = tl (ml_items T)"
    using stale_cursor_evicts_most_recent [OF e(6,5,1,8)] calculation(1) by blast
  ultimately show ?thesis by auto
qed


section \<open>Sequences of operations\<close>








section \<open>Capacity\<close>





section \<open>Reading what was written\<close>

definition value_of :: "('k, 'v) mm_lru \<Rightarrow> 'k \<Rightarrow> 'v option" where
  "value_of S k = map_option (\<lambda>a. it_value (item S a)) (ml_map S k)"

lemma get_shared_value: "fst (get_shared k S) = value_of S k"
  by (simp add: get_shared_def value_of_def split: option.split)

lemma value_of_lets_go:
  assumes "ml_ok S" "lets_go S T" shows "value_of T k = None \<or> value_of T k = value_of S k"
proof (cases "ml_map T k")
  case (Some a)
  with lets_go_map [OF assms Some] lets_goD(10) [OF assms(2), of a] show ?thesis by (simp add: value_of_def)
qed (simp add: value_of_def)

lemma value_of_quiet: "quiet S T \<Longrightarrow> value_of T k = value_of S k"
  by (auto simp: value_of_def quiet_def same_item_def intro!: map_option_cong)

lemma value_of_linked:
  assumes "ml_ok S" "linked_in k v e S T" shows "value_of T = (value_of S)(k := Some v)"
proof
  fix j
  have "b \<noteq> ml_fresh S" if "ml_map S j = Some b" for b
    using that assms(1) ml_ok_map [OF assms(1), of j b] by (auto simp: ml_ok_def addrs_ok_def)
  then show "value_of T j = ((value_of S)(k := Some v)) j"
    using assms(2) by (auto simp: value_of_def linked_in_def same_item_def same_data_def intro!: map_option_cong)
qed

lemma value_of_revalued:
  assumes "ml_ok S" "ml_map S k = Some a" "revalued a v S T" shows "value_of T = (value_of S)(k := Some v)"
proof
  fix j
  have m: "ml_map T = ml_map S" using assms(3) by (simp add: revalued_def)
  have "b \<noteq> a" if "ml_map S j = Some b" "j \<noteq> k" for b
    using that assms(2) ml_ok_map [OF assms(1)] by auto
  then show "value_of T j = ((value_of S)(k := Some v)) j"
    using assms(2) revalued_data(6) [OF assms(3)] by (auto simp: value_of_def m intro!: map_option_cong)
qed

lemma value_of_set:
  assumes g: "good S"
  shows "value_of (lru_set k v S) j = None \<or> value_of (lru_set k v S) j = ((value_of S)(k := Some v)) j"
proof (cases "ml_map S k")
  note ok = goodD(1) [OF g]
  case None
  show ?thesis
  proof (rule insert_new_cases [OF ok, of k v 0])
    assume l: "lets_go S (insert_new k v 0 S)"
    have "value_of S k = None" using None by (simp add: value_of_def)
    then show ?thesis using value_of_lets_go [OF ok l, of j] None by (auto simp: lru_set_def)
  next
    fix T assume T: "lets_go S T" "insert_new k v 0 S = insert_item k v 0 (calc_item_memory T k v) T"
    have "ml_map T k = None" using lets_go_map [OF ok T(1)] None by (cases "ml_map T k") auto
    from value_of_linked [OF lets_goD(1) [OF T(1)] insert_item_linked(1) [OF lets_goD(1) [OF T(1)] this refl], of v 0]
    show ?thesis using T None value_of_lets_go [OF ok T(1), of j] by (auto simp: lru_set_def)
  qed
next
  note ok = goodD(1) [OF g]
  case (Some a)
  show ?thesis
  proof (rule update_existing_cases [OF ok mapped_in [OF g Some], of v Write_access])
    fix T U assume T: "revalued a v S T" "lets_go T U" "quiet U (update_existing a v Write_access S)"
    have "value_of T = (value_of S)(k := Some v)" by (rule value_of_revalued [OF ok Some T(1)])
    moreover have "ml_ok T" by (rule revalued_ok [OF ok mapped_in [OF g Some] T(1)])
    ultimately show ?thesis
      using value_of_lets_go [OF _ T(2), of j] value_of_quiet [OF T(3), of j] Some by (simp add: lru_set_def)
  qed
qed

text \<open>
  C8. Reading after writing. Whatever was evicted on the way, reading a key after setting it gives the
  value just set or a miss, and reading another key gives its old value or a miss: no stale value and no
  value of another key. If the cache is not under pressure, the key is new and there is room for it, nothing is
  lost: the key has its value, every other key keeps its own.
\<close>

theorem read_after_set:
  assumes "good S"
  shows "(fst (get_shared j (lru_set k v S)) = None \<or>
      fst (get_shared j (lru_set k v S)) = (if j = k then Some v else fst (get_shared j S))) \<and>
    (relaxed k v S \<and> ml_map S k = None \<longrightarrow>
      fst (get_shared j (lru_set k v S)) = (if j = k then Some v else fst (get_shared j S)))"
  using value_of_set [OF assms, of k v j] value_of_linked [OF goodD(1) [OF assms] set_relaxed(1) [OF assms], of k v]
  by (auto simp: get_shared_value)

theorem read_after_set_witness:
  "good sample_lru \<and> relaxed 1 10 sample_lru \<and> fst (get_shared 1 (lru_set 1 10 sample_lru)) = Some 10"
proof -
  have g: "good sample_lru" by (rule conf_okD [OF new_ok [OF sample_new]])
  have r: "relaxed 1 10 sample_lru"
    by (simp add: relaxed_def sample_lru_eq has_room_def should_evict_def size_of_def list_size_def unlimited_gt)
  show ?thesis using read_after_set [OF g, of 1 1 10] g r by (simp add: sample_lru_eq)
qed

section \<open>Expiry\<close>

lemma map_of_live: "ml_map S k = None \<longleftrightarrow> lru_live S k = None"
  by (simp add: lru_live_def)

text \<open>
  C20. A sweep of expired items is exact: afterwards the hash table holds the items it held before, except
  those that have a TTL, have expired and are not pinned, each at the same address.
\<close>

theorem sweep_removes_exactly_expired:
  assumes "good S" "lru_evict_expired S = (n, T)"
  shows "ml_map T k = (case ml_map S k of
      None \<Rightarrow> None
    | Some a \<Rightarrow> if is_expired (now_ns S) (item S a) \<and> \<not> has_active_handle (item S a) then None else Some a)"
proof -
  let ?C = "cleanup_pending_deletion S"
  note C = cleanup_ok [OF goodD(1) [OF assms(1)]]
  obtain m H U where e: "evict_expired lru_ttl (now_ns S) (ml_index S) ?C = (m, H, U)" by (metis prod_cases3)
  then have T: "T = U\<lparr>ml_index := H\<rparr>" using assms(2) by (simp add: lru_evict_expired_def with_index_def)
  have x: "(ml_ok ?C \<and> lets_go ?C U) \<and> th_ok H \<and> indexed (lru_live U) H \<and>
      (\<forall>a \<in> set (th_heap H). expiry_ns a \<noteq> 0) \<and> lru_live U = (\<lambda>k. case lru_live ?C k of
       Some e \<Rightarrow> if e \<noteq> 0 \<and> e \<le> now_ns S \<and> \<not> lru_pinned ?C k then None else Some e | None \<Rightarrow> None)"
    using goodD(2) [OF assms(1)] lets_go_refl [OF C] C
    by (intro lru_index.evict_expired_exact [OF _ _ _ _ e]) (simp_all add: ttl_ok_def lru_live_def [abs_def])
  have live: "lru_live U k = (case ml_map S k of None \<Rightarrow> None | Some a \<Rightarrow>
      if is_expired (now_ns S) (item S a) \<and> \<not> has_active_handle (item S a) then None else Some (it_expiry_ns (item S a)))"
    using x by (auto simp: lru_live_def [of ?C] lru_pinned_def is_expired_def split: option.split)
  have "ml_map U k = Some a \<Longrightarrow> ml_map S k = Some a" for a
    using lets_go_map [OF C] x by (metis cleanup_frame(4))
  with live show ?thesis
    by (cases "ml_map U k") (auto simp: T lru_live_def split: option.splits if_splits)
qed

text \<open>A cache with one item that expires at time 5, at time 9.\<close>

definition expiring :: "(nat, nat) mm_lru" where
  "expiring = (set_with_expiry 1 10 5 sample_lru)\<lparr>now_sec := 0, now_ns := 9, update_mutex_busy := False\<rparr>"

lemma expiring_eq:
  "conf_ok (expiring, [])" "ml_map expiring 1 = Some 0" "it_expiry_ns (item expiring 0) = 5"
  "it_value (item expiring 0) = 10" "now_ns expiring = 9" "\<not> has_active_handle (item expiring 0)"
proof -
  note c = new_ok [OF sample_new]
  have "expiring = fst (lru_run [Op_set_with_expiry 1 10 5, Op_environment 0 9 False] (sample_lru, []))"
    by (simp add: expiring_def lru_run_def)
  then show c': "conf_ok (expiring, [])"
    using conf_ok_run [OF c, of "[Op_set_with_expiry 1 10 5, Op_environment 0 9 False]"]
    by (simp add: lru_run_def)
  have k: "ml_map sample_lru 1 = None" by (simp add: sample_lru_eq)
  have r: "relaxed 1 10 sample_lru"
    by (simp add: relaxed_def sample_lru_eq has_room_def should_evict_def size_of_def list_size_def unlimited_gt)
  have "set_with_expiry 1 10 5 sample_lru = insert_item 1 10 5 (calc_item_memory sample_lru 1 10) sample_lru"
    using k insert_new_relaxed [OF r] by (simp add: set_with_expiry_def)
  then have "linked_in 1 10 5 sample_lru (set_with_expiry 1 10 5 sample_lru)"
    using insert_item_linked(1) [OF goodD(1) [OF conf_okD [OF c]] k refl] by simp
  then show m: "ml_map expiring 1 = Some 0" "it_expiry_ns (item expiring 0) = 5" "it_value (item expiring 0) = 10"
    "now_ns expiring = 9" and "\<not> has_active_handle (item expiring 0)"
    using handle_refs [of "item expiring 0"]
    by (simp_all add: linked_in_def sample_lru_eq expiring_def same_data_def item_def)
qed

theorem sweep_removes_exactly_expired_witness:
  "good expiring \<and> ml_map expiring 1 = Some 0 \<and> (\<exists>n T. lru_evict_expired expiring = (n, T) \<and> ml_map T 1 = None)"
proof -
  obtain n T where e: "lru_evict_expired expiring = (n, T)" by fastforce
  have g: "good expiring" by (rule conf_okD [OF expiring_eq(1)])
  have "is_expired (now_ns expiring) (item expiring 0)" by (simp add: is_expired_def expiring_eq)
  with sweep_removes_exactly_expired [OF g e, of 1] e g show ?thesis
    by (simp add: expiring_eq del: One_nat_def)
qed



end
