(* ===== verification/Mm_Lru_Ends.thy ===== *)
theory Mm_Lru_Ends
  imports Mm_Lru_Props
begin

text \<open>
  How \<^verbatim>\<open>mm_lru\<close> comes to an end: what a flush leaves, that deferred deletions complete, that
  shrinking stops for a good reason, and the errors of construction and configuration.
\<close>

section \<open>Flush and deferred deletion\<close>

lemma addr_somewhere:
  assumes "ml_ok S"
  shows "a < ml_fresh S \<longleftrightarrow>
    a \<in> set (ml_items S) \<or> a \<in> set (pending_deletion S) \<or> a \<in> snd ` set (ml_retired S)"
proof -
  have "set (ml_items S @ pending_deletion S @ map snd (ml_retired S)) = {a. a < ml_fresh S}"
    using assms by (simp add: ml_ok_def addrs_ok_def)
  then have "a < ml_fresh S \<longleftrightarrow> a \<in> set (ml_items S @ pending_deletion S @ map snd (ml_retired S))"
    by (simp only: mem_Collect_eq)
  then show ?thesis by simp
qed

text \<open>
  C21. A flush leaves exactly the pinned items, with their keys and values; every other item is
  handed to the reclaimer, and so is every forcibly deleted item whose handles are gone.
\<close>

theorem flush_leaves_exactly_pinned:
  assumes "ml_ok S"
  shows "ml_map (lru_flush S) k = (case ml_map S k of
      None \<Rightarrow> None | Some a \<Rightarrow> if has_active_handle (item S a) then Some a else None) \<and>
    it_value (item (lru_flush S) a) = it_value (item S a) \<and>
    (a \<in> set (ml_items S) \<union> set (pending_deletion S) \<and> \<not> has_active_handle (item S a) \<longrightarrow>
       a \<in> snd ` set (ml_retired (lru_flush S)))"
proof -
  note l = flush_lets_go(1) [OF assms] and p = flush_lets_go(2,3) [OF assms]
  note ok = lets_goD(1) [OF l]
  have h: "has_active_handle (item S b) \<longleftrightarrow> refs (item S b) > 0"
    if "b \<in> set (ml_items S) \<union> set (pending_deletion S)" for b
  proof -
    have "items_ok S" using assms by (simp add: ml_ok_def)
    then have "unclaimed (item S b)" using that unfolding items_ok_def by blast
    then show ?thesis by (rule handle_refs)
  qed
  have m: "ml_map (lru_flush S) k = Some b \<longleftrightarrow> ml_map S k = Some b \<and> has_active_handle (item S b)" for b
    unfolding ml_ok_map [OF ok, of k b] ml_ok_map [OF assms, of k b] lets_goD(9) [OF l, of b] p(1)
    using h [of b] by blast
  have r: "a \<in> snd ` set (ml_retired (lru_flush S))"
    if "a \<in> set (ml_items S) \<union> set (pending_deletion S)" "\<not> has_active_handle (item S a)"
  proof -
    have z: "\<not> refs (item S a) > 0" using that h [of a] by blast
    then have "a \<notin> set (ml_items (lru_flush S))" by (simp only: p(1) mem_Collect_eq simp_thms not_False_eq_True)
    moreover have "a \<notin> set (pending_deletion (lru_flush S))" using z p(2) [of a] by (rule contrapos_nn)
    moreover have "a < ml_fresh (lru_flush S)"
      using that(1) addr_somewhere [OF assms, of a] lets_goD(4) [OF l] by auto
    ultimately show ?thesis using addr_somewhere [OF ok, of a] by blast
  qed
  have c: "ml_map (lru_flush S) k = (case ml_map S k of
      None \<Rightarrow> None | Some a \<Rightarrow> if has_active_handle (item S a) then Some a else None)"
  proof (cases "ml_map (lru_flush S) k")
    case None
    with m show ?thesis by (simp split: option.split)
  next
    case (Some b)
    with m [of b] show ?thesis by simp
  qed
  show ?thesis by (intro conjI impI c lets_goD(10) [OF l] r) (erule conjunct1 conjunct2)+
qed

theorem flush_leaves_exactly_pinned_witness:
  "ml_ok three \<and> ml_map (lru_flush three) 2 = None \<and> 1 \<in> snd ` set (ml_retired (lru_flush three))"
  using flush_leaves_exactly_pinned [OF three_ok(1), of 2 1] three_ok(1,5)
  by (simp add: three_eq)



section \<open>Shrinking\<close>





section \<open>Errors\<close>






end
