(* ===== verification/Admission.thy ===== *)
theory Admission
  imports Mm_Lru_Props "HOL-Library.AList"
begin

text \<open>
  The admission policies of \<^verbatim>\<open>admission.hpp\<close> and the filter cache that puts a policy in front of a cache.
  The filter is modelled over any cache and any policy, given by their operations; the locales
  \<open>cache_contents\<close> and \<open>selective_policy\<close> say what it relies on, and are interpreted on \<^verbatim>\<open>mm_lru\<close> with its
  clients and on \<^verbatim>\<open>reject_first_ap\<close>.

  Hash sets and maps are third-party code: a set is the list of its elements, and the element its \<^verbatim>\<open>begin()\<close>
  refers to is chosen by a parameter \<open>pick\<close>. Counters are natural numbers. The policy mutex is not modelled:
  every operation of the filter is one step.
\<close>

section \<open>The split set\<close>

record approx_split_set =
  num_splits :: nat
  max_per_split :: nat
  splits :: "u64 list list"
  total_inserts :: nat

definition split_set_new :: "nat \<Rightarrow> nat \<Rightarrow> approx_split_set" where
  "split_set_new max_entries n =
     \<lparr>num_splits = n, max_per_split = max 1 (max_entries div n), splits = replicate n [], total_inserts = 0\<rparr>"

definition split_index :: "u64 \<Rightarrow> approx_split_set \<Rightarrow> nat" where
  "split_index h A = unat h mod num_splits A"

definition insert_and_check :: "(u64 list \<Rightarrow> u64) \<Rightarrow> u64 \<Rightarrow> approx_split_set \<Rightarrow> bool \<times> approx_split_set" where
  "insert_and_check pick h A =
     (let i = split_index h A; entries = splits A ! i in
      if h \<in> set entries then (True, A)
      else
        let entries = entries @ [h];
            entries = (if length entries > max_per_split A then remove1 (pick entries) entries else entries)
        in (False, A\<lparr>splits := (splits A)[i := entries], total_inserts := total_inserts A + 1\<rparr>))"

definition split_insert :: "(u64 list \<Rightarrow> u64) \<Rightarrow> u64 \<Rightarrow> approx_split_set \<Rightarrow> approx_split_set" where
  "split_insert pick h A = snd (insert_and_check pick h A)"

definition split_contains :: "u64 \<Rightarrow> approx_split_set \<Rightarrow> bool" where
  "split_contains h A \<longleftrightarrow> h \<in> set (splits A ! split_index h A)"

definition split_remove :: "u64 \<Rightarrow> approx_split_set \<Rightarrow> approx_split_set" where
  "split_remove h A =
     A\<lparr>splits := (splits A)[split_index h A := remove1 h (splits A ! split_index h A)]\<rparr>"

definition split_size :: "approx_split_set \<Rightarrow> nat" where
  "split_size A = sum_list (map length (splits A))"

definition split_clear :: "approx_split_set \<Rightarrow> approx_split_set" where
  "split_clear A = A\<lparr>splits := map (\<lambda>_. []) (splits A), total_inserts := 0\<rparr>"

definition max_entries :: "approx_split_set \<Rightarrow> nat" where
  "max_entries A = max_per_split A * num_splits A"

section \<open>Reject first\<close>

definition kMaxHitSignals :: nat where "kMaxHitSignals = 8192"

record reject_first_ap =
  tracker :: approx_split_set
  use_hit_signal :: bool
  hit_signals :: "(u64 \<times> bool) list"
  admitted_seen :: nat
  admitted_by_dram_hit :: nat
  rejected :: nat
  total_admitted :: nat

definition reject_first_new :: "nat \<Rightarrow> nat \<Rightarrow> bool \<Rightarrow> reject_first_ap" where
  "reject_first_new n k signal =
     \<lparr>tracker = split_set_new n k, use_hit_signal = signal, hit_signals = [], admitted_seen = 0,
      admitted_by_dram_hit = 0, rejected = 0, total_admitted = 0\<rparr>"

definition should_admit ::
  "(u64 list \<Rightarrow> u64) \<Rightarrow> ('k \<Rightarrow> u64) \<Rightarrow> 'k \<Rightarrow> reject_first_ap \<Rightarrow> bool \<times> reject_first_ap" where
  "should_admit pick hash_key key P =
     (let h = hash_key key;
          (seen_before, t) = insert_and_check pick h (tracker P);
          P = P\<lparr>tracker := t\<rparr>
      in if seen_before then (True, P\<lparr>admitted_seen := admitted_seen P + 1\<rparr>)
         else if use_hit_signal P \<and> map_of (hit_signals P) h = Some True
         then (True, P\<lparr>hit_signals := AList.delete h (hit_signals P), admitted_by_dram_hit := admitted_by_dram_hit P + 1\<rparr>)
         else (False, P\<lparr>rejected := rejected P + 1\<rparr>))"

definition on_access :: "('k \<Rightarrow> u64) \<Rightarrow> 'k \<Rightarrow> reject_first_ap \<Rightarrow> reject_first_ap" where
  "on_access hash_key key P =
     (if use_hit_signal P
      then let P = (if length (hit_signals P) \<ge> kMaxHitSignals then P\<lparr>hit_signals := []\<rparr> else P)
           in P\<lparr>hit_signals := AList.update (hash_key key) True (hit_signals P)\<rparr>
      else P)"

definition on_evict :: "('k \<Rightarrow> u64) \<Rightarrow> 'k \<Rightarrow> reject_first_ap \<Rightarrow> reject_first_ap" where
  "on_evict hash_key key P = P\<lparr>tracker := split_remove (hash_key key) (tracker P)\<rparr>"

definition on_remove :: "('k \<Rightarrow> u64) \<Rightarrow> 'k \<Rightarrow> reject_first_ap \<Rightarrow> reject_first_ap" where
  "on_remove hash_key key P = P\<lparr>tracker := split_remove (hash_key key) (tracker P)\<rparr>"

definition on_insert :: "'k \<Rightarrow> reject_first_ap \<Rightarrow> reject_first_ap" where
  "on_insert key P = P\<lparr>total_admitted := total_admitted P + 1\<rparr>"

definition reject_first_reset :: "reject_first_ap \<Rightarrow> reject_first_ap" where
  "reject_first_reset P =
     P\<lparr>tracker := split_clear (tracker P), hit_signals := [], admitted_seen := 0, admitted_by_dram_hit := 0,
       rejected := 0, total_admitted := 0\<rparr>"

section \<open>The filter cache\<close>

text \<open>The operations of the policy and of the cache that the filter calls. A lookup says whether it was a hit.\<close>

record ('k, 'p) policy_ops =
  po_should_admit :: "'k \<Rightarrow> 'p \<Rightarrow> bool \<times> 'p"
  po_on_access :: "'k \<Rightarrow> 'p \<Rightarrow> 'p"
  po_on_remove :: "'k \<Rightarrow> 'p \<Rightarrow> 'p"
  po_on_insert :: "'k \<Rightarrow> 'p \<Rightarrow> 'p"
  po_reset :: "'p \<Rightarrow> 'p"

record ('k, 'v, 'c) cache_ops =
  co_set :: "'k \<Rightarrow> 'v \<Rightarrow> 'c \<Rightarrow> 'c"
  co_add :: "'k \<Rightarrow> 'v \<Rightarrow> 'c \<Rightarrow> bool \<times> 'c"
  co_get :: "'k \<Rightarrow> 'c \<Rightarrow> bool \<times> 'c"
  co_del :: "'k \<Rightarrow> 'c \<Rightarrow> bool \<times> 'c"
  co_flush :: "'c \<Rightarrow> 'c"
  co_max_size :: "nat \<Rightarrow> 'c \<Rightarrow> 'c"
  co_reject :: "'k \<Rightarrow> 'v \<Rightarrow> 'c \<Rightarrow> 'c"

record ('p, 'c) admission_filter_cache =
  af_policy :: 'p
  af_cache :: 'c
  af_hits :: nat
  af_misses :: nat

definition always_admit :: "('k, unit) policy_ops" where
  "always_admit =
     \<lparr>po_should_admit = (\<lambda>_ p. (True, p)), po_on_access = (\<lambda>_ p. p), po_on_remove = (\<lambda>_ p. p),
      po_on_insert = (\<lambda>_ p. p), po_reset = (\<lambda>p. p)\<rparr>"

definition filter_new :: "'p \<Rightarrow> 'c \<Rightarrow> ('p, 'c) admission_filter_cache" where
  "filter_new policy cache = \<lparr>af_policy = policy, af_cache = cache, af_hits = 0, af_misses = 0\<rparr>"

definition filter_set ::
  "('k, 'p) policy_ops \<Rightarrow> ('k, 'v, 'c) cache_ops \<Rightarrow> 'k \<Rightarrow> 'v \<Rightarrow> ('p, 'c) admission_filter_cache \<Rightarrow>
   bool \<times> ('p, 'c) admission_filter_cache" where
  "filter_set po co key value F =
     (let (admit, p) = po_should_admit po key (af_policy F);
          F = F\<lparr>af_policy := p\<rparr>
      in if \<not> admit then (False, F\<lparr>af_cache := co_reject co key value (af_cache F)\<rparr>)
         else
           let F = F\<lparr>af_cache := co_set co key value (af_cache F)\<rparr>
           in (True, F\<lparr>af_policy := po_on_insert po key (af_policy F)\<rparr>))"

definition filter_add ::
  "('k, 'p) policy_ops \<Rightarrow> ('k, 'v, 'c) cache_ops \<Rightarrow> 'k \<Rightarrow> 'v \<Rightarrow> ('p, 'c) admission_filter_cache \<Rightarrow>
   bool \<times> ('p, 'c) admission_filter_cache" where
  "filter_add po co key value F =
     (let (admit, p) = po_should_admit po key (af_policy F);
          F = F\<lparr>af_policy := p\<rparr>
      in if \<not> admit then (False, F\<lparr>af_cache := co_reject co key value (af_cache F)\<rparr>)
         else
           let (added, c) = co_add co key value (af_cache F);
               F = F\<lparr>af_cache := c\<rparr>
           in (added, F\<lparr>af_policy := (if added then po_on_insert po key (af_policy F)
                                     else po_on_access po key (af_policy F))\<rparr>))"

definition filter_get ::
  "('k, 'p) policy_ops \<Rightarrow> ('k, 'v, 'c) cache_ops \<Rightarrow> 'k \<Rightarrow> ('p, 'c) admission_filter_cache \<Rightarrow>
   bool \<times> ('p, 'c) admission_filter_cache" where
  "filter_get po co key F =
     (let (hit, c) = co_get co key (af_cache F);
          F = F\<lparr>af_cache := c\<rparr>
      in (hit, if hit then F\<lparr>af_policy := po_on_access po key (af_policy F), af_hits := af_hits F + 1\<rparr>
               else F\<lparr>af_misses := af_misses F + 1\<rparr>))"

definition filter_del ::
  "('k, 'p) policy_ops \<Rightarrow> ('k, 'v, 'c) cache_ops \<Rightarrow> 'k \<Rightarrow> ('p, 'c) admission_filter_cache \<Rightarrow>
   bool \<times> ('p, 'c) admission_filter_cache" where
  "filter_del po co key F =
     (let (result, c) = co_del co key (af_cache F);
          F = F\<lparr>af_cache := c\<rparr>
      in (result, if result then F\<lparr>af_policy := po_on_remove po key (af_policy F)\<rparr> else F))"

definition filter_max_size ::
  "('k, 'v, 'c) cache_ops \<Rightarrow> nat \<Rightarrow> ('p, 'c) admission_filter_cache \<Rightarrow> ('p, 'c) admission_filter_cache" where
  "filter_max_size co n F = F\<lparr>af_cache := co_max_size co n (af_cache F)\<rparr>"

definition filter_flush ::
  "('k, 'p) policy_ops \<Rightarrow> ('k, 'v, 'c) cache_ops \<Rightarrow> ('p, 'c) admission_filter_cache \<Rightarrow>
   ('p, 'c) admission_filter_cache" where
  "filter_flush po co F =
     F\<lparr>af_cache := co_flush co (af_cache F), af_policy := po_reset po (af_policy F)\<rparr>"

text \<open>
  What a client of the filter does, and what happens to the cache by itself, by the relation \<open>drift\<close>. The last
  argument lists the keys offered by \<^verbatim>\<open>set\<close> and \<^verbatim>\<open>add\<close> so far.
\<close>

inductive filter_reach ::
  "('k, 'p) policy_ops \<Rightarrow> ('k, 'v, 'c) cache_ops \<Rightarrow> ('c \<Rightarrow> 'c \<Rightarrow> bool) \<Rightarrow> ('p, 'c) admission_filter_cache \<Rightarrow>
   ('p, 'c) admission_filter_cache \<Rightarrow> 'k list \<Rightarrow> bool"
  for po :: "('k, 'p) policy_ops" and co :: "('k, 'v, 'c) cache_ops" and drift and F0 where
  start: "filter_reach po co drift F0 F0 []"
| set: "filter_reach po co drift F0 F os \<Longrightarrow> filter_reach po co drift F0 (snd (filter_set po co k v F)) (k # os)"
| add: "filter_reach po co drift F0 F os \<Longrightarrow> filter_reach po co drift F0 (snd (filter_add po co k v F)) (k # os)"
| get: "filter_reach po co drift F0 F os \<Longrightarrow> filter_reach po co drift F0 (snd (filter_get po co k F)) os"
| del: "filter_reach po co drift F0 F os \<Longrightarrow> filter_reach po co drift F0 (snd (filter_del po co k F)) os"
| max_size: "filter_reach po co drift F0 F os \<Longrightarrow> filter_reach po co drift F0 (filter_max_size co n F) os"
| flush: "filter_reach po co drift F0 F os \<Longrightarrow> filter_reach po co drift F0 (filter_flush po co F) os"
| drift: "filter_reach po co drift F0 F os \<Longrightarrow> drift (af_cache F) c \<Longrightarrow>
    filter_reach po co drift F0 (F\<lparr>af_cache := c\<rparr>) os"

section \<open>What the filter relies on\<close>

locale cache_contents =
  fixes co :: "('k, 'v, 'c) cache_ops" and drift :: "'c \<Rightarrow> 'c \<Rightarrow> bool"
    and inv :: "'c \<Rightarrow> bool" and content :: "'c \<Rightarrow> 'k set"
  assumes set_content: "inv c \<Longrightarrow> inv (co_set co k v c) \<and> content (co_set co k v c) \<subseteq> insert k (content c)"
    and add_content: "inv c \<Longrightarrow> inv (snd (co_add co k v c)) \<and> content (snd (co_add co k v c)) \<subseteq> insert k (content c)"
    and get_content: "inv c \<Longrightarrow> inv (snd (co_get co k c)) \<and> content (snd (co_get co k c)) \<subseteq> content c"
    and get_hit: "inv c \<Longrightarrow> fst (co_get co k c) \<Longrightarrow> k \<in> content c"
    and del_content: "inv c \<Longrightarrow> inv (snd (co_del co k c)) \<and> content (snd (co_del co k c)) \<subseteq> content c"
    and flush_content: "inv c \<Longrightarrow> inv (co_flush co c) \<and> content (co_flush co c) \<subseteq> content c"
    and max_size_content: "inv c \<Longrightarrow> inv (co_max_size co n c) \<and> content (co_max_size co n c) \<subseteq> content c"
    and reject_content: "inv c \<Longrightarrow> inv (co_reject co k v c) \<and> content (co_reject co k v c) \<subseteq> content c"
    and drift_content: "inv c \<Longrightarrow> drift c d \<Longrightarrow> inv d \<and> content d \<subseteq> content c"

text \<open>
  A selective policy admits a key only if it knows a key of the same class, and learns classes only from the keys
  it is told about.
\<close>

locale selective_policy =
  fixes po :: "('k, 'p) policy_ops" and cls :: "'k \<Rightarrow> 'h" and sane :: "'p \<Rightarrow> bool" and known :: "'p \<Rightarrow> 'h set"
  assumes admit_known: "sane p \<Longrightarrow> fst (po_should_admit po k p) \<Longrightarrow> cls k \<in> known p"
    and admit_learns: "sane p \<Longrightarrow> sane (snd (po_should_admit po k p)) \<and>
      known (snd (po_should_admit po k p)) \<subseteq> insert (cls k) (known p)"
    and access_learns: "sane p \<Longrightarrow> sane (po_on_access po k p) \<and> known (po_on_access po k p) \<subseteq> insert (cls k) (known p)"
    and remove_learns: "sane p \<Longrightarrow> sane (po_on_remove po k p) \<and> known (po_on_remove po k p) \<subseteq> known p"
    and insert_learns: "sane p \<Longrightarrow> sane (po_on_insert po k p) \<and> known (po_on_insert po k p) \<subseteq> known p"
    and reset_learns: "sane p \<Longrightarrow> sane (po_reset po p) \<and> known (po_reset po p) \<subseteq> known p"

locale filtered_cache = cache_contents co drift inv content + selective_policy po cls sane known
  for co :: "('k, 'v, 'c) cache_ops" and drift inv content
    and po :: "('k, 'p) policy_ops" and cls :: "'k \<Rightarrow> 'h" and sane known
begin

definition screened :: "('p, 'c) admission_filter_cache \<Rightarrow> 'k list \<Rightarrow> bool" where
  "screened F os \<longleftrightarrow>
     inv (af_cache F) \<and> sane (af_policy F) \<and> known (af_policy F) \<subseteq> set (map cls os) \<and>
     (\<forall>k \<in> content (af_cache F). 2 \<le> count_list (map cls os) (cls k))"

lemma count_list_Cons_le: "count_list xs y \<le> count_list (x # xs) y"
  by simp

lemma screened_offer:
  assumes "screened F os" "inv c \<and> sane p" "content c \<subseteq> insert k (content (af_cache F))" "known p \<subseteq> insert (cls k) (known (af_policy F))"
    "k \<in> content c \<Longrightarrow> k \<notin> content (af_cache F) \<Longrightarrow> cls k \<in> known (af_policy F)"
  shows "screened (F\<lparr>af_policy := p, af_cache := c\<rparr>) (k # os)"
proof -
  have "2 \<le> count_list (map cls (k # os)) (cls j)" if j: "j \<in> content c" for j
  proof (cases "j \<in> content (af_cache F)")
    case True
    then have "2 \<le> count_list (map cls os) (cls j)" using assms(1) by (simp add: screened_def)
    then show ?thesis by simp
  next
    case False
    then have "j = k" "cls k \<in> set (map cls os)" using j assms(1,3,5) by (auto simp: screened_def)
    then have "1 \<le> count_list (map cls os) (cls j)" using count_list_0_iff [of "map cls os" "cls j"] by (simp add: Suc_le_eq)
    then show ?thesis using \<open>j = k\<close> by simp
  qed
  then show ?thesis using assms by (auto simp: screened_def)
qed

lemma screened_other:
  assumes "screened F os" "inv c" "content c \<subseteq> content (af_cache F)" "sane p" "known p \<subseteq> set (map cls os)"
  shows "screened (F\<lparr>af_policy := p, af_cache := c\<rparr>) os"
  using assms by (auto simp: screened_def)

lemma screened_set:
  assumes s: "screened F os" shows "screened (snd (filter_set po co k v F)) (k # os)"
proof -
  obtain b p where p: "po_should_admit po k (af_policy F) = (b, p)" by fastforce
  have i: "inv (af_cache F)" and n: "sane (af_policy F)" using s by (simp_all add: screened_def)
  have l: "sane p" "known p \<subseteq> insert (cls k) (known (af_policy F))" using admit_learns [OF n, of k] p by simp_all
  show ?thesis
  proof (cases b)
    case True
    have "screened (F\<lparr>af_policy := po_on_insert po k p, af_cache := co_set co k v (af_cache F)\<rparr>) (k # os)"
      using set_content [OF i, of k v] l insert_learns [OF l(1), of k] admit_known [OF n, of k] p True
      by (intro screened_offer [OF s]) auto
    then show ?thesis using p True by (simp add: filter_set_def Let_def screened_def)
  next
    case False
    have "screened (F\<lparr>af_policy := p, af_cache := co_reject co k v (af_cache F)\<rparr>) (k # os)"
      using reject_content [OF i, of k v] l by (intro screened_offer [OF s]) auto
    then show ?thesis using p False by (simp add: filter_set_def)
  qed
qed

lemma screened_add:
  assumes s: "screened F os" shows "screened (snd (filter_add po co k v F)) (k # os)"
proof -
  obtain b p where p: "po_should_admit po k (af_policy F) = (b, p)" by fastforce
  obtain a c where c: "co_add co k v (af_cache F) = (a, c)" by fastforce
  have i: "inv (af_cache F)" and n: "sane (af_policy F)" using s by (simp_all add: screened_def)
  have l: "sane p" "known p \<subseteq> insert (cls k) (known (af_policy F))" using admit_learns [OF n, of k] p by simp_all
  show ?thesis
  proof (cases b)
    case True
    have "screened (F\<lparr>af_policy := (if a then po_on_insert po k p else po_on_access po k p), af_cache := c\<rparr>) (k # os)"
      using add_content [OF i, of k v] l insert_learns [OF l(1), of k] access_learns [OF l(1), of k] admit_known [OF n, of k] p c True
      by (intro screened_offer [OF s]) auto
    then show ?thesis using p c True by (cases a) (simp_all add: filter_add_def Let_def screened_def)
  next
    case False
    have "screened (F\<lparr>af_policy := p, af_cache := co_reject co k v (af_cache F)\<rparr>) (k # os)"
      using reject_content [OF i, of k v] l by (intro screened_offer [OF s]) auto
    then show ?thesis using p False by (simp add: filter_add_def)
  qed
qed

lemma screened_get:
  assumes s: "screened F os" shows "screened (snd (filter_get po co k F)) os"
proof -
  obtain h c where c: "co_get co k (af_cache F) = (h, c)" by fastforce
  have i: "inv (af_cache F)" and a: "sane (af_policy F)" and n: "known (af_policy F) \<subseteq> set (map cls os)"
    using s by (simp_all add: screened_def)
  have g: "inv c" "content c \<subseteq> content (af_cache F)" using get_content [OF i, of k] c by simp_all
  have "cls k \<in> set (map cls os)" if h
  proof -
    have "k \<in> content (af_cache F)" using get_hit [OF i, of k] c that by simp
    then have "0 < count_list (map cls os) (cls k)" using s by (fastforce simp: screened_def)
    then show ?thesis using count_list_0_iff [of "map cls os" "cls k"] by auto
  qed
  then have "sane (if h then po_on_access po k (af_policy F) else af_policy F)"
    "known (if h then po_on_access po k (af_policy F) else af_policy F) \<subseteq> set (map cls os)"
    using access_learns [OF a, of k] a n by auto
  from screened_other [OF s g this] show ?thesis using c by (cases h) (simp_all add: filter_get_def screened_def)
qed

lemma screened_del:
  assumes s: "screened F os" shows "screened (snd (filter_del po co k F)) os"
proof -
  obtain b c where c: "co_del co k (af_cache F) = (b, c)" by fastforce
  have i: "inv (af_cache F)" and a: "sane (af_policy F)" and n: "known (af_policy F) \<subseteq> set (map cls os)"
    using s by (simp_all add: screened_def)
  have g: "inv c" "content c \<subseteq> content (af_cache F)" using del_content [OF i, of k] c by simp_all
  have "sane (if b then po_on_remove po k (af_policy F) else af_policy F)"
    "known (if b then po_on_remove po k (af_policy F) else af_policy F) \<subseteq> set (map cls os)"
    using remove_learns [OF a, of k] a n by auto
  from screened_other [OF s g this] show ?thesis using c by (cases b) (simp_all add: filter_del_def screened_def)
qed

lemma screened_reach:
  assumes "filter_reach po co drift F0 F os" "inv (af_cache F0)" "content (af_cache F0) = {}"
    "sane (af_policy F0)" "known (af_policy F0) = {}"
  shows "screened F os"
  using assms(1)
proof induction
  case start
  then show ?case using assms(2-5) by (simp add: screened_def)
next
  case (max_size F os n)
  then show ?case using max_size_content [of "af_cache F" n] by (auto simp: screened_def filter_max_size_def)
next
  case (flush F os)
  then show ?case using flush_content [of "af_cache F"] reset_learns [of "af_policy F"]
    by (auto simp: screened_def filter_flush_def)
next
  case (drift F os c)
  then show ?case using drift_content [of "af_cache F" c] by (auto simp: screened_def)
qed (simp_all add: screened_set screened_add screened_get screened_del)

end

section \<open>Reject first is selective\<close>

definition tracked :: "approx_split_set \<Rightarrow> u64 set" where
  "tracked A = (\<Union>xs \<in> set (splits A). set xs)"

definition reject_first_ops :: "(u64 list \<Rightarrow> u64) \<Rightarrow> ('k \<Rightarrow> u64) \<Rightarrow> ('k, reject_first_ap) policy_ops" where
  "reject_first_ops pick hash_key =
     \<lparr>po_should_admit = should_admit pick hash_key, po_on_access = on_access hash_key,
      po_on_remove = on_remove hash_key, po_on_insert = on_insert, po_reset = reject_first_reset\<rparr>"

definition rf_known :: "reject_first_ap \<Rightarrow> u64 set" where
  "rf_known P = tracked (tracker P) \<union> fst ` set (hit_signals P)"

lemma set_list_update: "set (xs[i := y]) \<subseteq> insert y (set xs)"
  by (rule set_update_subset_insert)

lemma splits_tracked: "i < length (splits A) \<Longrightarrow> set (splits A ! i) \<subseteq> tracked A"
  unfolding tracked_def using nth_mem by blast

lemma tracked_update:
  "set ys \<subseteq> insert h (set (splits A ! i)) \<Longrightarrow> tracked (A\<lparr>splits := (splits A)[i := ys]\<rparr>) \<subseteq> insert h (tracked A)"
proof -
  assume a: "set ys \<subseteq> insert h (set (splits A ! i))"
  show ?thesis
  proof (cases "i < length (splits A)")
    case True
    then have "set (splits A ! i) \<subseteq> tracked A" by (rule splits_tracked)
    then show ?thesis using a set_list_update [of "splits A" i ys] by (auto simp: tracked_def)
  qed (auto simp: tracked_def not_less list_update_beyond)
qed

lemma tracked_remove: "tracked (split_remove h A) \<subseteq> tracked A"
proof (cases "split_index h A < length (splits A)")
  case True
  then have "set (splits A ! split_index h A) \<subseteq> tracked A" by (rule splits_tracked)
  then show ?thesis
    using set_list_update [of "splits A" "split_index h A" "remove1 h (splits A ! split_index h A)"]
      set_remove1_subset [of h "splits A ! split_index h A"] by (auto simp: tracked_def split_remove_def)
qed (simp add: split_remove_def tracked_def not_less list_update_beyond)

lemma insert_and_check_tracked:
  "tracked (snd (insert_and_check pick h A)) \<subseteq> insert h (tracked A)"
proof (cases "h \<in> set (splits A ! split_index h A)")
  case False
  let ?xs = "splits A ! split_index h A @ [h]"
  define ys where "ys = (if length ?xs > max_per_split A then remove1 (pick ?xs) ?xs else ?xs)"
  have "set ys \<subseteq> insert h (set (splits A ! split_index h A))"
    using set_remove1_subset [of "pick ?xs" ?xs] by (auto simp: ys_def)
  note t = tracked_update [OF this]
  have "snd (insert_and_check pick h A) =
      A\<lparr>splits := (splits A)[split_index h A := ys], total_inserts := total_inserts A + 1\<rparr>"
    using False by (simp add: insert_and_check_def Let_def ys_def)
  then show ?thesis using t by (simp add: tracked_def)
qed (auto simp: insert_and_check_def Let_def)

lemma seen_before_tracked:
  assumes "fst (insert_and_check pick h A)" "split_index h A < length (splits A)" shows "h \<in> tracked A"
  using assms splits_tracked [OF assms(2)] by (auto simp: insert_and_check_def Let_def split: if_splits)

definition rf_sane :: "reject_first_ap \<Rightarrow> bool" where
  "rf_sane P \<longleftrightarrow> 0 < num_splits (tracker P) \<and> length (splits (tracker P)) = num_splits (tracker P)"

lemma split_index_less: "0 < num_splits A \<Longrightarrow> length (splits A) = num_splits A \<Longrightarrow> split_index h A < length (splits A)"
  by (simp add: split_index_def)

lemma insert_and_check_shape [simp]:
  "num_splits (snd (insert_and_check pick h A)) = num_splits A"
  "length (splits (snd (insert_and_check pick h A))) = length (splits A)"
  "max_per_split (snd (insert_and_check pick h A)) = max_per_split A"
  by (simp_all add: insert_and_check_def Let_def)

lemma should_admit_fields:
  "tracker (snd (should_admit pick hash_key k P)) = snd (insert_and_check pick (hash_key k) (tracker P))"
  "set (hit_signals (snd (should_admit pick hash_key k P))) \<subseteq> set (hit_signals P)"
  "length (hit_signals (snd (should_admit pick hash_key k P))) \<le> length (hit_signals P)"
  by (auto simp: should_admit_def Let_def AList.delete_eq split: prod.split)

interpretation reject_first: selective_policy "reject_first_ops pick hash_key" hash_key rf_sane rf_known
  for pick :: "u64 list \<Rightarrow> u64" and hash_key :: "'k \<Rightarrow> u64"
proof (unfold_locales, goal_cases)
  case (1 p k)
  then show ?case
    using seen_before_tracked [of pick "hash_key k" "tracker p"] split_index_less [of "tracker p" "hash_key k"]
      map_of_SomeD [of "hit_signals p" "hash_key k" True]
    by (force simp: reject_first_ops_def should_admit_def rf_known_def rf_sane_def Let_def split: prod.splits if_splits)
next
  case (2 p k)
  then show ?case using should_admit_fields [of pick hash_key k p] insert_and_check_tracked [of pick "hash_key k" "tracker p"]
    by (auto simp: reject_first_ops_def rf_known_def rf_sane_def)
next
  case (3 p k)
  then show ?case
    by (auto simp: reject_first_ops_def on_access_def rf_known_def rf_sane_def Let_def dom_update)
next
  case (4 p k)
  then show ?case using tracked_remove [of "hash_key k" "tracker p"]
    by (auto simp: reject_first_ops_def on_remove_def rf_known_def rf_sane_def split_remove_def)
next
  case (5 p k)
  then show ?case by (simp add: reject_first_ops_def on_insert_def rf_known_def rf_sane_def)
next
  case (6 p)
  then show ?case by (auto simp: reject_first_ops_def reject_first_reset_def rf_known_def rf_sane_def split_clear_def tracked_def)
qed

section \<open>The cache behind the filter\<close>

text \<open>An \<^verbatim>\<open>mm_lru\<close> with the handles its clients hold, as a cache for the filter.\<close>

definition lru_cache_ops :: "('k, 'v, ('k, 'v) conf) cache_ops" where
  "lru_cache_ops =
     \<lparr>co_set = (\<lambda>k v. lru_step (Op_set k v)),
      co_add = (\<lambda>k v c. (fst (lru_add k v (fst c)), lru_step (Op_add k v) c)),
      co_get = (\<lambda>k c. (fst (lru_get k (fst c)) \<noteq> None, lru_step (Op_get k) c)),
      co_del = (\<lambda>k c. (fst (lru_del k (fst c)), lru_step (Op_del k) c)),
      co_flush = lru_step Op_flush,
      co_max_size = (\<lambda>n. lru_step (Op_max_size n)),
      co_reject = (\<lambda>k v c. (report (On_reject k v) (fst c), snd c))\<rparr>"

definition lru_content :: "('k, 'v) conf \<Rightarrow> 'k set" where
  "lru_content c = dom (ml_map (fst c))"

text \<open>What happens behind the filter: handles are released, time passes, items are evicted and expire.\<close>

inductive lru_drift :: "('k, 'v) conf \<Rightarrow> ('k, 'v) conf \<Rightarrow> bool" where
  release: "lru_drift c (lru_step (Op_release a) c)"
| environment: "lru_drift c (lru_step (Op_environment s n b) c)"
| evict: "lru_drift c (lru_step Op_evict c)"
| expire: "lru_drift c (lru_step (Op_evict_expired n) c)"

lemma lets_go_dom: "ml_ok S \<Longrightarrow> lets_go S T \<Longrightarrow> dom (ml_map T) \<subseteq> dom (ml_map S)"
  using lets_go_map by (fastforce simp: dom_def)

lemma dom_value_of: "dom (ml_map S) = dom (value_of S)"
  by (auto simp: value_of_def dom_def)

lemma dom_set: "good S \<Longrightarrow> dom (ml_map (lru_set k v S)) \<subseteq> insert k (dom (ml_map S))"
  using value_of_set [of S k v] unfolding dom_value_of by (fastforce simp: dom_def split: if_splits)

lemma dom_add: assumes "good S" shows "dom (ml_map (snd (lru_add k v S))) \<subseteq> insert k (dom (ml_map S))"
proof (cases "ml_map S k")
  case None
  then show ?thesis using dom_set [OF assms, of k v] by (simp add: lru_add_def lru_set_def)
next
  case (Some a)
  have "quiet S (snd (record_access a Read_access S))"
    by (rule record_access_quiet [OF ml_okD(4) [OF goodD(1) [OF assms]] mapped_in [OF assms Some]])
  then show ?thesis using Some by (auto simp: lru_add_def quiet_def)
qed

lemma map_make_handle [simp]: "ml_map (snd (make_handle a S)) = ml_map S"
  by (simp add: make_handle_def on_item_def)

lemma map_note [simp]: "ml_map (note_hit k a S) = ml_map S" "ml_map (note_miss k S) = ml_map S"
  by (simp_all add: note_hit_def note_miss_def report_def on_stats_def)

lemma dom_get: assumes "good S" shows "ml_map (snd (lru_get k S)) = ml_map S"
proof (cases "ml_map S k")
  case (Some a)
  have "quiet S (snd (record_access a Read_access S))"
    by (rule record_access_quiet [OF ml_okD(4) [OF goodD(1) [OF assms]] mapped_in [OF assms Some]])
  then show ?thesis using Some by (simp add: lru_get_def quiet_def)
qed (simp add: lru_get_def)

lemma dom_del: assumes "good S" shows "dom (ml_map (snd (lru_del k S))) \<subseteq> dom (ml_map S)"
proof -
  let ?C = "cleanup_pending_deletion S"
  have g: "good ?C" using keeps_cleanup [OF assms] keeps_good by blast
  have "dom (ml_map (erase_impl k ?C)) \<subseteq> dom (ml_map S)" if "ml_map ?C k = Some a" "\<not> has_active_handle (item ?C a)" for a
    using lets_go_dom [OF goodD(1) [OF g] lets_go_retired [OF goodD(1) [OF g] mapped_in [OF g that(1)] that(2)
          erase_impl_out(1) [OF goodD(1) [OF g] that]]] by simp
  then show ?thesis by (auto simp: lru_del_def Let_def split: option.split)
qed

lemma dom_max_size: assumes "good S" shows "dom (ml_map (set_max_size n S)) \<subseteq> dom (ml_map S)"
proof -
  let ?T = "on_stats (\<lambda>st. st\<lparr>st_max_size := n\<rparr>) (S\<lparr>ml_max_size := n\<rparr>)"
  have "item_memory ?T = item_memory S"
    by (simp add: fun_eq_iff item_memory_def calc_item_memory_def item_def on_stats_def)
  then have "ml_ok ?T" using goodD(1) [OF assms] by (simp add: ml_ok_defs on_stats_def item_def)
  from lets_go_dom [OF this lets_go_shrink [OF this]] show ?thesis by (simp add: set_max_size_def Let_def on_stats_def)
qed

interpretation lru_contents: cache_contents lru_cache_ops lru_drift conf_ok lru_content
proof (unfold_locales, goal_cases)
  case (1 c k v)
  then show ?case using conf_ok_step [of c "Op_set k v"] dom_set [OF conf_okD, of "fst c" "snd c" k v]
    by (cases c) (simp add: lru_cache_ops_def lru_content_def)
next
  case (2 c k v)
  then show ?case using conf_ok_step [of c "Op_add k v"] dom_add [OF conf_okD, of "fst c" "snd c" k v]
    by (cases c) (simp add: lru_cache_ops_def lru_content_def)
next
  case (3 c k)
  then show ?case using conf_ok_step [of c "Op_get k"] dom_get [OF conf_okD, of "fst c" "snd c" k]
    by (cases c) (simp add: lru_cache_ops_def lru_content_def holding_def)
next
  case (4 c k)
  then show ?case by (cases c) (auto simp: lru_cache_ops_def lru_content_def lru_get_def split: option.splits)
next
  case (5 c k)
  then show ?case using conf_ok_step [of c "Op_del k"] dom_del [OF conf_okD, of "fst c" "snd c" k]
    by (cases c) (simp add: lru_cache_ops_def lru_content_def)
next
  case (6 c)
  then show ?case using conf_ok_step [of c Op_flush] lets_go_dom [OF goodD(1) flush_lets_go(1) [OF goodD(1)], of "fst c"] conf_okD [of "fst c" "snd c"]
    by (cases c) (simp add: lru_cache_ops_def lru_content_def)
next
  case (7 c n)
  then show ?case using conf_ok_step [of c "Op_max_size n"] dom_max_size [OF conf_okD, of "fst c" "snd c" n]
    by (cases c) (simp add: lru_cache_ops_def lru_content_def)
next
  case (8 c k v)
  then show ?case using conf_ok_keeps [OF _ keeps_report [OF conf_okD], of "fst c" "snd c" "snd c" "On_reject k v"]
    by (cases c) (simp add: lru_cache_ops_def lru_content_def report_def)
next
  case (9 c d)
  have g: "good (fst c)" using conf_okD [of "fst c" "snd c"] 9(1) by simp
  from 9(2) show ?case
  proof cases
    case (release a)
    then show ?thesis using conf_ok_step [OF 9(1), of "Op_release a"]
      by (cases c) (simp add: lru_content_def release_handle_def on_item_def)
  next
    case (environment s n b)
    then show ?thesis using conf_ok_step [OF 9(1), of "Op_environment s n b"] by (cases c) (simp add: lru_content_def)
  next
    case evict
    then show ?thesis using conf_ok_step [OF 9(1), of Op_evict] lets_go_dom [OF goodD(1) [OF g] lets_go_evict [OF goodD(1) [OF g]]]
      by (cases c) (simp add: lru_content_def)
  next
    case (expire n)
    then show ?thesis using conf_ok_step [OF 9(1), of "Op_evict_expired n"]
        lets_go_dom [OF goodD(1) [OF g] evict_expired_good [OF goodD [OF g], of n]]
      by (cases c) (simp add: lru_content_def)
  qed
qed

interpretation lru_filter: filtered_cache lru_cache_ops lru_drift conf_ok lru_content "reject_first_ops pick hash_key" hash_key rf_sane rf_known
  for pick :: "u64 list \<Rightarrow> u64" and hash_key :: "'k \<Rightarrow> u64"
  by unfold_locales

section \<open>Properties\<close>

lemma rf_new_known: "0 < m \<Longrightarrow> rf_sane (reject_first_new n m sig) \<and> rf_known (reject_first_new n m sig) = {}"
  by (simp add: rf_sane_def rf_known_def reject_first_new_def split_set_new_def tracked_def)

lemma new_map: "mm_lru_bounded s t ov cb ms mm c = Inr S \<Longrightarrow> ml_map S = Map.empty"
  by (auto simp: mm_lru_bounded_def mm_lru_new_def on_stats_def split: if_splits)

text \<open>
  C33. Keys seen once stay out. An \<^verbatim>\<open>mm_lru\<close> behind a \<^verbatim>\<open>reject_first_ap\<close>, with or without hit signals, whatever clients
  do through the filter and whatever the cache evicts: a key that is in the cache has been offered at least twice,
  up to equal hashes; and a key whose hash was never offered is rejected.
\<close>

theorem one_hit_wonders_stay_out:
  fixes S :: "('k, 'v) mm_lru"
  assumes "mm_lru_bounded s t ov cb ms mm c = Inr S" "0 < m"
    and "filter_reach (reject_first_ops pick hash_key) lru_cache_ops lru_drift
      (filter_new (reject_first_new n m sig) (S, [])) F os"
  shows "(k \<in> lru_content (af_cache F) \<longrightarrow> 2 \<le> count_list (map hash_key os) (hash_key k)) \<and>
    (hash_key k \<notin> set (map hash_key os) \<longrightarrow> \<not> fst (filter_set (reject_first_ops pick hash_key) lru_cache_ops k v F))"
proof -
  have "conf_ok (S, [])" "lru_content (S, []) = {}"
    using new_ok [OF assms(1)] new_map [OF assms(1)] by (simp_all add: lru_content_def)
  with assms(2,3) have r: "lru_filter.screened hash_key F os"
    by (intro lru_filter.screened_reach [OF assms(3)]) (simp_all add: filter_new_def rf_new_known)
  have "\<not> fst (po_should_admit (reject_first_ops pick hash_key) k (af_policy F))" if "hash_key k \<notin> set (map hash_key os)"
    using that r reject_first.admit_known [of "af_policy F" pick hash_key k] unfolding lru_filter.screened_def by blast
  moreover have "fst (filter_set po co k v F) = fst (po_should_admit po k (af_policy F))"
    for po :: "('k, reject_first_ap) policy_ops" and co :: "('k, 'v, ('k, 'v) conf) cache_ops"
    by (simp add: filter_set_def Let_def split: prod.split)
  ultimately show ?thesis using r unfolding lru_filter.screened_def by simp
qed

theorem one_hit_wonders_stay_out_witness:
  "\<not> fst (filter_set (reject_first_ops hd of_nat) lru_cache_ops (5 :: nat) 7
      (filter_new (reject_first_new 8 2 True) (sample_lru, [])))"
  using one_hit_wonders_stay_out [where pick = hd and hash_key = of_nat and m = 2 and n = 8 and sig = True
      and k = 5 and v = 7, OF sample_new _ filter_reach.start] by simp

text \<open>The memory of the policy.\<close>

definition rf_bounded :: "reject_first_ap \<Rightarrow> bool" where
  "rf_bounded P \<longleftrightarrow>
     rf_sane P \<and> (\<forall>xs \<in> set (splits (tracker P)). length xs \<le> max_per_split (tracker P)) \<and>
     0 < max_per_split (tracker P) \<and> length (hit_signals P) \<le> kMaxHitSignals"

lemma length_update: "length (AList.update k v xs) \<le> length xs + 1"
  by (induction xs) auto

lemma insert_and_check_bounded:
  assumes "\<And>xs. xs \<noteq> [] \<Longrightarrow> pick xs \<in> set xs" "split_index h A < length (splits A)"
    "\<forall>xs \<in> set (splits A). length xs \<le> max_per_split A"
  shows "\<forall>xs \<in> set (splits (snd (insert_and_check pick h A))). length xs \<le> max_per_split A"
proof -
  let ?e = "splits A ! split_index h A"
  have l: "length ?e \<le> max_per_split A" using assms(2,3) by simp
  have "length (remove1 (pick (?e @ [h])) (?e @ [h])) = length ?e"
    using assms(1) [of "?e @ [h]"] by (subst length_remove1) (simp del: set_append)
  moreover define ys where "ys = (if length (?e @ [h]) > max_per_split A then remove1 (pick (?e @ [h])) (?e @ [h]) else ?e @ [h])"
  ultimately have "length ys \<le> max_per_split A" using l by auto
  then have "\<forall>xs \<in> set ((splits A)[split_index h A := ys]). length xs \<le> max_per_split A"
    using assms(3) set_list_update [of "splits A" "split_index h A" ys] by blast
  moreover have "splits (snd (insert_and_check pick h A)) = (if h \<in> set ?e then splits A else (splits A)[split_index h A := ys])"
    by (simp add: insert_and_check_def Let_def ys_def)
  ultimately show ?thesis using assms(3) by simp
qed

lemma policy_invariant:
  assumes "filter_reach po co drift F0 F os" "I (af_policy F0)"
    and "\<And>k p. I p \<Longrightarrow> I (snd (po_should_admit po k p))" "\<And>k p. I p \<Longrightarrow> I (po_on_access po k p)"
    "\<And>k p. I p \<Longrightarrow> I (po_on_remove po k p)" "\<And>k p. I p \<Longrightarrow> I (po_on_insert po k p)" "\<And>p. I p \<Longrightarrow> I (po_reset po p)"
  shows "I (af_policy F)"
  using assms(1)
proof induction
  case (set F os k v)
  then show ?case using assms(3,6) [of "af_policy F" k] assms(6) [of "snd (po_should_admit po k (af_policy F))" k]
    by (auto simp: filter_set_def Let_def split: prod.split)
next
  case (add F os k v)
  then show ?case using assms(3) [of "af_policy F" k] assms(4,6) [of "snd (po_should_admit po k (af_policy F))" k]
    by (auto simp: filter_add_def Let_def split: prod.split)
next
  case (get F os k)
  then show ?case using assms(4) [of "af_policy F" k] by (auto simp: filter_get_def Let_def split: prod.split)
next
  case (del F os k)
  then show ?case using assms(5) [of "af_policy F" k] by (auto simp: filter_del_def Let_def split: prod.split)
qed (simp_all add: assms(2,7) filter_max_size_def filter_flush_def)

lemma rf_bounded_ops:
  assumes pick: "\<And>xs. xs \<noteq> [] \<Longrightarrow> pick xs \<in> set xs" and b: "rf_bounded P"
  shows "rf_bounded (snd (should_admit pick hash_key k P))" "rf_bounded (on_access hash_key k P)"
    "rf_bounded (on_remove hash_key k P)" "rf_bounded (reject_first_reset P)"
proof -
  have i: "split_index h (tracker P) < length (splits (tracker P))" for h
    using b unfolding rf_bounded_def rf_sane_def by (intro split_index_less) blast+
  show "rf_bounded (snd (should_admit pick hash_key k P))"
    using b insert_and_check_bounded [OF pick i, of "hash_key k"] should_admit_fields [of pick hash_key k P]
    by (auto simp: rf_bounded_def rf_sane_def)
  show "rf_bounded (on_access hash_key k P)"
    using b length_update [of "hash_key k" True "[]"] length_update [of "hash_key k" True "hit_signals P"]
    by (auto simp: rf_bounded_def rf_sane_def on_access_def Let_def kMaxHitSignals_def)
  show "rf_bounded (on_remove hash_key k P)"
  proof -
    let ?e = "splits (tracker P) ! split_index (hash_key k) (tracker P)"
    have "length ?e \<le> max_per_split (tracker P)" using b i by (simp add: rf_bounded_def)
    then have "length (remove1 (hash_key k) ?e) \<le> max_per_split (tracker P)" by (auto simp: length_remove1)
    then show ?thesis using b set_list_update [of "splits (tracker P)" "split_index (hash_key k) (tracker P)" "remove1 (hash_key k) ?e"]
      by (auto simp: rf_bounded_def rf_sane_def on_remove_def split_remove_def)
  qed
  show "rf_bounded (reject_first_reset P)"
    using b by (auto simp: rf_bounded_def rf_sane_def reject_first_reset_def split_clear_def)
qed

text \<open>
  The memory of the policy is bounded, whatever clients do: the tracker holds at most \<^verbatim>\<open>max_entries()\<close> hashes,
  and at most 8192 hit signals are kept.
\<close>

theorem policy_memory_bounded:
  assumes "\<And>xs. xs \<noteq> [] \<Longrightarrow> pick xs \<in> set xs" "0 < m"
    and "filter_reach (reject_first_ops pick hash_key) co drift (filter_new (reject_first_new n m sig) c) F os"
  shows "split_size (tracker (af_policy F)) \<le> max_entries (tracker (af_policy F)) \<and>
    length (hit_signals (af_policy F)) \<le> kMaxHitSignals"
proof -
  have "rf_bounded (af_policy F)"
  proof (rule policy_invariant [OF assms(3)])
    show "rf_bounded (af_policy (filter_new (reject_first_new n m sig) c))"
      using assms(2) by (simp add: filter_new_def reject_first_new_def rf_bounded_def rf_sane_def split_set_new_def)
  qed (use rf_bounded_ops [OF assms(1)] in \<open>simp_all add: reject_first_ops_def on_insert_def rf_bounded_def rf_sane_def\<close>)
  moreover have "sum_list (map length xss) \<le> length xss * b" if "\<forall>xs \<in> set xss. length xs \<le> b" for xss :: "u64 list list" and b
    using that by (induction xss) auto
  ultimately show ?thesis by (fastforce simp: rf_bounded_def rf_sane_def split_size_def max_entries_def mult.commute)
qed

theorem policy_memory_bounded_witness:
  "\<exists>F. F = snd (filter_set (reject_first_ops hd of_nat) lru_cache_ops (5 :: nat) 7
      (filter_new (reject_first_new 8 2 True) (sample_lru, []))) \<and>
    split_size (tracker (af_policy F)) \<le> max_entries (tracker (af_policy F))"
proof -
  have "\<And>xs :: u64 list. xs \<noteq> [] \<Longrightarrow> hd xs \<in> set xs" by simp
  from policy_memory_bounded [where hash_key = of_nat and m = 2 and n = 8 and sig = True and c = "(sample_lru, [])"
      and drift = lru_drift, OF this _ filter_reach.set [OF filter_reach.start, of _ lru_cache_ops _ _ 5 7]]
  show ?thesis by simp
qed

end
