(* ===== verification/Space_Saving.thy ===== *)
theory Space_Saving
  imports Std_Heap "HOL-Library.AList"
begin

text \<open>
  The streaming top-k tracker of \<^verbatim>\<open>detail/space_saving.hpp\<close> with its lazily updated min-heap,
  and the guarantees of the Space-Saving algorithm for it: the error of an estimate, recall of the
  frequent keys, and that the key replaced is a true minimum although the heap is stale.

  The hash map is third-party code: its contents are an association list, and the order in which it is
  iterated is a parameter \<open>iter\<close>. \<^verbatim>\<open>std::size_t\<close> is a natural number below \<open>2 ^ 64\<close> with the
  wrap-around of the additions written out.
\<close>

section \<open>The tracker\<close>

definition size_add :: "nat \<Rightarrow> nat \<Rightarrow> nat" where
  "size_add a b = (a + b) mod 2 ^ 64"

type_synonym 'k ss_entry = "nat \<times> 'k"

definition entry_greater :: "'k ss_entry \<Rightarrow> 'k ss_entry \<Rightarrow> bool" where
  "entry_greater a b \<longleftrightarrow> fst a > fst b"

record 'k space_saving_top_k =
  ss_capacity :: nat
  ss_total :: nat
  ss_map :: "('k \<times> nat) list"
  ss_heap :: "'k ss_entry list"

definition ss_new :: "nat \<Rightarrow> 'k space_saving_top_k" where
  "ss_new capacity =
     \<lparr>ss_capacity = (if capacity = 0 then 1 else capacity), ss_total = 0, ss_map = [], ss_heap = []\<rparr>"

definition stale_entries :: "('k \<times> nat) list \<Rightarrow> 'k ss_entry list \<Rightarrow> nat" where
  "stale_entries m h = size (filter_mset (\<lambda>(c, k). map_of m k \<noteq> Some c) (mset h))"

lemma mset_heap_insert [simp]: "mset (heap_insert lt x xs) = add_mset x (mset xs)"
  by (simp add: heap_insert_def)

lemma mset_heap_delete: "xs \<noteq> [] \<Longrightarrow> mset xs = add_mset (hd xs) (mset (heap_delete lt xs))"
  by (simp add: heap_delete_def mset_butlast_pop_heap)

lemma stale_entries_delete:
  "h \<noteq> [] \<Longrightarrow> (c, k) = hd h \<Longrightarrow> map_of m k \<noteq> Some c \<Longrightarrow>
   stale_entries m (heap_delete lt h) < stale_entries m h"
  using mset_heap_delete [of h lt] by (cases "hd h") (simp add: stale_entries_def)

lemma stale_entries_insert [simp]:
  "map_of m k = Some c \<Longrightarrow> stale_entries m (heap_insert lt (c, k) h) = stale_entries m h"
  by (simp add: stale_entries_def)

text \<open>The search for the minimum: entries of keys that are gone are dropped, outdated counts refreshed.\<close>

function find_min :: "('k \<times> nat) list \<Rightarrow> 'k ss_entry list \<Rightarrow> 'k ss_entry option \<times> 'k ss_entry list" where
  "find_min m h =
     (if h = [] then (None, [])
      else case hd h of (top_count, top_key) \<Rightarrow>
        (case map_of m top_key of
           None \<Rightarrow> find_min m (heap_delete entry_greater h)
         | Some c \<Rightarrow>
             if c \<noteq> top_count then find_min m (heap_insert entry_greater (c, top_key) (heap_delete entry_greater h))
             else (Some (top_count, top_key), h)))"
  by auto

termination
  by (relation "measure (\<lambda>(m, h). stale_entries m h)") (auto simp: stale_entries_delete)

declare find_min.simps [simp del]

definition min_element :: "('k \<times> nat) list \<Rightarrow> 'k \<times> nat" where
  "min_element xs = fold (\<lambda>b a. if snd b < snd a then b else a) (tl xs) (hd xs)"

definition rebuild_heap :: "(('k \<times> nat) list \<Rightarrow> ('k \<times> nat) list) \<Rightarrow> 'k space_saving_top_k \<Rightarrow> 'k space_saving_top_k" where
  "rebuild_heap iter S =
     S\<lparr>ss_heap := fold (\<lambda>(k, c). heap_insert entry_greater (c, k)) (iter (ss_map S)) []\<rparr>"

definition ss_add ::
  "(('k \<times> nat) list \<Rightarrow> ('k \<times> nat) list) \<Rightarrow> 'k \<Rightarrow> nat \<Rightarrow> 'k space_saving_top_k \<Rightarrow> 'k space_saving_top_k" where
  "ss_add iter key inc S =
     (let S = S\<lparr>ss_total := size_add (ss_total S) inc\<rparr>; m = ss_map S in
      case map_of m key of
        Some c \<Rightarrow> S\<lparr>ss_map := AList.update key (size_add c inc) m\<rparr>
      | None \<Rightarrow>
          if length m < ss_capacity S
          then S\<lparr>ss_map := AList.update key inc m, ss_heap := heap_insert entry_greater (inc, key) (ss_heap S)\<rparr>
          else
            let (found, h) = find_min m (ss_heap S);
                (min_count, min_key, h) =
                  (case found of
                     None \<Rightarrow> let (k, c) = min_element (iter m) in (c, k, h)
                   | Some (c, k) \<Rightarrow> (c, k, heap_delete entry_greater h));
                new_count = size_add min_count inc;
                S = S\<lparr>ss_map := AList.update key new_count (AList.delete min_key m),
                      ss_heap := heap_insert entry_greater (new_count, key) h\<rparr>
            in if length (ss_heap S) > (ss_capacity S * 4) mod 2 ^ 64 then rebuild_heap iter S else S)"

definition top_k :: "(('k \<times> nat) list \<Rightarrow> ('k \<times> nat) list) \<Rightarrow> nat \<Rightarrow> 'k space_saving_top_k \<Rightarrow> ('k \<times> nat) list" where
  "top_k iter k S = take k (rev (sort_key snd (rev (iter (ss_map S)))))"

definition ss_size :: "'k space_saving_top_k \<Rightarrow> nat" where
  "ss_size S = length (ss_map S)"

definition ss_reset :: "'k space_saving_top_k \<Rightarrow> 'k space_saving_top_k" where
  "ss_reset S = S\<lparr>ss_map := [], ss_heap := [], ss_total := 0\<rparr>"

definition error_bound :: "'k space_saving_top_k \<Rightarrow> nat" where
  "error_bound S = (if ss_capacity S > 0 then ss_total S div ss_capacity S else 0)"

text \<open>A stream of observations.\<close>

definition ss_run ::
  "(('k \<times> nat) list \<Rightarrow> ('k \<times> nat) list) \<Rightarrow> nat \<Rightarrow> ('k \<times> nat) list \<Rightarrow> 'k space_saving_top_k" where
  "ss_run iter capacity xs = fold (\<lambda>(k, c). ss_add iter k c) xs (ss_new capacity)"

section \<open>The heap\<close>

interpretation by_count: weak_order "entry_greater :: 'k ss_entry \<Rightarrow> 'k ss_entry \<Rightarrow> bool"
  by unfold_locales (auto simp: entry_greater_def)

text \<open>
  The heap has one entry for every tracked key, with a count that is not above the current one.
\<close>

definition heap_for :: "('k \<times> nat) list \<Rightarrow> 'k ss_entry list \<Rightarrow> bool" where
  "heap_for m h \<longleftrightarrow>
     is_heap entry_greater h \<and> distinct (map fst m) \<and> mset (map snd h) = mset (map fst m) \<and>
     (\<forall>(c, k) \<in> set h. \<exists>c'. map_of m k = Some c' \<and> c \<le> c')"

lemma heap_forI:
  assumes "is_heap entry_greater h" "distinct (map fst m)" "mset (map snd h) = mset (map fst m)"
    and "\<And>c k. (c, k) \<in> set h \<Longrightarrow> \<exists>c'. map_of m k = Some c' \<and> c \<le> c'"
  shows "heap_for m h"
  using assms unfolding heap_for_def by blast

lemma heap_forD:
  assumes "heap_for m h"
  shows "is_heap entry_greater h" "distinct (map fst m)" "mset (map snd h) = mset (map fst m)"
    "(c, k) \<in> set h \<Longrightarrow> \<exists>c'. map_of m k = Some c' \<and> c \<le> c'"
  using assms unfolding heap_for_def by blast+

lemma heap_for_length: "heap_for m h \<Longrightarrow> length h = length m"
  unfolding heap_for_def by (metis length_map size_mset)

lemma mset_map_delete:
  assumes "h \<noteq> []"
  shows "mset (map snd h) = add_mset (snd (hd h)) (mset (map snd (heap_delete entry_greater h)))"
  using arg_cong [OF mset_heap_delete [OF assms], of "image_mset snd"] by simp

lemma heap_for_refresh:
  assumes "heap_for m h" "h \<noteq> []" "hd h = (c, k)" "map_of m k = Some c'"
  shows "heap_for m (heap_insert entry_greater (c', k) (heap_delete entry_greater h))"
proof -
  have "set h = insert (hd h) (set (heap_delete entry_greater h))" by (rule by_count.set_pop [OF assms(2)])
  moreover have "set (heap_insert entry_greater x ys) = insert x (set ys)" for x :: "'a ss_entry" and ys
    by (metis mset_heap_insert set_mset_add_mset_insert set_mset_mset)
  ultimately show ?thesis
    using assms mset_map_delete [OF assms(2)]
    by (auto simp: heap_for_def intro: by_count.wf_push by_count.wf_pop)
qed

lemma find_min_finds:
  "heap_for m h \<Longrightarrow> m \<noteq> [] \<Longrightarrow>
   \<exists>c k h'. find_min m h = (Some (c, k), h') \<and> heap_for m h' \<and> h' \<noteq> [] \<and> hd h' = (c, k) \<and>
     map_of m k = Some c \<and> (\<forall>k' c'. map_of m k' = Some c' \<longrightarrow> c \<le> c')"
proof (induction m h rule: find_min.induct)
  case (1 m h)
  obtain c k where hd: "hd h = (c, k)" by fastforce
  have ne: "h \<noteq> []" using heap_for_length [OF "1.prems"(1)] "1.prems"(2) by auto
  then have "(c, k) \<in> set h" using hd by (metis hd_in_set)
  then obtain c' where k: "map_of m k = Some c'" using "1.prems"(1) by (auto simp: heap_for_def)
  show ?case
  proof (cases "c' = c")
    case True
    have "c \<le> c''" if "map_of m k' = Some c''" for k' c''
    proof -
      have "k' \<in> set (map fst m)" using map_of_SomeD [OF that] by force
      then have "k' \<in> set (map snd h)" using "1.prems"(1) unfolding heap_for_def by (metis set_mset_mset)
      then obtain d where d: "(d, k') \<in> set h" by auto
      then have "d \<le> c''" using "1.prems"(1) that by (fastforce simp: heap_for_def)
      moreover have "c \<le> d"
        using by_count.front_greatest [OF _ d] "1.prems"(1) hd by (auto simp: heap_for_def entry_greater_def)
      ultimately show ?thesis by simp
    qed
    with True ne hd k "1.prems"(1) show ?thesis by (subst find_min.simps) simp
  next
    case False
    from "1.IH"(2) [OF ne hd [symmetric] k False heap_for_refresh [OF "1.prems"(1) ne hd k] "1.prems"(2)]
    show ?thesis using ne hd k False by (subst find_min.simps) simp
  qed
qed

section \<open>The summary\<close>

text \<open>
  What the counts promise, for the true frequencies \<open>f\<close> of the stream: an estimate is not below the
  true count and exceeds it by at most any other estimate; a key that is not tracked is not
  more frequent than any estimate; and as long as there is room every count is exact.
\<close>

definition summary :: "nat \<Rightarrow> ('k \<Rightarrow> nat) \<Rightarrow> ('k \<rightharpoonup> nat) \<Rightarrow> bool" where
  "summary K f M \<longleftrightarrow>
     finite (dom M) \<and> card (dom M) \<le> K \<and>
     (\<forall>k c. M k = Some c \<longrightarrow> f k \<le> c) \<and>
     (\<forall>k c k' c'. M k = Some c \<longrightarrow> M k' = Some c' \<longrightarrow> c \<le> f k + c') \<and>
     (\<forall>k k' c'. M k = None \<longrightarrow> M k' = Some c' \<longrightarrow> f k \<le> c') \<and>
     (card (dom M) < K \<longrightarrow> (\<forall>k. f k = (case M k of None \<Rightarrow> 0 | Some c \<Rightarrow> c)))"

lemma summary_hit:
  assumes "summary K f M" "M key = Some c"
  shows "summary K (f(key := f key + n)) (M(key \<mapsto> c + n))"
proof -
  have d: "dom (M(key \<mapsto> c + n)) = dom M" using assms(2) by auto
  show ?thesis unfolding summary_def d
  proof (intro conjI allI impI)
    fix k c1 k' c2 assume a: "(M(key \<mapsto> c + n)) k = Some c1" "(M(key \<mapsto> c + n)) k' = Some c2"
    obtain c1' c2' where b: "M k = Some c1'" "M k' = Some c2'" "c1' \<le> c1" "c2' \<le> c2" "k = key \<Longrightarrow> c1 = c1' + n" "k \<noteq> key \<Longrightarrow> c1 = c1'"
      using a assms(2) by (cases "k = key"; cases "k' = key") auto
    have "c1' \<le> f k + c2'" using assms(1) b(1,2) unfolding summary_def by blast
    with b(4,5,6) show "c1 \<le> (f(key := f key + n)) k + c2" by (cases "k = key") simp_all
  next
    fix k k' c' assume "(M(key \<mapsto> c + n)) k = None" "(M(key \<mapsto> c + n)) k' = Some c'"
    then obtain c2 where "k \<noteq> key" "M k = None" "M k' = Some c2" "c2 \<le> c'"
      using assms(2) by (cases "k = key"; cases "k' = key") auto
    moreover from this have "f k \<le> c2" using assms(1) unfolding summary_def by blast
    ultimately show "(f(key := f key + n)) k \<le> c'" by simp
  next
    fix k assume "card (dom M) < K"
    then have "\<forall>k. f k = (case M k of None \<Rightarrow> 0 | Some c \<Rightarrow> c)" using assms(1) unfolding summary_def by blast
    then show "(f(key := f key + n)) k = (case (M(key \<mapsto> c + n)) k of None \<Rightarrow> 0 | Some c \<Rightarrow> c)"
      using assms(2) by simp
  qed (use assms in \<open>auto simp: summary_def\<close>)
qed

lemma summary_new:
  assumes "summary K f M" "M key = None" "card (dom M) < K"
  shows "summary K (f(key := f key + n)) (M(key \<mapsto> n))"
proof -
  have e: "f k = (case M k of None \<Rightarrow> 0 | Some c \<Rightarrow> c)" for k using assms(1,3) unfolding summary_def by blast
  have x: "(f(key := f key + n)) k = (case (M(key \<mapsto> n)) k of None \<Rightarrow> 0 | Some c \<Rightarrow> c)" for k
    using e [of k] assms(2) by (cases "k = key") simp_all
  have "card (dom (M(key \<mapsto> n))) = Suc (card (dom M))"
    using assms(1,2) by (simp add: summary_def domIff)
  then show ?thesis using assms(1,3) x by (simp add: summary_def)
qed

lemma summary_replace:
  assumes "summary K f M" "M key = None" "card (dom M) = K" "M mk = Some mc"
    and le: "\<And>k c. M k = Some c \<Longrightarrow> mc \<le> c"
  shows "summary K (f(key := f key + n)) (M(mk := None, key \<mapsto> mc + n))"
proof -
  let ?M = "M(mk := None, key \<mapsto> mc + n)"
  have fin: "finite (dom M)" and lo: "M k = Some c \<Longrightarrow> f k \<le> c"
    and up: "M k = Some c \<Longrightarrow> M k' = Some c' \<Longrightarrow> c \<le> f k + c'"
    and no: "M k = None \<Longrightarrow> M k' = Some c' \<Longrightarrow> f k \<le> c'" for k c k' c'
    using assms(1) unfolding summary_def by blast+
  have "mk \<noteq> key" using assms(2,4) by auto
  then have "dom ?M = insert key (dom M - {mk})" by auto
  moreover have "card (dom M) > 0" using fin assms(4) by (auto simp: card_gt_0_iff)
  ultimately have c: "card (dom ?M) = K"
    using fin assms(2,3,4) by (simp add: domIff card_Diff_singleton)
  have g: "mc \<le> c'" if "?M k = Some c'" for k c' using that le by (auto split: if_splits)
  show ?thesis unfolding summary_def c
  proof (intro conjI allI impI)
    fix k c1 k' c2 assume a: "?M k = Some c1" "?M k' = Some c2"
    show "c1 \<le> (f(key := f key + n)) k + c2"
    proof (cases "k = key")
      case True
      with a(1) g [OF a(2)] show ?thesis by simp
    next
      case False
      then have "M k = Some c1" using a(1) by (simp split: if_splits)
      with up [OF this assms(4)] g [OF a(2)] False show ?thesis by simp
    qed
  next
    fix k k' c' assume a: "?M k = None" "?M k' = Some c'"
    then have "M k = None \<or> k = mk" "k \<noteq> key" by (auto split: if_splits)
    then have "f k \<le> mc" using no [of k, OF _ assms(4)] lo [OF assms(4)] by auto
    with g [OF a(2)] \<open>k \<noteq> key\<close> show "(f(key := f key + n)) k \<le> c'" by simp
  next
    fix k c1 assume "?M k = Some c1"
    then show "(f(key := f key + n)) k \<le> c1"
      using lo [of k c1] no [OF assms(2,4)] by (cases "k = key") (auto split: if_splits)
  qed (use fin in simp_all)
qed

lemma summary_min:
  assumes "summary K f M" "card (dom M) = K" "\<And>k c. M k = Some c \<Longrightarrow> e \<le> c"
  shows "K * e \<le> (\<Sum>k \<in> dom M. the (M k))"
proof -
  have "(\<Sum>k \<in> dom M. e) \<le> (\<Sum>k \<in> dom M. the (M k))" using assms(3) by (intro sum_mono) auto
  then show ?thesis using assms(2) by simp
qed

section \<open>The tracker keeps the summary\<close>

definition true_count :: "('k \<times> nat) list \<Rightarrow> 'k \<Rightarrow> nat" where
  "true_count xs k = sum_list (map snd (filter (\<lambda>x. fst x = k) xs))"

definition observations :: "('k \<times> nat) list \<Rightarrow> nat" where
  "observations xs = sum_list (map snd xs)"

lemma true_count_snoc: "true_count (xs @ [(key, n)]) = (true_count xs)(key := true_count xs key + n)"
  by (auto simp: true_count_def)

lemma observations_snoc [simp]: "observations (xs @ [x]) = observations xs + snd x"
  by (simp add: observations_def)

definition ss_inv :: "nat \<Rightarrow> ('k \<times> nat) list \<Rightarrow> 'k space_saving_top_k \<Rightarrow> bool" where
  "ss_inv K xs S \<longleftrightarrow>
     0 < K \<and> ss_capacity S = K \<and> heap_for (ss_map S) (ss_heap S) \<and>
     summary K (true_count xs) (map_of (ss_map S)) \<and> ss_total S = observations xs \<and>
     (\<Sum>k \<in> dom (map_of (ss_map S)). the (map_of (ss_map S) k)) = observations xs"

lemma size_add_small [simp]: "a + b < 2 ^ 64 \<Longrightarrow> size_add a b = a + b"
  by (simp add: size_add_def)

lemma card_dom_alist: "distinct (map fst m) \<Longrightarrow> card (dom (map_of m)) = length m"
  by (metis distinct_card dom_map_of_conv_image_fst length_map set_map)

lemma ss_invD:
  assumes "ss_inv K xs S"
  shows "distinct (map fst (ss_map S))" "length (ss_heap S) = length (ss_map S)"
    "card (dom (map_of (ss_map S))) = length (ss_map S)" "length (ss_map S) \<le> K" "0 < K" "ss_capacity S = K"
    "heap_for (ss_map S) (ss_heap S)" "summary K (true_count xs) (map_of (ss_map S))" "ss_total S = observations xs"
    "map_of (ss_map S) k = Some c \<Longrightarrow> c \<le> observations xs"
proof -
  show d: "distinct (map fst (ss_map S))" using assms by (simp add: ss_inv_def heap_for_def)
  show "length (ss_heap S) = length (ss_map S)" using assms heap_for_length by (auto simp: ss_inv_def)
  show c: "card (dom (map_of (ss_map S))) = length (ss_map S)" by (rule card_dom_alist [OF d])
  show "length (ss_map S) \<le> K" using assms c by (simp add: ss_inv_def summary_def)
  show "c \<le> observations xs" if "map_of (ss_map S) k = Some c"
    using assms that member_le_sum [of k "dom (map_of (ss_map S))" "\<lambda>k. the (map_of (ss_map S) k)"]
    by (auto simp: ss_inv_def finite_dom_map_of)
qed (use assms in \<open>simp_all add: ss_inv_def\<close>)

lemma sum_upd:
  assumes "finite (dom M)"
  shows "(\<Sum>k \<in> dom (M(key \<mapsto> v)). the ((M(key \<mapsto> v)) k)) =
    v + (\<Sum>k \<in> dom M - {key}. the (M k))"
proof -
  have "(\<Sum>k \<in> dom M - {key}. the ((M(key \<mapsto> v)) k)) = (\<Sum>k \<in> dom M - {key}. the (M k))"
    by (rule sum.cong) auto
  moreover have d: "dom (M(key \<mapsto> v)) = insert key (dom M - {key})" by auto
  ultimately show ?thesis unfolding d using assms by (subst sum.insert) (auto simp: fun_upd_same simp del: fun_upd_apply)
qed

lemma heap_for_hit:
  assumes "heap_for m h" "map_of m key = Some c" "c \<le> c'"
  shows "heap_for (AList.update key c' m) h"
proof -
  have "key \<in> set (map fst m)" using map_of_SomeD [OF assms(2)] by force
  then have "map fst (AList.update key c' m) = map fst m" by (simp only: update_keys if_True)
  moreover have "\<exists>c2. map_of (AList.update key c' m) k = Some c2 \<and> d \<le> c2" if dk: "(d, k) \<in> set h" for d k
  proof -
    obtain c1 where "map_of m k = Some c1" "d \<le> c1" using assms(1) dk unfolding heap_for_def by blast
    with assms(2,3) show ?thesis by (cases "k = key") (simp_all add: update_conv')
  qed
  ultimately show ?thesis using assms(1) unfolding heap_for_def by auto
qed

lemma set_heap_insert: "set (heap_insert lt x xs) = insert x (set xs)"
  by (metis mset_heap_insert set_mset_add_mset_insert set_mset_mset)

lemma heap_for_new:
  assumes "heap_for m h" "map_of m key = None"
  shows "heap_for (AList.update key c m) (heap_insert entry_greater (c, key) h)"
proof (rule heap_forI)
  have n: "key \<notin> set (map fst m)" using assms(2) by (metis image_set map_of_eq_None_iff)
  have u: "map fst (AList.update key c m) = map fst m @ [key]" using n by (simp only: update_keys if_False)
  show "is_heap entry_greater (heap_insert entry_greater (c, key) h)"
    by (rule by_count.wf_push [OF heap_forD(1) [OF assms(1)]])
  show "distinct (map fst (AList.update key c m))" by (rule distinct_update [OF heap_forD(2) [OF assms(1)]])
  show "mset (map snd (heap_insert entry_greater (c, key) h)) = mset (map fst (AList.update key c m))"
    unfolding u using heap_forD(3) [OF assms(1)] by simp
  fix d k assume a: "(d, k) \<in> set (heap_insert entry_greater (c, key) h)"
  show "\<exists>c'. map_of (AList.update key c m) k = Some c' \<and> d \<le> c'"
  proof (cases "(d, k) \<in> set h")
    case True
    then obtain c' where "map_of m k = Some c'" "d \<le> c'" using heap_forD(4) [OF assms(1)] by blast
    then show ?thesis using assms(2) by (cases "k = key") (simp_all add: update_conv')
  next
    case False
    with a have "d = c" "k = key" by (simp_all add: set_heap_insert)
    then show ?thesis by (simp add: update_conv')
  qed
qed

lemma heap_for_evict:
  assumes "heap_for m h" "h \<noteq> []" "hd h = (mc, mk)"
  shows "heap_for (AList.delete mk m) (heap_delete entry_greater h)"
proof (rule heap_forI)
  let ?h = "heap_delete entry_greater h"
  show "is_heap entry_greater ?h" by (rule by_count.wf_pop [OF heap_forD(1) [OF assms(1)]])
  show "distinct (map fst (AList.delete mk m))" by (rule distinct_delete [OF heap_forD(2) [OF assms(1)]])
  have "mset (map snd ?h) = mset (map snd h) - {#mk#}" using mset_map_delete [OF assms(2)] assms(3) by simp
  then show k: "mset (map snd ?h) = mset (map fst (AList.delete mk m))"
    using heap_forD(2,3) [OF assms(1)]
    by (simp only: delete_keys distinct_remove1_removeAll [symmetric] mset_remove1)
  fix c k assume a: "(c, k) \<in> set ?h"
  have "k \<in> set_mset (mset (map snd ?h))" using a by force
  then have "k \<noteq> mk" unfolding k delete_keys by simp
  moreover have "(c, k) \<in> set h" using a by_count.set_pop [OF assms(2)] by blast
  ultimately show "\<exists>c'. map_of (AList.delete mk m) k = Some c' \<and> c \<le> c'"
    using heap_forD(4) [OF assms(1)] by (simp add: delete_conv')
qed

lemma ss_inv_new: "ss_inv (if K = 0 then 1 else K) [] (ss_new K)"
  by (simp add: ss_inv_def ss_new_def heap_for_def is_heap_def heap_upto_def summary_def true_count_def
      observations_def)

lemma ss_add_hit:
  assumes "ss_inv K xs S" "observations xs + n < 2 ^ 64" "map_of (ss_map S) key = Some c"
  shows "ss_add iter key n S = S\<lparr>ss_total := ss_total S + n, ss_map := AList.update key (c + n) (ss_map S),
    ss_heap := ss_heap S\<rparr>"
  using assms(2,3) ss_invD(9,10) [OF assms(1)] by (fastforce simp: ss_add_def Let_def)

lemma ss_add_new:
  assumes "ss_inv K xs S" "observations xs + n < 2 ^ 64" "map_of (ss_map S) key = None" "length (ss_map S) < K"
  shows "ss_add iter key n S = S\<lparr>ss_total := ss_total S + n, ss_map := AList.update key n (ss_map S),
    ss_heap := heap_insert entry_greater (n, key) (ss_heap S)\<rparr>"
  using assms(2-4) ss_invD(6,9) [OF assms(1)] by (simp add: ss_add_def Let_def)

lemma ss_add_evict:
  assumes i: "ss_inv K xs S" "observations xs + n < 2 ^ 64" "map_of (ss_map S) key = None"
    and f: "length (ss_map S) = K" "K < 2 ^ 62"
  obtains mc mk h where "heap_for (ss_map S) h" "h \<noteq> []" "hd h = (mc, mk)" "map_of (ss_map S) mk = Some mc"
    "\<And>k c. map_of (ss_map S) k = Some c \<Longrightarrow> mc \<le> c"
    "ss_add iter key n S = S\<lparr>ss_total := ss_total S + n, ss_map := AList.update key (mc + n) (AList.delete mk (ss_map S)),
      ss_heap := heap_insert entry_greater (mc + n, key) (heap_delete entry_greater h)\<rparr>"
proof -
  have "ss_map S \<noteq> []" using f(1) ss_invD(5) [OF i(1)] by auto
  from find_min_finds [OF ss_invD(7) [OF i(1)] this] obtain mc mk h
    where h: "find_min (ss_map S) (ss_heap S) = (Some (mc, mk), h)" "heap_for (ss_map S) h" "h \<noteq> []" "hd h = (mc, mk)"
      "map_of (ss_map S) mk = Some mc" "\<forall>k c. map_of (ss_map S) k = Some c \<longrightarrow> mc \<le> c" by blast
  have "mc \<le> observations xs" by (rule ss_invD(10) [OF i(1) h(5)])
  moreover have "length (heap_insert entry_greater (mc + n, key) (heap_delete entry_greater h)) = K"
    using by_count.length_pop [OF h(3)] heap_for_length [OF h(2)] f(1) by (simp add: heap_insert_def)
  moreover have "(K * 4) mod 2 ^ 64 = K * 4" using f(2) by simp
  ultimately have "ss_add iter key n S = S\<lparr>ss_total := ss_total S + n, ss_map := AList.update key (mc + n) (AList.delete mk (ss_map S)),
      ss_heap := heap_insert entry_greater (mc + n, key) (heap_delete entry_greater h)\<rparr>"
    using i(2,3) f(1) h(1) ss_invD(6,9) [OF i(1)] by (simp add: ss_add_def Let_def)
  with that h show ?thesis by blast
qed

lemma sum_remove:
  assumes "finite (dom M)" "M key = Some c"
  shows "(\<Sum>k \<in> dom M. the (M k)) = c + (\<Sum>k \<in> dom M - {key}. the (M k))"
  using assms by (subst sum.remove [of _ key]) auto

lemma ss_inv_upd:
  assumes "ss_inv K xs S" "heap_for m h" "summary K ((true_count xs)(key := true_count xs key + n)) M" "map_of m = M"
    "(\<Sum>k \<in> dom M. the (M k)) = observations xs + n"
  shows "ss_inv K (xs @ [(key, n)]) (S\<lparr>ss_total := ss_total S + n, ss_map := m, ss_heap := h\<rparr>)"
  unfolding ss_inv_def true_count_snoc observations_snoc
  using assms(2-5) ss_invD(5,6,9) [OF assms(1)] by (simp del: fun_upd_apply)

lemma ss_inv_add:
  assumes i: "ss_inv K xs S" "observations xs + n < 2 ^ 64" "K < 2 ^ 62"
  shows "ss_inv K (xs @ [(key, n)]) (ss_add iter key n S)"
proof -
  let ?M = "map_of (ss_map S)"
  note d = ss_invD [OF i(1)]
  have fin: "finite (dom ?M)" by (rule finite_dom_map_of)
  have t: "(\<Sum>k \<in> dom ?M. the (?M k)) = observations xs" using i(1) by (simp add: ss_inv_def)
  show ?thesis
  proof (cases "?M key")
    case (Some c)
    have "(\<Sum>k \<in> dom (?M(key \<mapsto> c + n)). the ((?M(key \<mapsto> c + n)) k)) = observations xs + n"
      using sum_upd [OF fin, of key "c + n"] sum_remove [OF fin Some] t by simp
    then show ?thesis unfolding ss_add_hit [OF i(1,2) Some]
      by (rule ss_inv_upd [OF i(1) heap_for_hit [OF d(7) Some] summary_hit [OF d(8) Some] update_conv', rotated]) simp
  next
    case None
    then have k: "dom ?M - {key} = dom ?M" by auto
    show ?thesis
    proof (cases "length (ss_map S) < K")
      case True
      have "(\<Sum>k \<in> dom (?M(key \<mapsto> n)). the ((?M(key \<mapsto> n)) k)) = observations xs + n"
        using sum_upd [OF fin, of key n] t k by simp
      moreover have "card (dom ?M) < K" using d(3) True by simp
      ultimately show ?thesis unfolding ss_add_new [OF i(1,2) None True]
        by (intro ss_inv_upd [OF i(1) heap_for_new [OF d(7) None] summary_new [OF d(8) None] update_conv'])
    next
      case False
      then have f: "length (ss_map S) = K" using d(4) by simp
      obtain mc mk h where h: "heap_for (ss_map S) h" "h \<noteq> []" "hd h = (mc, mk)" "?M mk = Some mc"
        "\<And>k c. ?M k = Some c \<Longrightarrow> mc \<le> c"
        "ss_add iter key n S = S\<lparr>ss_total := ss_total S + n, ss_map := AList.update key (mc + n) (AList.delete mk (ss_map S)),
          ss_heap := heap_insert entry_greater (mc + n, key) (heap_delete entry_greater h)\<rparr>"
        by (rule ss_add_evict [OF i(1,2) None f i(3), where iter = iter]) (rule that)
      let ?N = "?M(mk := None)"
      have n: "map_of (AList.delete mk (ss_map S)) key = None" using None by (simp add: delete_conv')
      have "dom ?N - {key} = dom ?M - {mk}" using k by auto
      moreover have "(\<Sum>k \<in> dom ?M - {mk}. the (?N k)) = (\<Sum>k \<in> dom ?M - {mk}. the (?M k))"
        by (rule sum.cong) auto
      ultimately have "(\<Sum>k \<in> dom (?N(key \<mapsto> mc + n)). the ((?N(key \<mapsto> mc + n)) k)) = observations xs + n"
        using sum_upd [of ?N key "mc + n"] fin sum_remove [OF fin h(4)] t by simp
      moreover have "card (dom ?M) = K" using d(3) f by simp
      moreover have "map_of (AList.update key (mc + n) (AList.delete mk (ss_map S))) = ?N(key \<mapsto> mc + n)"
        by (simp only: update_conv' delete_conv')
      ultimately show ?thesis unfolding h(6)
        by (intro ss_inv_upd [OF i(1) heap_for_new [OF heap_for_evict [OF h(1-3)] n] summary_replace [OF d(8) None _ h(4,5)]])
    qed
  qed
qed

lemma ss_inv_run:
  assumes "observations xs < 2 ^ 64" "0 < K" "K < 2 ^ 62" shows "ss_inv K xs (ss_run iter K xs)"
  using assms(1)
proof (induction xs rule: rev_induct)
  case Nil
  then show ?case using ss_inv_new [of K] assms(2) by (simp add: ss_run_def)
next
  case (snoc x xs)
  obtain k n where x: "x = (k, n)" by fastforce
  from snoc have "ss_inv K xs (ss_run iter K xs)" "observations xs + n < 2 ^ 64" by (simp_all add: x)
  from ss_inv_add [OF this assms(3), of k iter] show ?case by (simp add: ss_run_def x)
qed

section \<open>Properties\<close>

lemmas ss_eval = ss_run_def ss_new_def ss_add_def size_add_def Let_def heap_insert_def heap_delete_def push_heap_def
  pop_heap_def sift_up.simps sift_down.simps larger_child_def swap_def entry_greater_def
  observations_def true_count_def

lemma summary_error:
  assumes "ss_inv K xs S" "map_of (ss_map S) k = Some c"
  shows "true_count xs k \<le> c \<and> c \<le> true_count xs k + observations xs div K"
proof
  note d = ss_invD [OF assms(1)]
  show "true_count xs k \<le> c" using d(8) assms(2) unfolding summary_def by blast
  show "c \<le> true_count xs k + observations xs div K"
  proof (cases "length (ss_map S) < K")
    case True
    then have "\<forall>k. true_count xs k = (case map_of (ss_map S) k of None \<Rightarrow> 0 | Some c \<Rightarrow> c)"
      using d(3,8) unfolding summary_def by simp
    then show ?thesis using assms(2) by simp
  next
    case False
    have "c - true_count xs k \<le> c'" if "map_of (ss_map S) k' = Some c'" for k' c'
      using d(8) assms(2) that unfolding summary_def by (metis le_diff_conv add.commute)
    from summary_min [OF d(8) _ this] have "K * (c - true_count xs k) \<le> observations xs"
      using False d(3,4) assms(1) by (simp add: ss_inv_def)
    then have "c - true_count xs k \<le> observations xs div K"
      using d(5) by (simp add: less_eq_div_iff_mult_less_eq mult.commute)
    then show ?thesis by simp
  qed
qed

text \<open>
  C12. The error bound of the header: for every stream whose counts sum to less than \<open>2 ^ 64\<close>, the
  estimate of a tracked key is not below its true count and exceeds it by at most \<^verbatim>\<open>error_bound()\<close>,
  the number of observations divided by the capacity.
\<close>

theorem estimate_within_error_bound:
  assumes "observations xs < 2 ^ 64" "0 < K" "K < 2 ^ 62" "map_of (ss_map (ss_run iter K xs)) k = Some c"
  shows "true_count xs k \<le> c \<and> c \<le> true_count xs k + error_bound (ss_run iter K xs)"
  using summary_error [OF ss_inv_run [OF assms(1-3)] assms(4)] ss_invD(5,6,9) [OF ss_inv_run [OF assms(1-3), of iter]]
  by (simp add: error_bound_def)

theorem estimate_within_error_bound_witness:
  "true_count [(7 :: nat, 3), (8, 1), (9, 2)] 9 \<le> 3 \<and>
   3 \<le> true_count [(7 :: nat, 3), (8, 1), (9, 2)] 9 + error_bound (ss_run id 2 [(7 :: nat, 3), (8, 1), (9, 2)])"
proof (rule estimate_within_error_bound)
  have "find_min [(7, 3), (8 :: nat, 1)] [(1, 8), (3, 7)] = (Some (1, 8), [(1, 8), (3, 7)])"
    by (subst find_min.simps) simp
  moreover have "ss_run id 2 [(7 :: nat, 3), (8, 1)] =
      \<lparr>ss_capacity = 2, ss_total = 4, ss_map = [(7, 3), (8, 1)], ss_heap = [(1, 8), (3, 7)]\<rparr>"
    by (simp add: ss_eval)
  moreover have "ss_run id 2 (xs @ [(k, n)]) = ss_add id k n (ss_run id 2 xs)" for xs and k :: nat and n
    by (simp add: ss_run_def)
  from this [of "[(7, 3), (8, 1)]" 9 2]
  have "ss_run id 2 [(7 :: nat, 3), (8, 1), (9, 2)] = ss_add id 9 2 (ss_run id 2 [(7, 3), (8, 1)])" by simp
  ultimately show "map_of (ss_map (ss_run id 2 [(7 :: nat, 3), (8, 1), (9, 2)])) 9 = Some 3"
    by (simp add: ss_add_def size_add_def rebuild_heap_def Let_def)
qed (simp_all add: observations_def)

text \<open>
  Recall: a key whose true count exceeds the number of observations divided by the capacity
  is tracked.
\<close>

theorem frequent_keys_are_tracked:
  assumes "observations xs < 2 ^ 64" "0 < K" "K < 2 ^ 62" "true_count xs k > observations xs div K"
  shows "k \<in> set (map fst (ss_map (ss_run iter K xs)))"
proof (rule ccontr)
  let ?S = "ss_run iter K xs"
  note i = ss_inv_run [OF assms(1-3), of iter]
  note d = ss_invD [OF i]
  assume "k \<notin> set (map fst (ss_map ?S))"
  then have n: "map_of (ss_map ?S) k = None" by (simp add: map_of_eq_None_iff)
  show False
  proof (cases "length (ss_map ?S) < K")
    case True
    then have "\<forall>k. true_count xs k = (case map_of (ss_map ?S) k of None \<Rightarrow> 0 | Some c \<Rightarrow> c)"
      using d(3,8) unfolding summary_def by simp
    then show ?thesis using n assms(4) by simp
  next
    case False
    have "true_count xs k \<le> c'" if "map_of (ss_map ?S) k' = Some c'" for k' c'
      using d(8) n that unfolding summary_def by blast
    from summary_min [OF d(8) _ this] have "K * true_count xs k \<le> observations xs"
      using False d(3,4) i by (simp add: ss_inv_def)
    then have "true_count xs k \<le> observations xs div K" using assms(2)
      by (simp add: less_eq_div_iff_mult_less_eq mult.commute)
    with assms(4) show ?thesis by simp
  qed
qed

theorem frequent_keys_are_tracked_witness:
  "7 \<in> set (map fst (ss_map (ss_run id 2 [(7, 4), (8, 1), (9, 2 :: nat)] :: nat space_saving_top_k)))"
  by (rule frequent_keys_are_tracked) (simp_all add: ss_eval)

text \<open>
  C27. The lazily updated heap is as good as a scan of the counts. In every reachable state with a full
  summary, observing a new key replaces a key whose count is minimal, the new key gets that count plus the
  increment, all other counts stay, and the heap keeps exactly one entry per tracked key; so neither the
  rebuilding of the heap nor the fallback to a scan is ever reached, whatever the iteration order of the hash map is.
\<close>

theorem lazy_heap_replaces_true_minimum:
  fixes iter :: "('k \<times> nat) list \<Rightarrow> ('k \<times> nat) list"
  assumes "observations xs + n < 2 ^ 64" "0 < K" "K < 2 ^ 62" "S = ss_run iter K xs"
    and "length (ss_map S) = K" "map_of (ss_map S) key = None"
  shows "\<exists>mk mc. map_of (ss_map S) mk = Some mc \<and> (\<forall>k c. map_of (ss_map S) k = Some c \<longrightarrow> mc \<le> c) \<and>
    map_of (ss_map (ss_add iter' key n S)) = (map_of (ss_map S))(mk := None, key \<mapsto> mc + n) \<and>
    mset (map snd (ss_heap (ss_add iter' key n S))) = mset (map fst (ss_map (ss_add iter' key n S)))"
proof -
  have i: "ss_inv K xs S" using ss_inv_run [of xs K iter] assms(1-4) by simp
  obtain mc mk h where h: "map_of (ss_map S) mk = Some mc" "\<And>k c. map_of (ss_map S) k = Some c \<Longrightarrow> mc \<le> c"
    "ss_add iter' key n S = S\<lparr>ss_total := ss_total S + n, ss_map := AList.update key (mc + n) (AList.delete mk (ss_map S)),
      ss_heap := heap_insert entry_greater (mc + n, key) (heap_delete entry_greater h)\<rparr>"
    by (rule ss_add_evict [OF i assms(1,6,5,3), where iter = iter']) (rule that)
  have "map_of (ss_map (ss_add iter' key n S)) = (map_of (ss_map S))(mk := None, key \<mapsto> mc + n)"
    by (simp add: h(3) update_conv' delete_conv')
  moreover note heap_forD(3) [OF ss_invD(7) [OF ss_inv_add [OF i assms(1,3), of key iter']]]
  ultimately show ?thesis using h(1,2) by blast
qed

theorem lazy_heap_replaces_true_minimum_witness:
  "\<exists>mk mc. map_of (ss_map (ss_add rev (9 :: nat) 2 (ss_run id 2 [(7, 3), (8, 1)]))) =
      (map_of (ss_map (ss_run id 2 [(7, 3), (8, 1)])))(mk := None, 9 \<mapsto> mc + 2)"
proof -
  have "observations [(7 :: nat, 3), (8, 1)] + 2 < 2 ^ 64" "(0 :: nat) < 2" "(2 :: nat) < 2 ^ 62"
    "length (ss_map (ss_run id 2 [(7 :: nat, 3), (8, 1)])) = 2"
    "map_of (ss_map (ss_run id 2 [(7 :: nat, 3), (8, 1)])) 9 = None" by (simp_all add: ss_eval)
  from lazy_heap_replaces_true_minimum [OF this(1-3) refl this(4,5), of rev] show ?thesis by blast
qed

text \<open>
  The query: the \<open>k\<close> best entries of the summary in descending order of their counts, each a tracked key with its
  estimate, and no entry that is left out has a higher count; whatever the iteration order is.
\<close>

theorem top_k_best:
  assumes "mset (iter (ss_map S)) = mset (ss_map S)"
  shows "length (top_k iter k S) = min k (ss_size S) \<and> sorted (rev (map snd (top_k iter k S))) \<and>
    mset (top_k iter k S) \<subseteq># mset (ss_map S) \<and>
    (\<forall>x \<in># mset (ss_map S) - mset (top_k iter k S). \<forall>y \<in> set (top_k iter k S). snd x \<le> snd y)"
proof -
  define ys where "ys = sort_key snd (rev (iter (ss_map S)))"
  have m: "mset ys = mset (ss_map S)" using assms by (simp add: ys_def)
  have so: "sorted (map snd ys)" by (simp add: ys_def)
  have t: "top_k iter k S = take k (rev ys)" by (simp add: top_k_def ys_def)
  have l: "length ys = length (ss_map S)" using m by (metis size_mset)
  have sp: "mset (ss_map S) = mset (take k (rev ys)) + mset (drop k (rev ys))"
    using m by (metis append_take_drop_id mset_append mset_rev)
  have "snd x \<le> snd y" if "x \<in> set (drop k (rev ys))" "y \<in> set (take k (rev ys))" for x y
  proof -
    have "sorted (map snd (rev (drop k (rev ys))) @ map snd (rev (take k (rev ys))))"
      using so by (metis append_take_drop_id map_append rev_append rev_rev_ident)
    then show ?thesis using that by (auto simp: sorted_append)
  qed
  moreover have "sorted (rev (map snd (take k (rev ys))))"
    using so by (simp add: rev_map take_rev drop_map [symmetric] sorted_wrt_drop)
  ultimately show ?thesis using l sp by (simp add: t ss_size_def)
qed

theorem top_k_best_witness:
  "length (top_k rev 1 (ss_run id 2 [(7, 3), (8, 1)] :: nat space_saving_top_k)) = min 1 (ss_size (ss_run id 2 [(7, 3), (8 :: nat, 1)]))"
  using top_k_best [of rev "ss_run id 2 [(7, 3), (8, 1)] :: nat space_saving_top_k" 1] by (simp only: mset_rev)

end
