(* ===== verification/Count_Min_Sketch.thy ===== *)
theory Count_Min_Sketch
  imports Lru_Prelude
begin

text \<open>
  The frequency sketch of \<^verbatim>\<open>detail/count_min_sketch.hpp\<close>: sizing, recording with saturation and
  decay, estimation, saving and loading. Counters are 32-bit words; \<^verbatim>\<open>std::size_t\<close> sizes are natural
  numbers, the hash arithmetic is on 64-bit words.

  The hash of a key is a parameter, as are the results of the two floating-point
  computations: the number of counters the constructor asks for, and the scaling of \<^verbatim>\<open>decay\<close>.
  Each operation is one atomic step; the optimistic read of \<^verbatim>\<open>estimate\<close> is then the read under the lock.
\<close>

section \<open>The sketch\<close>

definition kMinWindowSize :: nat where "kMinWindowSize = 256"
definition kDefaultCapacity :: nat where "kDefaultCapacity = 1000"

record count_min_sketch =
  table :: "u32 list"
  hash_seeds :: "u64 list"
  width :: nat
  depth :: nat
  total_accesses :: nat
  max_window_size :: nat
  window_size :: nat
  decay_step :: nat
  saturated :: nat
  structure_version :: u64

text \<open>The loop of \<^verbatim>\<open>next_pow2\<close> shifts a 64-bit word; it need not end.\<close>

partial_function (option) next_pow2_loop :: "u64 \<Rightarrow> u64 \<Rightarrow> u64 option" where
  "next_pow2_loop v p = (if p < v then next_pow2_loop v (push_bit 1 p) else Some p)"

definition next_pow2 :: "u64 \<Rightarrow> u64 option" where
  "next_pow2 v = next_pow2_loop v 1"

definition seed_constants :: "u64 list" where
  "seed_constants = [0xc3a7c8e5, 0x5bd1e995, 0x1b873593, 0x27d4eb2f]"

definition init_hash_seeds :: "nat \<Rightarrow> u64 list" where
  "init_hash_seeds d = map (\<lambda>i. (seed_constants ! (i mod 4)) XOR (of_nat i * 0x9e3779b9)) [0..<d]"

definition recount_saturated :: "count_min_sketch \<Rightarrow> count_min_sketch" where
  "recount_saturated S = S\<lparr>saturated := length (filter (\<lambda>c. c = - 1) (table S))\<rparr>"

definition resize_table :: "nat \<Rightarrow> count_min_sketch \<Rightarrow> count_min_sketch" where
  "resize_table n S = S\<lparr>table := replicate n 0\<rparr>"

text \<open>
  The constructor. \<open>raw\<close> is the requested number of counters
  \<^verbatim>\<open>e * capacity * window_multiplier / error_threshold\<close> as the cast to \<^verbatim>\<open>size_t\<close> gives it, at least 1.
\<close>

definition cms_new :: "(nat \<Rightarrow> u64) \<Rightarrow> nat \<Rightarrow> nat \<Rightarrow> nat \<Rightarrow> count_min_sketch option" where
  "cms_new raw capacity window_multiplier hash_count =
     (let capacity = (if capacity = 0 then kDefaultCapacity else capacity);
          window = (capacity * window_multiplier) mod 2 ^ 64 in
      case next_pow2 (raw capacity) of
        None \<Rightarrow> None
      | Some counters \<Rightarrow>
          let d = max hash_count 1; w = max (unat counters div d) 4 in
          Some (recount_saturated
            \<lparr>table = replicate (d * w) 0, hash_seeds = init_hash_seeds d, width = w, depth = d, total_accesses = 0,
             max_window_size = window, window_size = window, decay_step = 0, saturated = 0, structure_version = 0\<rparr>))"

definition splitmix64 :: "u64 \<Rightarrow> u64" where
  "splitmix64 x =
     (let x = x + 0x9e3779b97f4a7c15;
          x = (x XOR drop_bit 30 x) * 0xbf58476d1ce4e5b9;
          x = (x XOR drop_bit 27 x) * 0x94d049bb133111eb
      in x XOR drop_bit 31 x)"

definition index_for :: "('k \<Rightarrow> u64) \<Rightarrow> count_min_sketch \<Rightarrow> 'k \<Rightarrow> nat \<Rightarrow> nat" where
  "index_for hash S key i =
     i * width S + unat (splitmix64 (hash key + hash_seeds S ! i + of_nat i)) mod width S"

definition bump :: "nat \<Rightarrow> count_min_sketch \<Rightarrow> count_min_sketch" where
  "bump idx S =
     (let old = table S ! idx;
          S = (if old < - 1 then S\<lparr>table := (table S)[idx := old + 1]\<rparr> else S)
      in if old = - 1 - 1 then S\<lparr>saturated := saturated S + 1\<rparr> else S)"

definition shrink_window :: "count_min_sketch \<Rightarrow> count_min_sketch" where
  "shrink_window S =
     (if window_size S > kMinWindowSize
      then S\<lparr>window_size := max (window_size S div 2) kMinWindowSize\<rparr> else S)"

definition halve_table :: "count_min_sketch \<Rightarrow> count_min_sketch" where
  "halve_table S = S\<lparr>table := map (drop_bit 1) (table S)\<rparr>"

definition step_decay_shared :: "count_min_sketch \<Rightarrow> count_min_sketch" where
  "step_decay_shared S = recount_saturated (shrink_window (halve_table S))"

definition cms_record :: "('k \<Rightarrow> u64) \<Rightarrow> 'k \<Rightarrow> count_min_sketch \<Rightarrow> count_min_sketch" where
  "cms_record hash key S =
     (let S = fold (\<lambda>i S. bump (index_for hash S key i) S) [0..<depth S] S;
          S = S\<lparr>total_accesses := total_accesses S + 1\<rparr>
      in if total_accesses S < window_size S then S
         else step_decay_shared (S\<lparr>total_accesses := 0\<rparr>))"

definition estimate :: "('k \<Rightarrow> u64) \<Rightarrow> 'k \<Rightarrow> count_min_sketch \<Rightarrow> u32" where
  "estimate hash key S =
     (if depth S = 0 then 0
      else fold (\<lambda>i m. min m (table S ! index_for hash S key i)) [0..<depth S] (- 1))"






definition serialized_state_words :: "count_min_sketch \<Rightarrow> nat" where
  "serialized_state_words S = 5 + length (table S)"

datatype cms_error = Dimensions_overflow | Malformed_dimensions | Truncated_input

definition save_state :: "count_min_sketch \<Rightarrow> cms_error + u32 list" where
  "save_state S =
     (if width S > 2 ^ 32 - 1 \<or> depth S > 2 ^ 32 - 1 \<or> serialized_state_words S > 2 ^ 32 - 1
      then Inl Dimensions_overflow
      else Inr ([of_nat (width S), of_nat (depth S), of_nat (total_accesses S), of_nat (decay_step S),
                 of_nat (saturated S)] @ table S))"

text \<open>
  Loading reads from an iterator that has no end; here the input is a list, and reading past it is an error
  of its own. The result is the number of words consumed, the rest of the input and the new state.
\<close>

definition load_state :: "u32 list \<Rightarrow> count_min_sketch \<Rightarrow> cms_error + nat \<times> u32 list \<times> count_min_sketch" where
  "load_state inp S =
     (case inp of
        w # d # t # s # sat # rest \<Rightarrow>
          if w = 0 \<or> d = 0 \<or> unat w > 1000000 \<or> unat d > 64 then Inl Malformed_dimensions
          else let n = unat d * unat w in
            if length rest < n then Inl Truncated_input
            else
              let S = S\<lparr>structure_version := structure_version S + 1, width := unat w, depth := unat d,
                        total_accesses := unat t, decay_step := unat s, saturated := unat sat\<rparr>;
                  S = (resize_table n S)\<lparr>table := take n rest, hash_seeds := init_hash_seeds (unat d)\<rparr>;
                  S = recount_saturated S
              in Inr (5 + depth S * width S, drop n rest, S\<lparr>structure_version := structure_version S + 1\<rparr>)
      | _ \<Rightarrow> Inl Truncated_input)"

section \<open>Sizing\<close>

lemma next_pow2_loop_result:
  assumes "next_pow2_loop v p = Some r" shows "\<not> r < v \<and> (\<exists>n. r = push_bit n p)"
proof (rule next_pow2_loop.raw_induct [where P = "\<lambda>v p r. \<not> r < v \<and> (\<exists>n. r = push_bit n p)", OF _ assms])
  fix loop :: "u64 \<Rightarrow> u64 \<Rightarrow> u64 option" and v p r
  assume ih: "\<And>v p r. loop v p = Some r \<Longrightarrow> \<not> r < v \<and> (\<exists>n. r = push_bit n p)"
    and e: "(if p < v then loop v (push_bit 1 p) else Some p) = Some r"
  show "\<not> r < v \<and> (\<exists>n. r = push_bit n p)"
  proof (cases "p < v")
    case True
    with e have "loop v (push_bit 1 p) = Some r" by (simp only: if_True)
    from ih [OF this] show ?thesis by (metis push_bit_push_bit)
  next
    case False
    with e have "r = p" by simp
    then show ?thesis using False by (auto intro: exI [of _ 0])
  qed
qed

lemma next_pow2_loop_reaches:
  assumes "k \<le> 63" "v \<le> 2 ^ k" "n \<le> k" "\<And>j. n \<le> j \<Longrightarrow> j < k \<Longrightarrow> 2 ^ j < v"
  shows "next_pow2_loop v (2 ^ n) = Some (2 ^ k)"
  using assms(3,4)
proof (induction "k - n" arbitrary: n)
  case 0
  then have "\<not> 2 ^ n < v" "k = n" using assms(2) by (simp_all add: not_less)
  then show ?case by (subst next_pow2_loop.simps) (simp only: if_False)
next
  case (Suc d)
  then have "n < k" "2 ^ n < v" by simp_all
  moreover have "push_bit 1 (2 ^ n :: u64) = 2 ^ Suc n" by (simp add: push_bit_eq_mult mult.commute)
  moreover have "next_pow2_loop v (2 ^ Suc n) = Some (2 ^ k)" using Suc by (intro Suc.hyps(1)) simp_all
  ultimately show ?case by (subst next_pow2_loop.simps) (simp del: power_Suc)
qed

text \<open>
  C30. Sizing. The loop that rounds the number of counters up to a power of two ends exactly for requests
  of at most \<open>2 ^ 63\<close>, and then with the smallest power of two that is not smaller; for a larger request
  the shifted word becomes 0 and the loop does not end.
\<close>

theorem next_pow2_smallest_or_diverges:
  "next_pow2 v = (if v \<le> 2 ^ 63 then Some (2 ^ (LEAST k. v \<le> 2 ^ k)) else None)"
proof (cases "v \<le> 2 ^ 63")
  case True
  define k where "k = (LEAST k. v \<le> (2 ^ k :: u64))"
  have a: "v \<le> 2 ^ k" using True unfolding k_def by (rule LeastI)
  have b: "k \<le> 63" using True unfolding k_def by (rule Least_le)
  have c: "(2 :: u64) ^ j < v" if "j < k" for j using not_less_Least [OF that [unfolded k_def]] by simp
  from next_pow2_loop_reaches [OF b a _ c, of 0] have "next_pow2_loop v 1 = Some (2 ^ k)" by simp
  then show ?thesis using True by (simp add: next_pow2_def k_def)
next
  case False
  have "r \<le> 2 ^ 63" if "r = push_bit n (1 :: u64)" for n r
  proof (cases "n \<le> 63")
    case True
    have "unat (2 ^ n :: u64) = 2 ^ n" by (rule unat_two_power) (use True in simp)
    moreover have "unat (2 ^ 63 :: u64) = 2 ^ 63" by (rule unat_two_power) simp
    moreover have "(2 :: nat) ^ n \<le> 2 ^ 63" using True by (intro power_increasing) simp_all
    ultimately have "unat (2 ^ n :: u64) \<le> unat (2 ^ 63 :: u64)" by simp
    then have "(2 ^ n :: u64) \<le> 2 ^ 63" by (simp only: word_le_nat_alt)
    then show ?thesis using that by (simp add: push_bit_eq_mult)
  next
    case False
    then have "r = 0" using that by (auto intro: bit_word_eqI simp: bit_push_bit_iff bit_1_iff)
    then show ?thesis by simp
  qed
  then have "next_pow2_loop v 1 \<noteq> Some r" for r
    using next_pow2_loop_result [of v 1 r] False by (meson not_less order_trans)
  then have "next_pow2_loop v 1 = None" by (cases "next_pow2_loop v 1") auto
  with False show ?thesis by (simp add: next_pow2_def)
qed

section \<open>Invariant\<close>

definition cms_ok :: "count_min_sketch \<Rightarrow> bool" where
  "cms_ok S \<longleftrightarrow>
     0 < width S \<and> 0 < depth S \<and> length (table S) = depth S * width S \<and>
     hash_seeds S = init_hash_seeds (depth S) \<and> saturated S = count_list (table S) (- 1)"

lemma filter_count_list: "length (filter (\<lambda>c. c = x) xs) = count_list xs x"
  by (induction xs) auto

lemma index_for_bound: "cms_ok S \<Longrightarrow> i < depth S \<Longrightarrow> index_for hash S key i < length (table S)"
proof -
  assume a: "cms_ok S" "i < depth S"
  let ?m = "unat (splitmix64 (hash key + hash_seeds S ! i + of_nat i)) mod width S"
  have "?m < width S" using a(1) by (simp add: cms_ok_def)
  then have "i * width S + ?m < Suc i * width S" by simp
  also have "\<dots> \<le> depth S * width S" using a(2) by (intro mult_right_mono) simp_all
  finally show ?thesis using a(1) by (simp add: index_for_def cms_ok_def)
qed

lemma index_for_row: "0 < width S \<Longrightarrow> index_for hash S key i div width S = i"
  by (simp add: index_for_def)

lemma index_for_cong:
  "width T = width S \<Longrightarrow> hash_seeds T = hash_seeds S \<Longrightarrow> index_for hash T = index_for hash S"
  by (simp add: index_for_def fun_eq_iff)

definition sat_inc :: "u32 \<Rightarrow> u32" where
  "sat_inc c = (if c < - 1 then c + 1 else c)"

lemma word_lt_max: "(c :: u32) < - 1 \<longleftrightarrow> c \<noteq> - 1"
  using word_order.extremum_strict [of c] by (auto simp: word_order.not_eq_extremum)

lemma unat_max: "unat (- 1 :: u32) = 2 ^ 32 - 1"
  by (simp add: unsigned_minus_1_eq_mask mask_eq_exp_minus_1)

lemma unat_sat_inc: "unat (sat_inc c) = min (unat c + 1) (2 ^ 32 - 1)"
proof (cases "c = - 1")
  case True
  then show ?thesis by (simp add: sat_inc_def unat_max)
next
  case False
  then have "c + 1 \<noteq> 0" by (metis add.inverse_unique add.commute)
  then have s: "unat (c + 1) = Suc (unat c)" using unatSuc [of c] by (simp add: add.commute)
  have "unat (c + 1) \<le> 2 ^ 32 - 1" using unsigned_less [where w = "c + 1" and ?'a = nat] by simp
  then show ?thesis using False s by (simp add: sat_inc_def word_lt_max)
qed

lemma count_list_update:
  "i < length xs \<Longrightarrow>
   count_list (xs[i := y]) x + (if xs ! i = x then 1 else 0) = count_list xs x + (if y = x then 1 else 0)"
proof (induction xs arbitrary: i)
  case (Cons z xs)
  show ?case using Cons.IH [of "i - 1"] Cons.prems by (cases i) auto
qed simp

lemma bump_fields [simp]:
  "width (bump i S) = width S" "depth (bump i S) = depth S" "hash_seeds (bump i S) = hash_seeds S"
  "total_accesses (bump i S) = total_accesses S" "window_size (bump i S) = window_size S"
  "max_window_size (bump i S) = max_window_size S"
  "table (bump i S) = (table S)[i := sat_inc (table S ! i)]"
  by (simp_all add: bump_def Let_def sat_inc_def)

lemma bump_ok:
  assumes "cms_ok S" "i < length (table S)" shows "cms_ok (bump i S)"
proof -
  have m: "sat_inc c = - 1 \<longleftrightarrow> c = - 1 \<or> c = - 1 - 1" for c :: u32
    by (auto simp: sat_inc_def word_lt_max eq_diff_eq eq_neg_iff_add_eq_0 add.commute)
  have "(- 1 :: u32) \<noteq> - 1 - 1" by simp
  then have "saturated (bump i S) = saturated S + (if table S ! i = - 1 - 1 then 1 else 0)"
    by (simp add: bump_def Let_def)
  moreover have "count_list ((table S)[i := sat_inc (table S ! i)]) (- 1) =
      count_list (table S) (- 1) + (if table S ! i = - 1 - 1 then 1 else 0)"
    using count_list_update [OF assms(2), of "sat_inc (table S ! i)" "- 1"] m [of "table S ! i"]
    by (auto split: if_splits)
  ultimately show ?thesis using assms by (simp add: cms_ok_def)
qed

lemma bump_rows:
  assumes "cms_ok S" "n \<le> depth S" "T = fold (\<lambda>i S. bump (index_for hash S key i) S) [0..<n] S"
  shows "cms_ok T \<and> width T = width S \<and> depth T = depth S \<and> hash_seeds T = hash_seeds S \<and>
    total_accesses T = total_accesses S \<and> window_size T = window_size S \<and> max_window_size T = max_window_size S \<and>
    (\<forall>j < length (table S). table T ! j =
       (if \<exists>i < n. index_for hash S key i = j then sat_inc (table S ! j) else table S ! j))"
  using assms(2,3)
proof (induction n arbitrary: T)
  case 0
  with assms(1) show ?case by simp
next
  case (Suc n)
  define U where "U = fold (\<lambda>i S. bump (index_for hash S key i) S) [0..<n] S"
  have n: "n < depth S" "T = bump (index_for hash U key n) U" using Suc.prems by (simp_all add: U_def)
  have u: "cms_ok U" "width U = width S" "depth U = depth S" "hash_seeds U = hash_seeds S"
    "total_accesses U = total_accesses S" "window_size U = window_size S" "max_window_size U = max_window_size S"
    "\<forall>j < length (table S). table U ! j =
       (if \<exists>i < n. index_for hash S key i = j then sat_inc (table S ! j) else table S ! j)"
    using Suc.IH [OF _ U_def] Suc.prems(1) by auto
  have i: "index_for hash U = index_for hash S" by (rule index_for_cong [OF u(2,4)])
  let ?j = "index_for hash S key n"
  have b: "?j < length (table U)" using index_for_bound [OF u(1), of n hash key] n(1) u(3) i by simp
  have l: "length (table U) = length (table S)" using u(1-3) assms(1) by (simp add: cms_ok_def)
  have "index_for hash S key i' \<noteq> ?j" if "i' < n" for i'
    using index_for_row [of S hash key] assms(1) that by (metis cms_ok_def less_irrefl)
  then have "table U ! ?j = table S ! ?j" using u(8) b l by auto
  then have "\<forall>j < length (table S). table T ! j =
      (if \<exists>i < Suc n. index_for hash S key i = j then sat_inc (table S ! j) else table S ! j)"
    using u(8) b l by (auto simp: n(2) i nth_list_update less_Suc_eq)
  then show ?case using u(1-7) bump_ok [OF u(1) b] by (simp add: n(2) i)
qed

lemma recount_ok:
  "0 < width S \<Longrightarrow> 0 < depth S \<Longrightarrow> length (table S) = depth S * width S \<Longrightarrow>
   hash_seeds S = init_hash_seeds (depth S) \<Longrightarrow> cms_ok (recount_saturated S)"
  by (simp add: cms_ok_def recount_saturated_def filter_count_list)

lemma cms_new_ok:
  assumes "cms_new raw c wm hc = Some S"
  shows "cms_ok S \<and> total_accesses S = 0 \<and> table S = replicate (depth S * width S) 0"
  using assms unfolding cms_new_def
  by (auto simp: Let_def cms_ok_def recount_saturated_def filter_count_list split: option.splits)

lemma cms_record_cases:
  assumes "cms_ok S"
  obtains T where "cms_ok T" "width T = width S" "depth T = depth S" "hash_seeds T = hash_seeds S"
    "total_accesses T = total_accesses S + 1" "window_size T = window_size S" "length (table T) = length (table S)"
    "\<forall>j < length (table S). table T ! j =
       (if \<exists>i < depth S. index_for hash S key i = j then sat_inc (table S ! j) else table S ! j)"
    "cms_record hash key S = (if total_accesses T < window_size T then T
       else step_decay_shared (T\<lparr>total_accesses := 0\<rparr>))"
proof -
  define U where "U = fold (\<lambda>i S. bump (index_for hash S key i) S) [0..<depth S] S"
  define T where "T = U\<lparr>total_accesses := total_accesses U + 1\<rparr>"
  note b = bump_rows [OF assms order_refl U_def]
  have "cms_ok T" using b by (simp add: T_def cms_ok_def)
  moreover have "length (table T) = length (table S)" using b assms by (simp add: T_def cms_ok_def)
  moreover have "cms_record hash key S = (if total_accesses T < window_size T then T
       else step_decay_shared (T\<lparr>total_accesses := 0\<rparr>))"
    by (simp add: cms_record_def Let_def T_def U_def)
  ultimately show ?thesis using that [of T] b by (simp add: T_def)
qed

lemma step_decay_shared_fields [simp]:
  "width (step_decay_shared S) = width S" "depth (step_decay_shared S) = depth S"
  "hash_seeds (step_decay_shared S) = hash_seeds S" "total_accesses (step_decay_shared S) = total_accesses S"
  "window_size (step_decay_shared S) =
     (if window_size S > kMinWindowSize then max (window_size S div 2) kMinWindowSize else window_size S)"
  "table (step_decay_shared S) = map (drop_bit 1) (table S)"
  by (simp_all add: step_decay_shared_def recount_saturated_def shrink_window_def halve_table_def)

lemma step_decay_shared_ok: "cms_ok S \<Longrightarrow> cms_ok (step_decay_shared S)"
  unfolding step_decay_shared_def
  by (rule recount_ok) (simp_all add: cms_ok_def shrink_window_def halve_table_def)

lemma cms_record_ok:
  assumes "cms_ok S"
  shows "cms_ok (cms_record hash key S)" "width (cms_record hash key S) = width S" "depth (cms_record hash key S) = depth S"
    "hash_seeds (cms_record hash key S) = hash_seeds S"
proof -
  obtain T where t: "cms_ok T" "width T = width S" "depth T = depth S" "hash_seeds T = hash_seeds S"
    "cms_record hash key S = (if total_accesses T < window_size T then T
       else step_decay_shared (T\<lparr>total_accesses := 0\<rparr>))" by (rule cms_record_cases [OF assms])
  have "cms_ok (T\<lparr>total_accesses := 0\<rparr>)" using t(1) by (simp add: cms_ok_def)
  then show "cms_ok (cms_record hash key S)" using t step_decay_shared_ok by simp
  show "width (cms_record hash key S) = width S" "depth (cms_record hash key S) = depth S"
    "hash_seeds (cms_record hash key S) = hash_seeds S" using t by simp_all
qed

section \<open>Estimates\<close>

text \<open>
  The reference: one exact counter per key, saturating and ageing as the sketch does.
\<close>

type_synonym 'k exact = "nat \<times> nat \<times> ('k \<Rightarrow> nat)"

fun exact_record :: "'k \<Rightarrow> 'k exact \<Rightarrow> 'k exact" where
  "exact_record key (t, w, f) =
     (let f = f(key := min (f key + 1) (2 ^ 32 - 1)) in
      if t + 1 < w then (t + 1, w, f)
      else (0, if w > kMinWindowSize then max (w div 2) kMinWindowSize else w, \<lambda>k. f k div 2))"

definition covers :: "('k \<Rightarrow> u64) \<Rightarrow> count_min_sketch \<Rightarrow> 'k exact \<Rightarrow> bool" where
  "covers hash S e \<longleftrightarrow>
     fst e = total_accesses S \<and> fst (snd e) = window_size S \<and>
     (\<forall>k. \<forall>i < depth S. snd (snd e) k \<le> unat (table S ! index_for hash S k i))"

definition exact_at :: "('k \<Rightarrow> u64) \<Rightarrow> 'k \<Rightarrow> nat \<Rightarrow> count_min_sketch \<Rightarrow> 'k exact \<Rightarrow> bool" where
  "exact_at hash k i S e \<longleftrightarrow>
     i < depth S \<and> snd (snd e) k = unat (table S ! index_for hash S k i) \<and>
     fst e = total_accesses S \<and> fst (snd e) = window_size S"

lemma unat_halve: "unat (drop_bit 1 (c :: u32)) = unat c div 2"
  by (simp add: drop_bit_eq_div unat_div)

lemma covers_record:
  assumes ok: "cms_ok S" and c: "covers hash S e"
  shows "covers hash (cms_record hash key S) (exact_record key e)"
proof -
  obtain t w f where e: "e = (t, w, f)" by (metis prod_cases3)
  obtain T where t: "cms_ok T" "width T = width S" "depth T = depth S" "hash_seeds T = hash_seeds S"
    "total_accesses T = total_accesses S + 1" "window_size T = window_size S" "length (table T) = length (table S)"
    "\<forall>j < length (table S). table T ! j =
       (if \<exists>i < depth S. index_for hash S key i = j then sat_inc (table S ! j) else table S ! j)"
    "cms_record hash key S = (if total_accesses T < window_size T then T
       else step_decay_shared (T\<lparr>total_accesses := 0\<rparr>))" by (rule cms_record_cases [OF ok])
  let ?f = "f(key := min (f key + 1) (2 ^ 32 - 1))"
  have i: "index_for hash T = index_for hash S" by (rule index_for_cong [OF t(2,4)])
  have le: "?f k \<le> unat (table T ! index_for hash S k j)" if "j < depth S" for k j
  proof -
    have o: "f k \<le> unat (table S ! index_for hash S k j)" using c that by (simp add: covers_def e)
    have b: "index_for hash S k j < length (table S)" by (rule index_for_bound [OF ok that])
    show ?thesis
    proof (cases "k = key")
      case True
      then have "table T ! index_for hash S k j = sat_inc (table S ! index_for hash S k j)" using t(8) b that by auto
      with o True show ?thesis by (simp add: unat_sat_inc)
    next
      case False
      have "unat (table S ! index_for hash S k j) < 2 ^ 32" using unsigned_less [where ?'a = nat and w = "table S ! index_for hash S k j"] by simp
      then have "unat (table S ! index_for hash S k j) \<le> unat (table T ! index_for hash S k j)"
        using t(8) b by (auto simp: unat_sat_inc)
      with o False show ?thesis by simp
    qed
  qed
  have h: "?f k div 2 \<le> unat (map (drop_bit 1) (table T) ! index_for hash S k j)" if "j < depth S" for k j
    using le [OF that, of k] index_for_bound [OF ok that, of hash k] t(7)
    by (simp only: nth_map unat_halve div_le_mono)
  have j: "index_for hash (step_decay_shared (T\<lparr>total_accesses := 0\<rparr>)) = index_for hash S"
    by (rule index_for_cong) (simp_all add: t)
  show ?thesis using c le h t(3,5,6)
    by (simp add: t(9) covers_def e Let_def i j del: fun_upd_apply)
qed

lemma exact_at_record:
  assumes ok: "cms_ok S" and x: "exact_at hash k i S e"
    and n: "key \<noteq> k \<Longrightarrow> index_for hash S key i \<noteq> index_for hash S k i"
  shows "exact_at hash k i (cms_record hash key S) (exact_record key e)"
proof -
  obtain t w f where e: "e = (t, w, f)" by (metis prod_cases3)
  obtain T where t: "cms_ok T" "width T = width S" "depth T = depth S" "hash_seeds T = hash_seeds S"
    "total_accesses T = total_accesses S + 1" "window_size T = window_size S" "length (table T) = length (table S)"
    "\<forall>j < length (table S). table T ! j =
       (if \<exists>i < depth S. index_for hash S key i = j then sat_inc (table S ! j) else table S ! j)"
    "cms_record hash key S = (if total_accesses T < window_size T then T
       else step_decay_shared (T\<lparr>total_accesses := 0\<rparr>))" by (rule cms_record_cases [OF ok])
  let ?f = "f(key := min (f key + 1) (2 ^ 32 - 1))" and ?j = "index_for hash S k i"
  have d: "i < depth S" and o: "f k = unat (table S ! ?j)" using x by (simp_all add: exact_at_def e)
  have b: "?j < length (table S)" by (rule index_for_bound [OF ok d])
  have w: "0 < width S" using ok by (simp add: cms_ok_def)
  have "(\<exists>i' < depth S. index_for hash S key i' = ?j) \<longleftrightarrow> key = k"
    using n d index_for_row [OF w, of hash] by metis
  then have "table T ! ?j = (if key = k then sat_inc (table S ! ?j) else table S ! ?j)"
    using t(8) [rule_format, OF b] by (simp only:)
  then have g: "?f k = unat (table T ! ?j)" using o by (cases "key = k") (simp_all add: unat_sat_inc)
  then have h: "?f k div 2 = unat (map (drop_bit 1) (table T) ! ?j)" using b t(7) by (simp only: nth_map unat_halve)
  have i: "index_for hash T = index_for hash S" by (rule index_for_cong [OF t(2,4)])
  have j: "index_for hash (step_decay_shared (T\<lparr>total_accesses := 0\<rparr>)) = index_for hash S"
    by (rule index_for_cong) (simp_all add: t)
  show ?thesis using x g h t(3,5,6)
    by (simp add: t(9) exact_at_def e Let_def i j del: fun_upd_apply)
qed

lemma fold_min_le: "i \<in> set xs \<Longrightarrow> fold (\<lambda>i m. min m (g i)) xs z \<le> (g i :: u32)"
proof (induction xs arbitrary: z)
  case (Cons x xs)
  have "fold (\<lambda>i m. min m (g i)) ys y \<le> y" for ys y
  proof (induction ys arbitrary: y)
    case (Cons a ys)
    from Cons [of "min y (g a)"] show ?case by simp
  qed simp
  from this [of xs "min z (g x)"] Cons show ?case by auto
qed simp

lemma fold_min_ge: "(\<And>i. i \<in> set xs \<Longrightarrow> y \<le> (g i :: u32)) \<Longrightarrow> y \<le> z \<Longrightarrow> y \<le> fold (\<lambda>i m. min m (g i)) xs z"
  by (induction xs arbitrary: z) auto

lemma estimate_le: "i < depth S \<Longrightarrow> estimate hash key S \<le> table S ! index_for hash S key i"
  using fold_min_le [of i "[0..<depth S]" "\<lambda>i. table S ! index_for hash S key i" "- 1"] by (simp add: estimate_def)

lemma estimate_ge:
  assumes "0 < depth S" "\<And>i. i < depth S \<Longrightarrow> n \<le> unat (table S ! index_for hash S key i)"
  shows "n \<le> unat (estimate hash key S)"
proof -
  have "estimate hash key S \<in> insert (- 1) ((\<lambda>i. table S ! index_for hash S key i) ` set [0..<d])" if "d = depth S" for d
  proof -
    have "fold (\<lambda>i m. min m (g i)) xs z \<in> insert z (g ` set xs)" for g :: "nat \<Rightarrow> u32" and xs z
      by (induction xs arbitrary: z) (auto simp: min_def)
    then show ?thesis using assms(1) that by (simp add: estimate_def del: set_upt)
  qed
  moreover have "n \<le> unat (- 1 :: u32)"
    using assms(2) [OF assms(1)] unsigned_less [where ?'a = nat and w = "table S ! index_for hash S key 0"]
    by (simp add: unat_max)
  ultimately show ?thesis using assms(2) by auto
qed

definition exact_counts :: "count_min_sketch \<Rightarrow> 'k list \<Rightarrow> 'k \<Rightarrow> nat" where
  "exact_counts S xs = snd (snd (fold exact_record xs (0, window_size S, \<lambda>_. 0)))"

lemma estimates_run:
  assumes "cms_ok S" "covers hash S e"
  shows "cms_ok (fold (cms_record hash) xs S) \<and> covers hash (fold (cms_record hash) xs S) (fold exact_record xs e) \<and>
    depth (fold (cms_record hash) xs S) = depth S \<and> index_for hash (fold (cms_record hash) xs S) = index_for hash S"
  using assms
proof (induction xs arbitrary: S e)
  case (Cons x xs)
  have "index_for hash (cms_record hash x S) = index_for hash S"
    by (rule index_for_cong) (simp_all add: cms_record_ok [OF Cons.prems(1)])
  then show ?case
    using Cons.IH [OF cms_record_ok(1) [OF Cons.prems(1)] covers_record [OF Cons.prems]] cms_record_ok(3) [OF Cons.prems(1)]
    by simp
qed simp

lemma exact_at_run:
  assumes "cms_ok S" "exact_at hash k i S e" "\<And>x. x \<in> set xs \<Longrightarrow> x \<noteq> k \<Longrightarrow> index_for hash S x i \<noteq> index_for hash S k i"
  shows "exact_at hash k i (fold (cms_record hash) xs S) (fold exact_record xs e)"
  using assms
proof (induction xs arbitrary: S e)
  case (Cons x xs)
  have "index_for hash (cms_record hash x S) = index_for hash S"
    by (rule index_for_cong) (simp_all add: cms_record_ok [OF Cons.prems(1)])
  then show ?case
    using Cons.IH [OF cms_record_ok(1) [OF Cons.prems(1)] exact_at_record [OF Cons.prems(1,2)]] Cons.prems(3) by simp
qed simp

text \<open>
  C13. Estimates. Against one exact counter per key that saturates and ages as the sketch does: the estimate of a new
  sketch after any sequence of accesses, decays included, is never below the exact count of the key, and equals it
  if in some row no other key of the sequence shares its cell.
\<close>

theorem estimate_never_below_exact:
  assumes "cms_new raw c wm hc = Some S"
  shows "exact_counts S xs k \<le> unat (estimate hash k (fold (cms_record hash) xs S)) \<and>
    (i < depth S \<and> (\<forall>x \<in> set xs. x \<noteq> k \<longrightarrow> index_for hash S x i \<noteq> index_for hash S k i) \<longrightarrow>
      unat (estimate hash k (fold (cms_record hash) xs S)) = exact_counts S xs k)"
proof -
  note n = cms_new_ok [OF assms]
  let ?T = "fold (cms_record hash) xs S" and ?e = "(0, window_size S, \<lambda>_. 0)"
  have z: "table S ! index_for hash S k i = 0" if "i < depth S" for k i
    using n index_for_bound [of S i hash k] that by simp
  then have "covers hash S ?e" using n by (simp add: covers_def)
  note r = estimates_run [OF conjunct1 [OF n] this, of xs]
  then have le: "exact_counts S xs k \<le> unat (estimate hash k ?T)"
    using n by (intro estimate_ge) (auto simp: covers_def exact_counts_def cms_ok_def)
  have "unat (estimate hash k ?T) = exact_counts S xs k"
    if "i < depth S" "\<forall>x \<in> set xs. x \<noteq> k \<longrightarrow> index_for hash S x i \<noteq> index_for hash S k i"
  proof -
    have "exact_at hash k i S ?e" using z that(1) n by (simp add: exact_at_def)
    from exact_at_run [OF conjunct1 [OF n] this] that(2)
    have "exact_counts S xs k = unat (table ?T ! index_for hash ?T k i)" by (simp add: exact_at_def exact_counts_def)
    moreover have "estimate hash k ?T \<le> table ?T ! index_for hash ?T k i" using r that(1) by (intro estimate_le) simp
    ultimately show ?thesis using le by (simp add: word_le_nat_alt)
  qed
  with le show ?thesis by blast
qed

lemma next_pow2_between:
  assumes "k \<le> 63" "v \<le> 2 ^ k" "2 ^ (k - 1) < v" shows "next_pow2 v = Some (2 ^ k)"
proof -
  have "(2 :: u64) ^ j < v" if "j < k" for j
  proof -
    have "unat (2 ^ j :: u64) = 2 ^ j" by (rule unat_two_power) (use that assms(1) in simp)
    moreover have "unat (2 ^ (k - 1) :: u64) = 2 ^ (k - 1)" by (rule unat_two_power) (use assms(1) in simp)
    moreover have "(2 :: nat) ^ j \<le> 2 ^ (k - 1)" using that by (intro power_increasing) simp_all
    ultimately have "unat (2 ^ j :: u64) \<le> unat (2 ^ (k - 1) :: u64)" by (simp only:)
    then have "(2 ^ j :: u64) \<le> 2 ^ (k - 1)" by (simp only: word_le_nat_alt)
    with assms(3) show ?thesis by simp
  qed
  from next_pow2_loop_reaches [OF assms(1,2) _ this, of 0] show ?thesis by (simp add: next_pow2_def)
qed

lemma cms_new_dims:
  "next_pow2 (raw c) = Some n \<Longrightarrow> 0 < c \<Longrightarrow>
   \<exists>S. cms_new raw c wm hc = Some S \<and> width S = max (unat n div max hc 1) 4 \<and> depth S = max hc 1"
  by (simp add: cms_new_def Let_def recount_saturated_def)

lemma small_sketch: "\<exists>S. cms_new (\<lambda>_. 60) 10 3 2 = Some S \<and> width S = 32 \<and> depth S = 2"
proof -
  have "next_pow2 60 = Some (2 ^ 6)" by (rule next_pow2_between) simp_all
  from cms_new_dims [OF this, of 10 3 2] show ?thesis by (simp del: One_nat_def add: numeral_2_eq_2 [symmetric])
qed

theorem estimate_never_below_exact_witness:
  "\<exists>S. cms_new (\<lambda>_. 60) 10 3 2 = Some S \<and>
     exact_counts S [5, 6, 5 :: nat] 5 \<le> unat (estimate of_nat 5 (fold (cms_record of_nat) [5, 6, 5 :: nat] S))"
proof -
  obtain S where "cms_new (\<lambda>_. 60) 10 3 2 = Some S" using small_sketch by blast
  with estimate_never_below_exact [OF this, of "[5, 6, 5 :: nat]" 5 of_nat] show ?thesis by blast
qed

section \<open>Every operation\<close>










section \<open>Saving and loading\<close>

lemma save_state_words:
  assumes "cms_ok S" "serialized_state_words S \<le> 2 ^ 32 - 1"
  shows "save_state S = Inr ([of_nat (width S), of_nat (depth S), of_nat (total_accesses S), of_nat (decay_step S),
    of_nat (saturated S)] @ table S)" "unat (of_nat (width S) :: u32) = width S" "unat (of_nat (depth S) :: u32) = depth S"
proof -
  have "depth S * width S \<le> 2 ^ 32 - 6" using assms by (simp add: serialized_state_words_def cms_ok_def)
  moreover have "width S \<le> depth S * width S" "depth S \<le> depth S * width S" using assms(1) by (simp_all add: cms_ok_def)
  ultimately have b: "width S \<le> 2 ^ 32 - 6" "depth S \<le> 2 ^ 32 - 6" by (blast intro: order_trans)+
  then show "unat (of_nat (width S) :: u32) = width S" "unat (of_nat (depth S) :: u32) = depth S"
    by (simp_all add: unat_of_nat)
  show "save_state S = Inr ([of_nat (width S), of_nat (depth S), of_nat (total_accesses S), of_nat (decay_step S),
    of_nat (saturated S)] @ table S)" using assms(2) b by (simp add: save_state_def)
qed

text \<open>
  C29. Round trip. A sketch of at most 1,000,000 columns and 64 rows is saved to the announced number of words;
  loading them, with anything behind, into any other sketch consumes exactly these words and gives the
  same estimate for every key. The access counter is kept modulo \<open>2 ^ 32\<close>; the decay window is that of the
  sketch loaded into.
\<close>

theorem save_load_roundtrip:
  assumes "cms_ok S" "width S \<le> 1000000" "depth S \<le> 64"
  shows "\<exists>ws T. save_state S = Inr ws \<and> length ws = serialized_state_words S \<and>
    load_state (ws @ rest) S' = Inr (length ws, rest, T) \<and>
    (\<forall>k. estimate hash k T = estimate hash k S) \<and> table T = table S \<and> saturated T = saturated S \<and>
    total_accesses T = total_accesses S mod 2 ^ 32 \<and> window_size T = window_size S'"
proof -
  have "depth S * width S \<le> 64 * 1000000" using assms(3,2) by (intro mult_le_mono)
  then have "serialized_state_words S \<le> 2 ^ 32 - 1" using assms(1) by (simp add: serialized_state_words_def cms_ok_def)
  note s = save_state_words [OF assms(1) this]
  have z: "0 < width S" "0 < depth S" "length (table S) = depth S * width S" "hash_seeds S = init_hash_seeds (depth S)"
    "saturated S = count_list (table S) (- 1)" using assms(1) by (simp_all add: cms_ok_def)
  have nz: "of_nat (width S) \<noteq> (0 :: u32)" "of_nat (depth S) \<noteq> (0 :: u32)"
    using s(2,3) z(1,2) by (metis less_irrefl unsigned_0)+
  define T where "T = S'\<lparr>structure_version := structure_version S' + 1 + 1, width := width S, depth := depth S,
    total_accesses := total_accesses S mod 2 ^ 32, decay_step := decay_step S mod 2 ^ 32, saturated := saturated S,
    table := table S, hash_seeds := hash_seeds S\<rparr>"
  have l: "load_state (([of_nat (width S), of_nat (depth S), of_nat (total_accesses S), of_nat (decay_step S),
      of_nat (saturated S)] @ table S) @ rest) S' = Inr (5 + depth S * width S, rest, T)"
    using s(2,3) nz assms(2,3) z
    by (simp add: load_state_def Let_def resize_table_def recount_saturated_def filter_count_list T_def unat_of_nat)
  have "estimate hash k T = estimate hash k S" for k
    by (simp add: T_def estimate_def index_for_def)
  then show ?thesis using s(1) l z(3) by (simp add: serialized_state_words_def T_def)
qed

theorem save_load_roundtrip_witness:
  "\<exists>S ws T. cms_new (\<lambda>_. 60) 10 3 2 = Some S \<and> save_state S = Inr ws \<and> load_state (ws @ [7]) S = Inr (length ws, [7], T)"
proof -
  obtain S where s: "cms_new (\<lambda>_. 60) 10 3 2 = Some S" "width S = 32" "depth S = 2" using small_sketch by blast
  with save_load_roundtrip [of S "[7]" S of_nat] cms_new_ok [OF s(1)] show ?thesis by auto
qed

text \<open>
  A larger sketch is saved and can not be loaded: with more than 1,000,000 columns saving
  succeeds, and loading what was saved reports malformed dimensions. The default configuration gives such a sketch
  for 200,000 items.
\<close>

theorem large_sketch_saves_but_does_not_load:
  assumes "cms_ok S" "1000000 < width S" "serialized_state_words S \<le> 2 ^ 32 - 1"
  shows "\<exists>ws. save_state S = Inr ws \<and> load_state (ws @ rest) S' = Inl Malformed_dimensions"
  using save_state_words [OF assms(1,3)] assms(2) by (simp add: load_state_def)

theorem large_sketch_saves_but_does_not_load_witness:
  "\<exists>S ws. cms_new (\<lambda>capacity. 3479414) 200000 32 4 = Some S \<and> save_state S = Inr ws \<and>
     load_state (ws @ []) S = Inl Malformed_dimensions"
proof -
  have "next_pow2 3479414 = Some (2 ^ 22)" by (rule next_pow2_between) simp_all
  from cms_new_dims [OF this, of 200000 32 4] obtain S
    where s: "cms_new (\<lambda>_. 3479414) 200000 32 4 = Some S" "width S = 1048576" "depth S = 4" by auto
  have ok: "cms_ok S" using cms_new_ok [OF s(1)] by blast
  then have "length (table S) = 4194304" using s(2,3) unfolding cms_ok_def by simp
  then have "serialized_state_words S \<le> 2 ^ 32 - 1" unfolding serialized_state_words_def by simp
  from large_sketch_saves_but_does_not_load [OF ok _ this, of "[]" S] s(1,2) show ?thesis by auto
qed

end
