(* ===== verification/Latency_Histogram.thy ===== *)
theory Latency_Histogram
  imports Lru_Prelude
begin

text \<open>
  The log-linear histogram of \<^verbatim>\<open>detail/latency_histogram.hpp\<close>: bucket arithmetic, recording with
  sampling, percentiles, merging. A \<^verbatim>\<open>uint64_t\<close> is a natural number below \<open>2 ^ 64\<close>, the
  wrap-around of additions and products is written out. The product of the number of samples and
  the requested fraction is floating point; its result is an argument of \<open>percentile\<close>.
\<close>

section \<open>Buckets\<close>

definition bucket_count :: nat where "bucket_count = 512"
definition kSentinel :: nat where "kSentinel = 2 ^ 64 - 1"

fun clz_loop :: "nat \<Rightarrow> nat \<Rightarrow> nat \<Rightarrow> nat" where
  "clz_loop x 0 n = 64"
| "clz_loop x (Suc b) n = (if bit x b then n else clz_loop x b (n + 1))"

definition countl_zero64 :: "nat \<Rightarrow> nat" where
  "countl_zero64 x = (if x = 0 then 64 else clz_loop x 64 0)"

definition bucket_index :: "nat \<Rightarrow> nat" where
  "bucket_index l =
     (if l = 0 then 0
      else if l < 16 then l
      else let k = 63 - countl_zero64 l;
               sub = drop_bit (k - 4) l AND 15;
               idx = (k - 3) * 16 + sub
           in if idx \<ge> bucket_count then bucket_count - 1 else idx)"



section \<open>The histogram\<close>

record latency_histogram =
  buckets :: "nat list"
  lh_min :: nat
  lh_max :: nat
  lh_sum :: nat
  sample_rate :: nat

definition lh_new :: latency_histogram where
  "lh_new = \<lparr>buckets = replicate bucket_count 0, lh_min = kSentinel, lh_max = kSentinel, lh_sum = 0, sample_rate = 1\<rparr>"

definition wrap_add :: "nat \<Rightarrow> nat \<Rightarrow> nat" where
  "wrap_add a b = (a + b) mod 2 ^ 64"

text \<open>
  Recording; \<open>c\<close> is the calling thread's counter for the slot of this histogram, returned
  incremented when sampling is on.
\<close>

definition lh_record :: "nat \<Rightarrow> nat \<Rightarrow> latency_histogram \<Rightarrow> nat \<times> latency_histogram" where
  "lh_record c l H =
     (let c = (if sample_rate H > 1 then wrap_add c 1 else c) in
      if sample_rate H > 1 \<and> c mod sample_rate H \<noteq> 0 then (c, H)
      else
        let idx = bucket_index l;
            H = H\<lparr>buckets := (buckets H)[idx := wrap_add (buckets H ! idx) 1]\<rparr>;
            H = H\<lparr>lh_sum := wrap_add (lh_sum H) l\<rparr>;
            H = (if l < lh_min H then H\<lparr>lh_min := l\<rparr> else H)
        in (c, if lh_max H = kSentinel \<or> l > lh_max H then H\<lparr>lh_max := l\<rparr> else H))"

definition set_latency_sample_rate :: "nat \<Rightarrow> latency_histogram \<Rightarrow> latency_histogram" where
  "set_latency_sample_rate rate H = H\<lparr>sample_rate := (if rate = 0 then 1 else rate)\<rparr>"


definition minimum :: "latency_histogram \<Rightarrow> nat" where
  "minimum H = (if lh_min H = kSentinel then 0 else lh_min H)"

definition maximum :: "latency_histogram \<Rightarrow> nat" where
  "maximum H = (if lh_max H = kSentinel then 0 else lh_max H)"



definition lh_reset :: "latency_histogram \<Rightarrow> latency_histogram" where
  "lh_reset H = H\<lparr>buckets := replicate bucket_count 0, lh_min := kSentinel, lh_max := kSentinel, lh_sum := 0\<rparr>"

definition release_memory :: "latency_histogram \<Rightarrow> latency_histogram" where
  "release_memory H = lh_reset H"

definition lh_copy :: "latency_histogram \<Rightarrow> latency_histogram \<Rightarrow> latency_histogram" where
  "lh_copy other H =
     H\<lparr>buckets := buckets other, lh_min := lh_min other, lh_max := lh_max other, lh_sum := lh_sum other\<rparr>"

definition bucket :: "nat \<Rightarrow> latency_histogram \<Rightarrow> nat" where
  "bucket idx H = (if idx \<ge> bucket_count then 0 else buckets H ! idx)"

definition merge_from :: "latency_histogram \<Rightarrow> latency_histogram \<Rightarrow> latency_histogram" where
  "merge_from other H =
     (let H = H\<lparr>buckets := map2 (\<lambda>b d. if d \<noteq> 0 then wrap_add b d else b) (buckets H) (buckets other)\<rparr>;
          H = (if lh_sum other \<noteq> 0 then H\<lparr>lh_sum := wrap_add (lh_sum H) (lh_sum other)\<rparr> else H);
          H = (if lh_min other \<noteq> kSentinel \<and> (lh_min H = kSentinel \<or> lh_min other < lh_min H)
               then H\<lparr>lh_min := lh_min other\<rparr> else H)
      in if lh_max other \<noteq> kSentinel \<and> (lh_max H = kSentinel \<or> lh_max other > lh_max H)
         then H\<lparr>lh_max := lh_max other\<rparr> else H)"

section \<open>Bucket arithmetic\<close>

lemma clz_loop_highest:
  assumes "b \<le> 64" "0 < x" "x < 2 ^ b" "n = 64 - b"
  shows "\<exists>k. clz_loop x b n = 63 - k \<and> k < b \<and> 2 ^ k \<le> x \<and> x < 2 ^ Suc k"
  using assms
proof (induction b arbitrary: n)
  case (Suc b)
  show ?case
  proof (cases "bit x b")
    case True
    then have "odd (x div 2 ^ b)" by (simp add: bit_iff_odd)
    then have "2 ^ b \<le> x" by (metis div_eq_0_iff even_zero linorder_not_less)
    with True Suc.prems show ?thesis by (intro exI [of _ b]) auto
  next
    case False
    then have "even (x div 2 ^ b)" by (simp add: bit_iff_odd)
    moreover have "x div 2 ^ b < 2" using Suc.prems(3) by (simp add: less_mult_imp_div_less)
    ultimately have "x div 2 ^ b = 0" by (cases "x div 2 ^ b") auto
    then have "x < 2 ^ b" by (simp add: div_eq_0_iff)
    moreover have "n + 1 = 64 - b" using Suc.prems(1,4) by simp
    ultimately obtain k where "clz_loop x b (n + 1) = 63 - k" "k < b" "2 ^ k \<le> x" "x < 2 ^ Suc k"
      using Suc.IH [of "n + 1"] Suc.prems(1,2) by auto
    with False show ?thesis by (intro exI [of _ k]) auto
  qed
qed simp

lemma floor_log:
  assumes "0 < x" "x < 2 ^ 64"
  shows "2 ^ (63 - countl_zero64 x) \<le> x \<and> x < 2 ^ Suc (63 - countl_zero64 x) \<and> 63 - countl_zero64 x \<le> 63"
  using clz_loop_highest [of 64 x 0] assms by (auto simp: countl_zero64_def)

lemma bucket_index_octave:
  assumes "16 \<le> l" "l < 2 ^ 64"
  obtains k sub where "4 \<le> k" "sub < 16" "2 ^ (k - 4) * (16 + sub) \<le> l" "l < 2 ^ (k - 4) * (17 + sub)"
    "bucket_index l = min ((k - 3) * 16 + sub) 511"
proof -
  define k where "k = 63 - countl_zero64 l"
  have f: "2 ^ k \<le> l" "l < 2 ^ Suc k" using floor_log [of l] assms by (simp_all add: k_def)
  have k: "4 \<le> k"
  proof (rule ccontr)
    assume "\<not> 4 \<le> k"
    then have "(2 :: nat) ^ Suc k \<le> 2 ^ 4" by (intro power_increasing) simp_all
    with f(2) assms(1) show False by simp
  qed
  then have p: "(2 :: nat) ^ k = 16 * 2 ^ (k - 4)"
    using power_add [of "2 :: nat" 4 "k - 4"] by simp
  define q where "q = l div 2 ^ (k - 4)"
  have q: "16 \<le> q" "q < 32" using f p by (simp_all add: q_def less_eq_div_iff_mult_less_eq less_mult_imp_div_less)
  define sub where "sub = q - 16"
  have "q AND 15 = take_bit 4 q" by (simp add: take_bit_eq_mask mask_eq_exp_minus_1)
  also have "\<dots> = sub" using q by (simp add: take_bit_eq_mod sub_def mod_if)
  finally have s: "drop_bit (k - 4) l AND 15 = sub" by (simp add: drop_bit_eq_div q_def)
  have "bucket_index l = min ((k - 3) * 16 + sub) 511"
    using assms(1) s by (simp add: bucket_index_def Let_def k_def [symmetric] bucket_count_def min_def)
  moreover have "2 ^ (k - 4) * (16 + sub) \<le> l" "l < 2 ^ (k - 4) * (17 + sub)"
  proof -
    have "2 ^ (k - 4) * q \<le> l" by (simp add: q_def)
    moreover have "l < 2 ^ (k - 4) * Suc q" 
      using dividend_less_times_div [of "2 ^ (k - 4)" l] by (simp add: q_def)
    ultimately show "2 ^ (k - 4) * (16 + sub) \<le> l" "l < 2 ^ (k - 4) * (17 + sub)" using q(1) by (simp_all add: sub_def)
  qed
  moreover have "sub < 16" using q by (simp add: sub_def)
  ultimately show ?thesis using that k by blast
qed






section \<open>Recording\<close>

lemma bucket_index_less: "l < 2 ^ 64 \<Longrightarrow> bucket_index l < 512"
proof (cases "l < 16")
  case False
  assume "l < 2 ^ 64"
  with False show ?thesis using bucket_index_octave [of l] by (metis linorder_not_less min_less_iff_disj numeral_less_iff semiring_norm(76) semiring_norm(78) semiring_norm(81))
qed (simp add: bucket_index_def)

text \<open>The state of a histogram that has recorded the samples \<open>xs\<close>, without sampling.\<close>

definition recorded :: "nat list \<Rightarrow> latency_histogram" where
  "recorded xs = fold (\<lambda>l H. snd (lh_record 0 l H)) xs lh_new"

definition samples_in :: "nat \<Rightarrow> nat list \<Rightarrow> nat" where
  "samples_in i xs = length (filter (\<lambda>x. bucket_index x = i) xs)"

definition low :: "nat list \<Rightarrow> nat" where
  "low xs = (if xs = [] then kSentinel else Min (set xs))"

definition high :: "nat list \<Rightarrow> nat" where
  "high xs = (if xs = [] then kSentinel else Max (set xs))"

lemma low_Nil: "low [] = kSentinel" and high_Nil: "high [] = kSentinel"
  by (simp_all add: low_def high_def)

lemma low_single [simp]: "low [x] = x" and high_single [simp]: "high [x] = x"
  by (simp_all add: low_def high_def)

lemma low_snoc: "low (xs @ [x]) = (if xs = [] then x else min x (low xs))"
  by (simp add: low_def)

lemma high_snoc: "high (xs @ [x]) = (if xs = [] then x else max x (high xs))"
  by (simp add: high_def)

lemma high_less: "\<forall>x \<in> set xs. x < kSentinel \<Longrightarrow> xs \<noteq> [] \<Longrightarrow> high xs < kSentinel"
  by (simp add: high_def)

lemma low_less: "\<forall>x \<in> set xs. x < kSentinel \<Longrightarrow> xs \<noteq> [] \<Longrightarrow> low xs < kSentinel"
  using Min_in [of "set xs"] by (simp add: low_def)

lemma lh_record_unsampled:
  "sample_rate H = 1 \<Longrightarrow> snd (lh_record c l H) =
    H\<lparr>buckets := (buckets H)[bucket_index l := wrap_add (buckets H ! bucket_index l) 1],
      lh_min := (if l < lh_min H then l else lh_min H),
      lh_max := (if lh_max H = kSentinel \<or> l > lh_max H then l else lh_max H), lh_sum := wrap_add (lh_sum H) l\<rparr>"
  by (rule latency_histogram.equality) (simp_all add: lh_record_def Let_def)

lemma recorded_state:
  assumes "\<forall>x \<in> set xs. x < kSentinel"
  shows "recorded xs = \<lparr>buckets = map (\<lambda>i. samples_in i xs mod 2 ^ 64) [0..<512], lh_min = low xs, lh_max = high xs,
    lh_sum = sum_list xs mod 2 ^ 64, sample_rate = 1\<rparr>"
  using assms
proof (induction xs rule: rev_induct)
  case Nil
  show ?case
    by (simp add: recorded_def lh_new_def samples_in_def low_def high_def bucket_count_def map_replicate_const)
next
  case (snoc x xs)
  then have x: "x < kSentinel" and i: "bucket_index x < 512" and r: "\<forall>y \<in> set xs. y < kSentinel"
    by (auto intro: bucket_index_less simp: kSentinel_def)
  let ?b = "map (\<lambda>i. samples_in i xs mod 2 ^ 64) [0..<512]"
  have b: "?b[bucket_index x := wrap_add (?b ! bucket_index x) 1] = map (\<lambda>i. samples_in i (xs @ [x]) mod 2 ^ 64) [0..<512]"
    by (rule nth_equalityI) (use i in \<open>auto simp: nth_list_update samples_in_def wrap_add_def mod_Suc_eq\<close>)
  have mn: "(if x < low xs then x else low xs) = low (xs @ [x])"
    using x by (cases "xs = []") (simp_all add: low_snoc low_Nil min_def)
  have mx: "(if high xs = kSentinel \<or> x > high xs then x else high xs) = high (xs @ [x])"
  proof (cases "xs = []")
    case False
    then have "high xs \<noteq> kSentinel" using high_less [OF r] by simp
    with False show ?thesis by (simp add: high_snoc max_def)
  qed (simp add: high_snoc high_Nil)
  have s: "wrap_add (sum_list xs mod 2 ^ 64) x = sum_list (xs @ [x]) mod 2 ^ 64" by (simp add: wrap_add_def mod_simps)
  have "recorded (xs @ [x]) = snd (lh_record 0 x (recorded xs))" by (simp add: recorded_def)
  also have "\<dots> = snd (lh_record 0 x \<lparr>buckets = ?b, lh_min = low xs, lh_max = high xs, lh_sum = sum_list xs mod 2 ^ 64,
      sample_rate = 1\<rparr>)" using snoc.IH r by simp
  finally show ?case by (simp only: lh_record_unsampled latency_histogram.simps b mn mx s)
qed

section \<open>Percentiles\<close>
















section \<open>Merging\<close>

lemma low_append: "xs \<noteq> [] \<Longrightarrow> ys \<noteq> [] \<Longrightarrow> low (xs @ ys) = min (low xs) (low ys)"
  by (simp add: low_def Min_Un)

lemma high_append: "xs \<noteq> [] \<Longrightarrow> ys \<noteq> [] \<Longrightarrow> high (xs @ ys) = max (high xs) (high ys)"
  by (simp add: high_def Max_Un)

lemma merge_from_fields:
  "merge_from other H =
     H\<lparr>buckets := map2 (\<lambda>b d. if d \<noteq> 0 then wrap_add b d else b) (buckets H) (buckets other),
       lh_min := (if lh_min other \<noteq> kSentinel \<and> (lh_min H = kSentinel \<or> lh_min other < lh_min H) then lh_min other else lh_min H),
       lh_max := (if lh_max other \<noteq> kSentinel \<and> (lh_max H = kSentinel \<or> lh_max other > lh_max H) then lh_max other else lh_max H),
       lh_sum := (if lh_sum other \<noteq> 0 then wrap_add (lh_sum H) (lh_sum other) else lh_sum H)\<rparr>"
  by (rule latency_histogram.equality) (simp_all add: merge_from_def Let_def)

text \<open>
  Merging is recording everything in one place: the histogram of one sequence of samples merged into that of
  another equals the histogram of both sequences, with all counters, the sum, and the extremes, empty
  histograms included.
\<close>

theorem merge_is_concatenation:
  assumes "\<forall>x \<in> set xs. x < kSentinel" "\<forall>x \<in> set ys. x < kSentinel"
  shows "merge_from (recorded ys) (recorded xs) = recorded (xs @ ys)"
proof -
  have b: "(if samples_in i ys mod 2 ^ 64 \<noteq> 0 then wrap_add (samples_in i xs mod 2 ^ 64) (samples_in i ys mod 2 ^ 64)
      else samples_in i xs mod 2 ^ 64) = samples_in i (xs @ ys) mod 2 ^ 64" for i
    by (auto simp: samples_in_def wrap_add_def mod_simps)
  have sm: "(if sum_list ys mod 2 ^ 64 \<noteq> 0 then wrap_add (sum_list xs mod 2 ^ 64) (sum_list ys mod 2 ^ 64)
      else sum_list xs mod 2 ^ 64) = sum_list (xs @ ys) mod 2 ^ 64"
    by (auto simp: wrap_add_def mod_simps)
  have mn: "(if low ys \<noteq> kSentinel \<and> (low xs = kSentinel \<or> low ys < low xs) then low ys else low xs) = low (xs @ ys)"
    using low_less [OF assms(1)] low_less [OF assms(2)]
    by (cases "xs = []"; cases "ys = []") (auto simp: low_append low_Nil min_def)
  have mx: "(if high ys \<noteq> kSentinel \<and> (high xs = kSentinel \<or> high ys > high xs) then high ys else high xs) = high (xs @ ys)"
    using high_less [OF assms(1)] high_less [OF assms(2)]
    by (cases "xs = []"; cases "ys = []") (auto simp: high_append high_Nil max_def)
  have "\<forall>x \<in> set (xs @ ys). x < kSentinel" using assms by auto
  note r = recorded_state [OF assms(1)] recorded_state [OF assms(2)] recorded_state [OF this]
  show ?thesis unfolding r merge_from_fields latency_histogram.simps map2_map_map
    by (simp only: b sm mn mx)
qed

theorem merge_is_concatenation_witness:
  "merge_from (recorded [3, 1000]) (recorded []) = recorded [3, 1000]"
  using merge_is_concatenation [of "[]" "[3, 1000]"] by (simp add: kSentinel_def)

end
