(* ===== verification/Singleflight.thy ===== *)
theory Singleflight
  imports Lru_Prelude
begin

text \<open>
  Stampede protection, \<^verbatim>\<open>detail/singleflight.hpp\<close>: the tracker of keys in flight and the state that a leader shares
  with its followers, and the calls that \<^verbatim>\<open>get_or_fetch\<close> and \<^verbatim>\<open>try_get_or_fetch\<close> of \<^verbatim>\<open>cache_trait.hpp\<close> make to it, for any
  number of concurrent calls. Each critical section is one step; signalling the followers and removing the entry are two.

  A shared state is an address; states are never reused, as their \<^verbatim>\<open>shared_ptr\<close> keeps them alive. The hash of a key is
  a parameter. Exceptions are values.
\<close>

section \<open>The shared state\<close>

record ('v, 'e) singleflight_state =
  sf_done :: bool
  sf_value :: "'v option"
  sf_exception :: "'e option"

definition sf_state_new :: "('v, 'e) singleflight_state" where
  "sf_state_new = \<lparr>sf_done = False, sf_value = None, sf_exception = None\<rparr>"

definition state_complete :: "'v option \<Rightarrow> 'e option \<Rightarrow> ('v, 'e) singleflight_state \<Rightarrow> ('v, 'e) singleflight_state" where
  "state_complete v exc st = st\<lparr>sf_value := v, sf_exception := exc, sf_done := True\<rparr>"

text \<open>
  \<^verbatim>\<open>wait_and_get\<close>: blocked, an exception rethrown, the value, or the dereference of an empty optional.
\<close>

datatype ('v, 'e) waited = Blocked | Rethrown 'e | Got 'v | Empty_dereference

definition wait_and_get :: "('v, 'e) singleflight_state \<Rightarrow> ('v, 'e) waited" where
  "wait_and_get st =
     (if \<not> sf_done st then Blocked
      else case sf_exception st of
        Some e \<Rightarrow> Rethrown e
      | None \<Rightarrow> (case sf_value st of Some v \<Rightarrow> Got v | None \<Rightarrow> Empty_dereference))"

section \<open>The tracker\<close>

definition num_shards :: nat where "num_shards = 16"

record ('k, 'v, 'e) singleflight_tracker =
  sf_shards :: "nat \<Rightarrow> ('k \<rightharpoonup> nat)"
  sf_store :: "nat \<Rightarrow> ('v, 'e) singleflight_state"
  sf_fresh :: nat
  coalesced :: nat

definition sf_new :: "('k, 'v, 'e) singleflight_tracker" where
  "sf_new = \<lparr>sf_shards = (\<lambda>_. Map.empty), sf_store = (\<lambda>_. sf_state_new), sf_fresh = 0, coalesced = 0\<rparr>"

definition shard_for :: "('k \<Rightarrow> u64) \<Rightarrow> 'k \<Rightarrow> nat" where
  "shard_for hash key = unat (hash key) mod num_shards"

definition inflight :: "('k \<Rightarrow> u64) \<Rightarrow> ('k, 'v, 'e) singleflight_tracker \<Rightarrow> 'k \<Rightarrow> nat option" where
  "inflight hash T key = sf_shards T (shard_for hash key) key"

definition sf_acquire ::
  "('k \<Rightarrow> u64) \<Rightarrow> 'k \<Rightarrow> ('k, 'v, 'e) singleflight_tracker \<Rightarrow> (nat \<times> bool) \<times> ('k, 'v, 'e) singleflight_tracker" where
  "sf_acquire hash key T =
     (let i = shard_for hash key in
      case sf_shards T i key of
        Some s \<Rightarrow> ((s, False), T)
      | None \<Rightarrow>
          let s = sf_fresh T in
          ((s, True), T\<lparr>sf_shards := (sf_shards T)(i := (sf_shards T i)(key \<mapsto> s)),
                        sf_store := (sf_store T)(s := sf_state_new), sf_fresh := s + 1\<rparr>))"

text \<open>The two steps of \<^verbatim>\<open>complete\<close>.\<close>

definition sf_signal ::
  "nat \<Rightarrow> 'v option \<Rightarrow> 'e option \<Rightarrow> ('k, 'v, 'e) singleflight_tracker \<Rightarrow> ('k, 'v, 'e) singleflight_tracker" where
  "sf_signal s v exc T = T\<lparr>sf_store := (sf_store T)(s := state_complete v exc (sf_store T s))\<rparr>"

definition sf_erase ::
  "('k \<Rightarrow> u64) \<Rightarrow> 'k \<Rightarrow> ('k, 'v, 'e) singleflight_tracker \<Rightarrow> ('k, 'v, 'e) singleflight_tracker" where
  "sf_erase hash key T =
     (let i = shard_for hash key in T\<lparr>sf_shards := (sf_shards T)(i := (sf_shards T i)(key := None))\<rparr>)"

definition record_coalesced :: "('k, 'v, 'e) singleflight_tracker \<Rightarrow> ('k, 'v, 'e) singleflight_tracker" where
  "record_coalesced T = T\<lparr>coalesced := coalesced T + 1\<rparr>"

text \<open>
  \<^verbatim>\<open>singleflight_tracker(singleflight_tracker&&)\<close> and its assignment: the entries and the counter move; what the map of the
  source holds afterwards is up to the hash map's library.
\<close>

definition sf_move ::
  "(nat \<Rightarrow> ('k \<rightharpoonup> nat)) \<Rightarrow> ('k, 'v, 'e) singleflight_tracker \<Rightarrow>
   ('k, 'v, 'e) singleflight_tracker \<times> ('k, 'v, 'e) singleflight_tracker" where
  "sf_move left src = (src, src\<lparr>sf_shards := \<lambda>i. if i < num_shards then left i else sf_shards src i\<rparr>)"

definition inflight_count :: "('k, 'v, 'e) singleflight_tracker \<Rightarrow> nat" where
  "inflight_count T = sum_list (map (\<lambda>i. card (dom (sf_shards T i))) [0..<num_shards])"

section \<open>The callers\<close>

text \<open>
  \<^verbatim>\<open>get_or_fetch(key, provider)\<close>. The contents of the cache are a map; every other operation on the cache, and whether it
  keeps what it is given, is an arbitrary change of that map. Memory pressure and the admission decision are up to the
  environment.
\<close>

datatype 'e fetch_error = Thrown 'e | Cache_closed | Cache_oom

definition fetch_insert ::
  "bool \<Rightarrow> bool \<Rightarrow> bool \<Rightarrow> 'k \<Rightarrow> 'v \<Rightarrow> ('k \<rightharpoonup> 'v) \<Rightarrow> ('e fetch_error + 'v) \<times> ('k \<rightharpoonup> 'v)" where
  "fetch_insert critical shut admitted key v m =
     (if critical then (Inr v, m)
      else if shut then (Inl Cache_closed, m)
      else case m key of
        Some w \<Rightarrow> (Inr w, m)
      | None \<Rightarrow> if admitted then (Inr v, m(key \<mapsto> v)) else (Inl Cache_oom, m))"

text \<open>The follower rethrows, or prefers what the cache holds now to the leader's value.\<close>

fun follower_result :: "('v, 'e) waited \<Rightarrow> 'v option \<Rightarrow> ('e + 'v) option" where
  "follower_result (Rethrown e) _ = Some (Inl e)"
| "follower_result (Got v) cached = Some (Inr (case cached of Some w \<Rightarrow> w | None \<Rightarrow> v))"
| "follower_result Blocked _ = None"
| "follower_result Empty_dereference _ = None"

text \<open>Where a call is; \<open>Fetched\<close> has the outcome and has not signalled, \<open>Signalled\<close> has not removed its entry.\<close>

datatype ('k, 'v, 'e) phase =
    Idle
  | Missed 'k
  | Solo 'k
  | Leading 'k nat
  | Fetched 'k nat "'e fetch_error + 'v"
  | Signalled 'k nat "'e fetch_error + 'v"
  | Waiting 'k nat
  | Released 'k nat "('v, 'e fetch_error) waited"
  | Returned "'e fetch_error + 'v"

record ('t, 'k, 'v, 'e) sf_system =
  tracker :: "('k, 'v, 'e fetch_error) singleflight_tracker"
  contents :: "'k \<rightharpoonup> 'v"
  sf_enabled :: bool
  shut_down :: bool
  phase_of :: "'t \<Rightarrow> ('k, 'v, 'e) phase"

definition sf_init :: "('t, 'k, 'v, 'e) sf_system" where
  "sf_init = \<lparr>tracker = sf_new, contents = Map.empty, sf_enabled = False, shut_down = False, phase_of = (\<lambda>_. Idle)\<rparr>"

definition goes :: "'t \<Rightarrow> ('k, 'v, 'e) phase \<Rightarrow> ('t, 'k, 'v, 'e) sf_system \<Rightarrow> ('t, 'k, 'v, 'e) sf_system" where
  "goes t p c = c\<lparr>phase_of := (phase_of c)(t := p)\<rparr>"

definition result_value :: "'e + 'v \<Rightarrow> 'v option" where "result_value r = (case r of Inl _ \<Rightarrow> None | Inr v \<Rightarrow> Some v)"
definition result_exception :: "'e + 'v \<Rightarrow> 'e option" where "result_exception r = (case r of Inl e \<Rightarrow> Some e | Inr _ \<Rightarrow> None)"

inductive sf_step ::
  "('k \<Rightarrow> u64) \<Rightarrow> ('t, 'k, 'v, 'e) sf_system \<Rightarrow> ('t, 'k, 'v, 'e) sf_system \<Rightarrow> bool" for hash where
  shut: "sf_step hash c (c\<lparr>shut_down := True\<rparr>)"
| set_enabled: "sf_step hash c (c\<lparr>sf_enabled := b\<rparr>)"
| change: "sf_step hash c (c\<lparr>contents := m\<rparr>)"
| refuse: "phase_of c t = Idle \<Longrightarrow> shut_down c \<Longrightarrow> sf_step hash c (goes t (Returned (Inl Cache_closed)) c)"
| hit: "phase_of c t = Idle \<Longrightarrow> \<not> shut_down c \<Longrightarrow> contents c k = Some v \<Longrightarrow> sf_step hash c (goes t (Returned (Inr v)) c)"
| miss: "phase_of c t = Idle \<Longrightarrow> \<not> shut_down c \<Longrightarrow> contents c k = None \<Longrightarrow> sf_step hash c (goes t (Missed k) c)"
| solo: "phase_of c t = Missed k \<Longrightarrow> \<not> sf_enabled c \<Longrightarrow> sf_step hash c (goes t (Solo k) c)"
| solo_throw: "phase_of c t = Solo k \<Longrightarrow> sf_step hash c (goes t (Returned (Inl (Thrown e))) c)"
| solo_fetch: "phase_of c t = Solo k \<Longrightarrow> fetch_insert crit (shut_down c) adm k v (contents c) = (r, m) \<Longrightarrow>
    sf_step hash c (goes t (Returned r) (c\<lparr>contents := m\<rparr>))"
| lead: "phase_of c t = Missed k \<Longrightarrow> sf_enabled c \<Longrightarrow> sf_acquire hash k (tracker c) = ((s, True), T) \<Longrightarrow>
    sf_step hash c (goes t (Leading k s) (c\<lparr>tracker := T\<rparr>))"
| follow: "phase_of c t = Missed k \<Longrightarrow> sf_enabled c \<Longrightarrow> sf_acquire hash k (tracker c) = ((s, False), T) \<Longrightarrow>
    sf_step hash c (goes t (Waiting k s) (c\<lparr>tracker := record_coalesced T\<rparr>))"
| throw: "phase_of c t = Leading k s \<Longrightarrow> sf_step hash c (goes t (Fetched k s (Inl (Thrown e))) c)"
| fetch: "phase_of c t = Leading k s \<Longrightarrow> fetch_insert crit (shut_down c) adm k v (contents c) = (r, m) \<Longrightarrow>
    sf_step hash c (goes t (Fetched k s r) (c\<lparr>contents := m\<rparr>))"
| signal: "phase_of c t = Fetched k s r \<Longrightarrow>
    sf_step hash c (goes t (Signalled k s r) (c\<lparr>tracker := sf_signal s (result_value r) (result_exception r) (tracker c)\<rparr>))"
| erase: "phase_of c t = Signalled k s r \<Longrightarrow> sf_step hash c (goes t (Returned r) (c\<lparr>tracker := sf_erase hash k (tracker c)\<rparr>))"
| wake: "phase_of c t = Waiting k s \<Longrightarrow> wait_and_get (sf_store (tracker c) s) \<noteq> Blocked \<Longrightarrow>
    sf_step hash c (goes t (Released k s (wait_and_get (sf_store (tracker c) s))) c)"
| recheck: "phase_of c t = Released k s w \<Longrightarrow> follower_result w (contents c k) = Some r \<Longrightarrow>
    sf_step hash c (goes t (Returned r) c)"
| again: "phase_of c t = Returned r \<Longrightarrow> sf_step hash c (goes t Idle c)"

inductive sf_reach :: "('k \<Rightarrow> u64) \<Rightarrow> ('t, 'k, 'v, 'e) sf_system \<Rightarrow> bool" for hash where
  init: "sf_reach hash sf_init"
| step: "sf_reach hash c \<Longrightarrow> sf_step hash c c' \<Longrightarrow> sf_reach hash c'"

text \<open>The call that leads a key with a state, from \<^verbatim>\<open>acquire\<close> to the end of \<^verbatim>\<open>complete\<close>.\<close>

fun leads :: "('k, 'v, 'e) phase \<Rightarrow> 'k \<Rightarrow> nat \<Rightarrow> bool" where
  "leads (Leading k s) k' s' \<longleftrightarrow> k' = k \<and> s' = s"
| "leads (Fetched k s r) k' s' \<longleftrightarrow> k' = k \<and> s' = s"
| "leads (Signalled k s r) k' s' \<longleftrightarrow> k' = k \<and> s' = s"
| "leads _ _ _ \<longleftrightarrow> False"

text \<open>The outcome of a leader, as its followers see it.\<close>

definition outcome :: "'e + 'v \<Rightarrow> ('v, 'e) waited" where
  "outcome r = (case r of Inl e \<Rightarrow> Rethrown e | Inr v \<Rightarrow> Got v)"

section \<open>Invariant\<close>

text \<open>
  Over the keys in flight \<open>I\<close>, the number \<open>N\<close> of states made so far, what waiting on each gives and the key \<open>K\<close> each was
  made for: a leader owns its state and the entry of its key; an entry has a leader; a follower of an unfinished state
  waits on the entry of its key.
\<close>

fun phase_ok :: "('k \<rightharpoonup> nat) \<Rightarrow> nat \<Rightarrow> (nat \<Rightarrow> ('v, 'e fetch_error) waited) \<Rightarrow> (nat \<Rightarrow> 'k) \<Rightarrow> ('k, 'v, 'e) phase \<Rightarrow> bool" where
  "phase_ok I N W K (Leading k s) \<longleftrightarrow> s < N \<and> I k = Some s \<and> W s = Blocked"
| "phase_ok I N W K (Fetched k s r) \<longleftrightarrow> s < N \<and> I k = Some s \<and> W s = Blocked"
| "phase_ok I N W K (Signalled k s r) \<longleftrightarrow> s < N \<and> I k = Some s \<and> W s = outcome r"
| "phase_ok I N W K (Waiting k s) \<longleftrightarrow> s < N \<and> K s = k \<and> (W s = Blocked \<longrightarrow> I k = Some s) \<and> W s \<noteq> Empty_dereference"
| "phase_ok I N W K (Released k s w) \<longleftrightarrow> s < N \<and> K s = k \<and> w = W s \<and> W s \<noteq> Blocked \<and> W s \<noteq> Empty_dereference"
| "phase_ok I N W K _ \<longleftrightarrow> True"

definition sf_inv ::
  "('k \<rightharpoonup> nat) \<Rightarrow> nat \<Rightarrow> (nat \<Rightarrow> ('v, 'e fetch_error) waited) \<Rightarrow> (nat \<Rightarrow> 'k) \<Rightarrow> ('t \<Rightarrow> ('k, 'v, 'e) phase) \<Rightarrow> bool" where
  "sf_inv I N W K ph \<longleftrightarrow> (\<forall>t. phase_ok I N W K (ph t)) \<and>
     (\<forall>t t' k k' s. leads (ph t) k s \<longrightarrow> leads (ph t') k' s \<longrightarrow> t = t') \<and>
     (\<forall>k s. I k = Some s \<longrightarrow> K s = k \<and> W s \<noteq> Empty_dereference \<and> (\<exists>t. leads (ph t) k s))"

lemma outcome_simps [simp]: "outcome r \<noteq> Blocked" "outcome r \<noteq> Empty_dereference"
  by (simp_all add: outcome_def split: sum.split)

lemma leadsE:
  assumes "leads p k s"
  obtains "p = Leading k s" | r where "p = Fetched k s r" | r where "p = Signalled k s r"
  using assms by (cases p) auto

lemma sf_invI:
  assumes "\<And>t. phase_ok I N W K (ph t)" "\<And>t t' k k' s. leads (ph t) k s \<Longrightarrow> leads (ph t') k' s \<Longrightarrow> t = t'"
    "\<And>k s. I k = Some s \<Longrightarrow> K s = k \<and> W s \<noteq> Empty_dereference \<and> (\<exists>t. leads (ph t) k s)"
  shows "sf_inv I N W K ph"
  unfolding sf_inv_def using assms by blast

lemma sf_invD:
  assumes "sf_inv I N W K ph"
  shows "phase_ok I N W K (ph t)" "leads (ph t) k s \<Longrightarrow> leads (ph t') k' s \<Longrightarrow> t = t'"
    "I k = Some s \<Longrightarrow> K s = k \<and> W s \<noteq> Empty_dereference" "I k = Some s \<Longrightarrow> \<exists>t. leads (ph t) k s"
    "leads (ph t) k s \<Longrightarrow> s < N \<and> I k = Some s" "I k = Some s \<Longrightarrow> s < N"
proof -
  show a: "phase_ok I N W K (ph t)" for t using assms unfolding sf_inv_def by blast
  show "leads (ph t) k s \<Longrightarrow> leads (ph t') k' s \<Longrightarrow> t = t'" using assms unfolding sf_inv_def by blast
  show "I k = Some s \<Longrightarrow> K s = k \<and> W s \<noteq> Empty_dereference" using assms unfolding sf_inv_def by blast
  show b: "I k = Some s \<Longrightarrow> \<exists>t. leads (ph t) k s" using assms unfolding sf_inv_def by blast
  show c: "leads (ph t) k s \<Longrightarrow> s < N \<and> I k = Some s" for t using a [of t] by (auto elim!: leadsE)
  show "I k = Some s \<Longrightarrow> s < N" using b c by blast
qed

lemma leader_update:
  assumes "sf_inv I N W K ph" "I j = Some s" "leads (ph t) j s \<Longrightarrow> leads p j s"
  shows "\<exists>u. leads ((ph(t := p)) u) j s"
  using sf_invD(4) [OF assms(1,2)] assms(3) by (metis fun_upd_apply)

lemma unique_update:
  assumes "sf_inv I N W K ph" "\<And>j s. leads p j s \<Longrightarrow> leads (ph t) j s \<or> (\<forall>u k. \<not> leads (ph u) k s)"
    "leads ((ph(t := p)) u) j s" "leads ((ph(t := p)) u') j' s"
  shows "u = u'"
  using assms(2-) sf_invD(2) [OF assms(1)] by (metis fun_upd_apply)

lemma inv_lead:
  assumes i: "sf_inv I N W K ph" "ph t = Missed k" "I k = None"
  shows "sf_inv (I(k \<mapsto> N)) (Suc N) (W(N := Blocked)) (K(N := k)) (ph(t := Leading k N))"
proof (rule sf_invI)
  note d = sf_invD [OF i(1)]
  show "phase_ok (I(k \<mapsto> N)) (Suc N) (W(N := Blocked)) (K(N := k)) ((ph(t := Leading k N)) u)" for u
    using d(1) [of u] i(3) by (cases "u = t"; cases "ph u") auto
  have n: "\<not> leads (ph u) j N" for u j using d(5) [of u j N] by auto
  show "leads ((ph(t := Leading k N)) u) j s \<Longrightarrow> leads ((ph(t := Leading k N)) u') j' s \<Longrightarrow> u = u'" for u u' j j' s
    using unique_update [OF i(1), of "Leading k N" t u j s u' j'] n by auto
  show "(K(N := k)) s = j \<and> (W(N := Blocked)) s \<noteq> Empty_dereference \<and> (\<exists>u. leads ((ph(t := Leading k N)) u) j s)"
    if j: "(I(k \<mapsto> N)) j = Some s" for j s
  proof (cases "j = k")
    case False
    then have "I j = Some s" using j by simp
    then show ?thesis using leader_update [OF i(1), of j s t "Leading k N"] d(3) [of j s] d(6) [of j s] i(2) by auto
  qed (use j in auto)
qed

lemma inv_leader_step:
  assumes i: "sf_inv I N W K ph" "leads (ph t) k s" "\<And>j s'. leads p j s' \<longleftrightarrow> j = k \<and> s' = s"
    and w: "w \<noteq> Empty_dereference" "w = W s \<or> W s = Blocked" "phase_ok I N (W(s := w)) K p"
  shows "sf_inv I N (W(s := w)) K (ph(t := p))"
proof (rule sf_invI)
  note d = sf_invD [OF i(1)]
  have n: "\<forall>j. \<not> leads (ph u) j s" if "u \<noteq> t" for u using d(2) [OF _ i(2)] that by blast
  show "phase_ok I N (W(s := w)) K ((ph(t := p)) u)" for u
  proof (cases "u = t")
    case False
    then show ?thesis using d(1) [of u] n [OF False] w(1,2) by (cases "ph u") auto
  qed (use w(3) in simp)
  show "leads ((ph(t := p)) u) j s' \<Longrightarrow> leads ((ph(t := p)) u') j' s' \<Longrightarrow> u = u'" for u u' j j' s'
    using unique_update [OF i(1), of p t u j s' u' j'] i(2,3) by auto
  show "K s' = j \<and> (W(s := w)) s' \<noteq> Empty_dereference \<and> (\<exists>u. leads ((ph(t := p)) u) j s')" if j: "I j = Some s'" for j s'
  proof -
    have "leads p j s'" if "leads (ph t) j s'" using that i(2,3) by (auto elim!: leadsE)
    then show ?thesis using leader_update [OF i(1) j, of t p] d(3) [OF j] w(1) by auto
  qed
qed

lemma inv_erase:
  assumes i: "sf_inv I N W K ph" "ph t = Signalled k s r"
  shows "sf_inv (I(k := None)) N W K (ph(t := Returned r))"
proof (rule sf_invI)
  note d = sf_invD [OF i(1)]
  have l: "leads (ph t) k s" and s: "W s = outcome r" "s < N" "I k = Some s" using d(1) [of t] i(2) by auto
  have n: "\<forall>j. \<not> leads (ph u) j s" if "u \<noteq> t" for u using d(2) [OF _ l] that by blast
  show "phase_ok (I(k := None)) N W K ((ph(t := Returned r)) u)" for u
  proof (cases "u = t")
    case False
    then show ?thesis using d(1) [of u] n [OF False] s by (cases "ph u") auto
  qed simp
  show "leads ((ph(t := Returned r)) u) j s' \<Longrightarrow> leads ((ph(t := Returned r)) u') j' s' \<Longrightarrow> u = u'" for u u' j j' s'
    using unique_update [OF i(1), of "Returned r" t u j s' u' j'] by auto
  show "K s' = j \<and> W s' \<noteq> Empty_dereference \<and> (\<exists>u. leads ((ph(t := Returned r)) u) j s')"
    if j: "(I(k := None)) j = Some s'" for j s'
  proof -
    have j': "I j = Some s'" "j \<noteq> k" using j by (auto split: if_splits)
    show ?thesis using leader_update [OF i(1) j'(1), of t "Returned r"] d(3) [OF j'(1)] i(2) j'(2) by auto
  qed
qed

lemma inv_other:
  assumes i: "sf_inv I N W K ph" "\<And>k s. \<not> leads (ph t) k s" "\<And>k s. \<not> leads p k s" "phase_ok I N W K p"
  shows "sf_inv I N W K (ph(t := p))"
proof (rule sf_invI)
  note d = sf_invD [OF i(1)]
  show "phase_ok I N W K ((ph(t := p)) u)" for u using d(1) i(4) by simp
  show "leads ((ph(t := p)) u) j s \<Longrightarrow> leads ((ph(t := p)) u') j' s \<Longrightarrow> u = u'" for u u' j j' s
    using unique_update [OF i(1), of p t u j s u' j'] i(3) by auto
  show "K s = j \<and> W s \<noteq> Empty_dereference \<and> (\<exists>u. leads ((ph(t := p)) u) j s)" if j: "I j = Some s" for j s
    using leader_update [OF i(1) j, of t p] d(3) [OF j] i(2) by auto
qed

section \<open>The tracker keeps it\<close>

abbreviation waits :: "('k, 'v, 'e) singleflight_tracker \<Rightarrow> nat \<Rightarrow> ('v, 'e) waited" where
  "waits T s \<equiv> wait_and_get (sf_store T s)"

lemma acquire_leader:
  assumes "sf_acquire hash k T = ((s, True), T')"
  shows "inflight hash T k = None" "s = sf_fresh T" "inflight hash T' = (inflight hash T)(k \<mapsto> s)"
    "sf_fresh T' = Suc s" "waits T' = (waits T)(s := Blocked)"
proof -
  let ?i = "shard_for hash k"
  show n: "inflight hash T k = None"
    using assms by (simp add: sf_acquire_def inflight_def Let_def split: option.splits)
  have e: "s = sf_fresh T" "T' = T\<lparr>sf_shards := (sf_shards T)(?i := (sf_shards T ?i)(k \<mapsto> s)),
      sf_store := (sf_store T)(s := sf_state_new), sf_fresh := s + 1\<rparr>"
    using assms n by (auto simp: sf_acquire_def inflight_def Let_def)
  show "s = sf_fresh T" "sf_fresh T' = Suc s" using e by simp_all
  show "inflight hash T' = (inflight hash T)(k \<mapsto> s)" unfolding e(2) by (rule ext) (simp add: inflight_def)
  show "waits T' = (waits T)(s := Blocked)" unfolding e(2) by (rule ext) (simp add: wait_and_get_def sf_state_new_def)
qed

lemma acquire_follower:
  assumes "sf_acquire hash k T = ((s, False), T')"
  shows "inflight hash T k = Some s" "T' = T"
  using assms by (auto simp: sf_acquire_def inflight_def Let_def split: option.splits)

lemma inflight_simps [simp]:
  "inflight hash (sf_erase hash k T) = (inflight hash T)(k := None)" "sf_fresh (sf_erase hash k T) = sf_fresh T"
  "sf_store (sf_erase hash k T) = sf_store T"
  "inflight hash (sf_signal s v x T) = inflight hash T" "sf_fresh (sf_signal s v x T) = sf_fresh T"
  "inflight hash (record_coalesced T) = inflight hash T" "sf_fresh (record_coalesced T) = sf_fresh T"
  "sf_store (record_coalesced T) = sf_store T"
  by (auto simp: sf_erase_def sf_signal_def record_coalesced_def inflight_def Let_def fun_eq_iff)

lemma waits_signal: "waits (sf_signal s (result_value r) (result_exception r) T) = (waits T)(s := outcome r)"
  by (auto simp: sf_signal_def wait_and_get_def state_complete_def result_value_def result_exception_def outcome_def
      fun_eq_iff split: sum.splits)

lemma goes_simps [simp]:
  "tracker (goes t p c) = tracker c" "contents (goes t p c) = contents c" "sf_enabled (goes t p c) = sf_enabled c"
  "shut_down (goes t p c) = shut_down c" "phase_of (goes t p c) = (phase_of c)(t := p)"
  by (simp_all add: goes_def)

definition sf_good :: "('k \<Rightarrow> u64) \<Rightarrow> (nat \<Rightarrow> 'k) \<Rightarrow> ('t, 'k, 'v, 'e) sf_system \<Rightarrow> bool" where
  "sf_good hash K c \<longleftrightarrow>
     sf_inv (inflight hash (tracker c)) (sf_fresh (tracker c)) (waits (tracker c)) K (phase_of c)"

text \<open>A later system keeps the key of every state that exists, and its outcome once there is one.\<close>

definition sf_later :: "(nat \<Rightarrow> 'k) \<Rightarrow> ('t, 'k, 'v, 'e) sf_system \<Rightarrow> (nat \<Rightarrow> 'k) \<Rightarrow> ('t, 'k, 'v, 'e) sf_system \<Rightarrow> bool" where
  "sf_later K c K' c' \<longleftrightarrow> sf_fresh (tracker c) \<le> sf_fresh (tracker c') \<and>
     (\<forall>s < sf_fresh (tracker c). K' s = K s \<and> (waits (tracker c) s \<noteq> Blocked \<longrightarrow> waits (tracker c') s = waits (tracker c) s))"

lemma sf_later_same [simp]: "tracker c' = tracker c \<Longrightarrow> sf_later K c K c'" by (simp add: sf_later_def)

lemma sf_later_trans:
  assumes "sf_later K c K' c'" "sf_later K' c' K'' c''"
  shows "sf_later K c K'' c''"
  unfolding sf_later_def
proof (intro conjI allI impI)
  show "sf_fresh (tracker c) \<le> sf_fresh (tracker c'')" using assms unfolding sf_later_def by linarith
  fix s assume s: "s < sf_fresh (tracker c)"
  then have s': "s < sf_fresh (tracker c')" using assms(1) unfolding sf_later_def by linarith
  have a: "K' s = K s" "waits (tracker c) s \<noteq> Blocked \<Longrightarrow> waits (tracker c') s = waits (tracker c) s"
    using assms(1) s unfolding sf_later_def by simp_all
  have b: "K'' s = K' s" "waits (tracker c') s \<noteq> Blocked \<Longrightarrow> waits (tracker c'') s = waits (tracker c') s"
    using assms(2) s' unfolding sf_later_def by simp_all
  show "K'' s = K s" using a(1) b(1) by simp
  show "waits (tracker c'') s = waits (tracker c) s" if "waits (tracker c) s \<noteq> Blocked"
    using a(2) [OF that] b(2) that by simp
qed

lemma sf_good_phase: "sf_good hash K c \<Longrightarrow> phase_ok (inflight hash (tracker c)) (sf_fresh (tracker c)) (waits (tracker c)) K (phase_of c t)"
  unfolding sf_good_def by (rule sf_invD(1))

lemma sf_good_other:
  assumes "sf_good hash K c" "\<And>k s. \<not> leads (phase_of c t) k s" "\<And>k s. \<not> leads p k s"
    "inflight hash (tracker c') = inflight hash (tracker c)" "sf_fresh (tracker c') = sf_fresh (tracker c)"
    "sf_store (tracker c') = sf_store (tracker c)" "phase_of c' = (phase_of c)(t := p)"
    "phase_ok (inflight hash (tracker c)) (sf_fresh (tracker c)) (waits (tracker c)) K p"
  shows "sf_good hash K c' \<and> sf_later K c K c'"
  using inv_other [OF assms(1) [unfolded sf_good_def] assms(2,3,8)] assms(4-7) by (simp add: sf_good_def sf_later_def)

lemma sf_good_same:
  "sf_good hash K c \<Longrightarrow> tracker c' = tracker c \<Longrightarrow> phase_of c' = phase_of c \<Longrightarrow> sf_good hash K c' \<and> sf_later K c K c'"
  by (simp add: sf_good_def)

lemma sf_good_leader:
  assumes g: "sf_good hash K c" and l: "leads (phase_of c t) k s" "\<And>j s'. leads p j s' \<longleftrightarrow> j = k \<and> s' = s"
    and b: "waits (tracker c) s = Blocked" and c': "phase_of c' = (phase_of c)(t := p)"
    "inflight hash (tracker c') = inflight hash (tracker c)" "sf_fresh (tracker c') = sf_fresh (tracker c)"
    "waits (tracker c') = (waits (tracker c))(s := w)" and w: "w \<noteq> Empty_dereference"
    "phase_ok (inflight hash (tracker c)) (sf_fresh (tracker c)) ((waits (tracker c))(s := w)) K p"
  shows "sf_good hash K c' \<and> sf_later K c K c'"
proof
  show "sf_good hash K c'"
    using inv_leader_step [OF g [unfolded sf_good_def] l w(1) disjI2 [OF b] w(2)] by (simp add: sf_good_def c')
  have "waits (tracker c') s' = waits (tracker c) s'" if "waits (tracker c) s' \<noteq> Blocked" for s'
    using that b fun_cong [OF c'(4), of s'] by (cases "s' = s") auto
  then show "sf_later K c K c'" by (simp add: sf_later_def c'(3))
qed

lemma sf_good_fetched:
  assumes g: "sf_good hash K c" and p: "phase_of c t = Leading k s" "phase_of c' = (phase_of c)(t := Fetched k s r)"
    "tracker c' = tracker c"
  shows "sf_good hash K c' \<and> sf_later K c K c'"
proof (rule sf_good_leader [OF g])
  have ok: "s < sf_fresh (tracker c)" "inflight hash (tracker c) k = Some s" "waits (tracker c) s = Blocked"
    using sf_good_phase [OF g, of t] p(1) by simp_all
  then show "waits (tracker c') = (waits (tracker c))(s := Blocked)" "waits (tracker c) s = Blocked"
    "phase_ok (inflight hash (tracker c)) (sf_fresh (tracker c)) ((waits (tracker c))(s := Blocked)) K (Fetched k s r)"
    using p(3) by (simp_all add: fun_eq_iff)
qed (use p in auto)

lemma sf_step_good:
  assumes "sf_step hash c c'" "sf_good hash K c"
  shows "\<exists>K'. sf_good hash K' c' \<and> sf_later K c K' c'"
  using assms(1)
proof cases
  case (lead t k s T)
  note a = acquire_leader [OF lead(4)]
  have "sf_good hash (K(s := k)) c'"
    using inv_lead [OF assms(2) [unfolded sf_good_def] lead(2) a(1)] a(2-) lead(1) by (simp add: sf_good_def)
  moreover have "sf_later K c (K(s := k)) c'" using a(2,4) fun_cong [OF a(5)] lead(1) by (simp add: sf_later_def)
  ultimately show ?thesis by blast
next
  case (follow t k s T)
  note a = acquire_follower [OF follow(4)]
  have "s < sf_fresh (tracker c)" "K s = k" "waits (tracker c) s \<noteq> Empty_dereference"
    using sf_invD(3,6) [OF assms(2) [unfolded sf_good_def] a(1)] by simp_all
  then show ?thesis using sf_good_other [OF assms(2), of t "Waiting k s" c'] follow a by auto
next
  case (throw t k s e)
  then show ?thesis using sf_good_fetched [OF assms(2), of t k s c' "Inl (Thrown e)"] by auto
next
  case (fetch t k s crit adm v r m)
  then show ?thesis using sf_good_fetched [OF assms(2), of t k s c' r] by auto
next
  case (signal t k s r)
  then show ?thesis
    using sf_good_phase [OF assms(2), of t] sf_good_leader [OF assms(2), of t k s "Signalled k s r" c' "outcome r"]
    by (auto simp: waits_signal)
next
  case (erase t k s r)
  then show ?thesis using inv_erase [OF assms(2) [unfolded sf_good_def] erase(2)] by (auto simp: sf_good_def sf_later_def)
next
  case (wake t k s)
  then show ?thesis
    using sf_good_phase [OF assms(2), of t] sf_good_other [OF assms(2), of t "Released k s (waits (tracker c) s)" c'] by auto
next
  case (refuse t)
  then show ?thesis using sf_good_other [OF assms(2), of t "Returned (Inl Cache_closed)" c'] by (auto intro: exI [of _ K])
next
  case (hit t k v)
  then show ?thesis using sf_good_other [OF assms(2), of t "Returned (Inr v)" c'] by (auto intro: exI [of _ K])
next
  case (miss t k)
  then show ?thesis using sf_good_other [OF assms(2), of t "Missed k" c'] by (auto intro: exI [of _ K])
next
  case (solo t k)
  then show ?thesis using sf_good_other [OF assms(2), of t "Solo k" c'] by (auto intro: exI [of _ K])
next
  case (solo_throw t k e)
  then show ?thesis using sf_good_other [OF assms(2), of t "Returned (Inl (Thrown e))" c'] by (auto intro: exI [of _ K])
next
  case (solo_fetch t k crit adm v r m)
  then show ?thesis using sf_good_other [OF assms(2), of t "Returned r" c'] by (auto intro: exI [of _ K])
next
  case (recheck t k s w r)
  then show ?thesis using sf_good_other [OF assms(2), of t "Returned r" c'] by (auto intro: exI [of _ K])
next
  case (again t r)
  then show ?thesis using sf_good_other [OF assms(2), of t "Idle" c'] by (auto intro: exI [of _ K])
qed (use sf_good_same [OF assms(2), of c'] in auto)

lemma sf_reach_good:
  assumes "sf_reach hash c"
  obtains K where "sf_good hash K c"
proof -
  have "\<exists>K. sf_good hash K c" using assms
  proof (induction rule: sf_reach.induct)
    case init
    have "sf_good hash K sf_init" for K :: "nat \<Rightarrow> 'a"
      by (simp add: sf_good_def sf_inv_def sf_init_def sf_new_def inflight_def)
    then show ?case by blast
  next
    case (step c c')
    then show ?case using sf_step_good by blast
  qed
  then show thesis using that by blast
qed

lemma sf_steps_good:
  assumes "(sf_step hash)\<^sup>*\<^sup>* c c'" "sf_good hash K c"
  shows "\<exists>K'. sf_good hash K' c' \<and> sf_later K c K' c'"
  using assms(1)
proof (induction rule: rtranclp_induct)
  case base
  then show ?case using assms(2) sf_later_same by blast
next
  case (step y z)
  then obtain Ky where "sf_good hash Ky y" "sf_later K c Ky y" by blast
  then show ?case using sf_step_good [OF step(2)] sf_later_trans by blast
qed

text \<open>Every entry is in the shard of its key, so \<^verbatim>\<open>inflight_count\<close> counts the keys in flight.\<close>

definition placed :: "('k \<Rightarrow> u64) \<Rightarrow> ('k, 'v, 'e) singleflight_tracker \<Rightarrow> bool" where
  "placed hash T \<longleftrightarrow> (\<forall>i k. sf_shards T i k \<noteq> None \<longrightarrow> i = shard_for hash k)"

lemma placed_simps [simp]:
  "placed hash sf_new" "placed hash T \<Longrightarrow> placed hash (sf_erase hash k T)"
  "placed hash (sf_signal s v x T) = placed hash T" "placed hash (record_coalesced T) = placed hash T"
  by (auto simp: placed_def sf_new_def sf_erase_def sf_signal_def record_coalesced_def Let_def)

lemma placed_acquire: "sf_acquire hash k T = (r, T') \<Longrightarrow> placed hash T \<Longrightarrow> placed hash T'"
  by (auto simp: sf_acquire_def placed_def Let_def split: option.splits if_splits)

lemma placed_reach: "sf_reach hash c \<Longrightarrow> placed hash (tracker c)"
proof (induction rule: sf_reach.induct)
  case (step c c')
  from step(2,3) show ?case by cases (auto dest: placed_acquire)
qed (simp add: sf_init_def)

lemma inflight_count_keys:
  assumes "sf_reach hash c" "finite (dom (inflight hash (tracker c)))"
  shows "inflight_count (tracker c) = card (dom (inflight hash (tracker c)))"
proof -
  let ?D = "\<lambda>i. dom (sf_shards (tracker c) i)"
  have p: "i = shard_for hash k" if "k \<in> ?D i" for i k using placed_reach [OF assms(1)] that by (auto simp: placed_def)
  have u: "dom (inflight hash (tracker c)) = (\<Union>i<num_shards. ?D i)"
  proof (intro set_eqI iffI)
    fix k assume "k \<in> dom (inflight hash (tracker c))"
    then have "k \<in> ?D (shard_for hash k)" by (auto simp: inflight_def)
    then show "k \<in> (\<Union>i<num_shards. ?D i)" by (auto simp: shard_for_def num_shards_def)
  next
    fix k assume "k \<in> (\<Union>i<num_shards. ?D i)"
    then obtain i where "k \<in> ?D i" by blast
    then show "k \<in> dom (inflight hash (tracker c))" using p [of k i] by (auto simp: inflight_def)
  qed
  have "card (\<Union>i<num_shards. ?D i) = (\<Sum>i<num_shards. card (?D i))"
  proof (rule card_UN_disjoint)
    show "\<forall>i\<in>{..<num_shards}. finite (?D i)" using assms(2) u by (metis finite_UN_I finite_subset UN_upper)
    show "\<forall>i\<in>{..<num_shards}. \<forall>j\<in>{..<num_shards}. i \<noteq> j \<longrightarrow> ?D i \<inter> ?D j = {}" using p by blast
  qed simp
  then show ?thesis by (simp add: u inflight_count_def interv_sum_list_conv_sum_set_nat atLeast0LessThan)
qed

section \<open>Progress\<close>

text \<open>From \<open>c\<close>, call \<open>t\<close> can return while every call outside \<open>U\<close> stays where it is.\<close>

definition can_return :: "('k \<Rightarrow> u64) \<Rightarrow> 't set \<Rightarrow> 't \<Rightarrow> ('t, 'k, 'v, 'e) sf_system \<Rightarrow> bool" where
  "can_return hash U t c \<longleftrightarrow> (\<exists>c' r. (sf_step hash)\<^sup>*\<^sup>* c c' \<and> phase_of c' t = Returned r \<and>
     (\<forall>u. u \<notin> U \<longrightarrow> u \<noteq> t \<longrightarrow> phase_of c' u = phase_of c u))"

lemma can_return_step:
  assumes "sf_step hash c c'" "can_return hash U t c'" "\<And>u. u \<notin> U \<Longrightarrow> u \<noteq> t \<Longrightarrow> phase_of c' u = phase_of c u"
  shows "can_return hash U t c"
proof -
  obtain d r where d: "(sf_step hash)\<^sup>*\<^sup>* c' d" "phase_of d t = Returned r"
    "\<And>u. u \<notin> U \<Longrightarrow> u \<noteq> t \<Longrightarrow> phase_of d u = phase_of c' u"
    using assms(2) unfolding can_return_def by blast
  have "(sf_step hash)\<^sup>*\<^sup>* c d" using assms(1) d(1) by (rule converse_rtranclp_into_rtranclp)
  then show ?thesis unfolding can_return_def using d(2,3) assms(3) by metis
qed

lemma can_return_done: "phase_of c t = Returned r \<Longrightarrow> can_return hash U t c"
  unfolding can_return_def by blast

lemma can_return_waiting:
  assumes "phase_of c t = Waiting k s" "waits (tracker c) s \<noteq> Blocked" "waits (tracker c) s \<noteq> Empty_dereference"
  shows "can_return hash U t c"
proof -
  let ?d = "goes t (Released k s (waits (tracker c) s)) c"
  obtain r where r: "follower_result (waits (tracker c) s) (contents c k) = Some r"
    using assms(2,3) by (cases "waits (tracker c) s") auto
  have "sf_step hash ?d (goes t (Returned r) ?d)" by (rule sf_step.recheck [of _ _ k s]) (use r in auto)
  then have "can_return hash U t ?d" by (rule can_return_step [OF _ can_return_done]) auto
  then show ?thesis by (rule can_return_step [OF sf_step.wake [OF assms(1,2)]]) auto
qed

lemma can_return_fetched:
  assumes "phase_of c t = Waiting k s" "phase_of c u = Fetched k' s r" "u \<in> U"
  shows "can_return hash U t c"
proof (rule can_return_step [OF sf_step.signal [OF assms(2)]])
  have "t \<noteq> u" using assms(1,2) by auto
  let ?c = "goes u (Signalled k' s r) (c\<lparr>tracker := sf_signal s (result_value r) (result_exception r) (tracker c)\<rparr>)"
  have "waits (tracker ?c) s = outcome r" using fun_cong [OF waits_signal, of s r "tracker c" s] by simp
  then show "can_return hash U t ?c" by (intro can_return_waiting [of _ _ k s]) (use assms(1) \<open>t \<noteq> u\<close> in auto)
qed (use assms(3) in auto)

lemma can_return_leading:
  assumes "phase_of c t = Waiting k s" "phase_of c u = Leading k' s" "u \<in> U"
  shows "can_return hash U t c"
proof (rule can_return_step [OF sf_step.throw [OF assms(2), where e = undefined]])
  show "can_return hash U t (goes u (Fetched k' s (Inl (Thrown undefined))) c)"
    by (rule can_return_fetched [where u = u and k = k and s = s]) (use assms in auto)
qed (use assms(3) in auto)

section \<open>Properties\<close>

text \<open>
  A run with two calls for key 7: call 0 leads, call 2 follows; then the provider gives 42, call 0 signals, and call 2 is
  released.
\<close>

definition run_waiting :: "(nat, nat, nat, nat) sf_system" where
  "run_waiting = sf_init\<lparr>sf_enabled := True, phase_of := (\<lambda>_. Idle)(0 := Leading 7 0, 2 := Waiting 7 0),
     tracker := record_coalesced (snd (sf_acquire (\<lambda>_. 3) 7 sf_new))\<rparr>"

definition run_signalled :: "(nat, nat, nat, nat) sf_system" where
  "run_signalled = goes 0 (Signalled 7 0 (Inr 42)) (run_waiting\<lparr>contents := [7 \<mapsto> 42],
     tracker := sf_signal 0 (Some 42) None (tracker run_waiting)\<rparr>)"

definition run_released :: "(nat, nat, nat, nat) sf_system" where
  "run_released = goes 2 (Released 7 0 (Got 42)) run_signalled"

lemma run_waiting_reach: "sf_reach (\<lambda>_. 3) run_waiting"
proof -
  let ?h = "\<lambda>_::nat. 3 :: u64"
  let ?c0 = "sf_init\<lparr>sf_enabled := True\<rparr> :: (nat, nat, nat, nat) sf_system"
  let ?c2 = "goes 2 (Missed 7) (goes 0 (Missed 7) ?c0)"
  let ?T = "snd (sf_acquire ?h 7 sf_new)"
  let ?c3 = "goes 0 (Leading 7 0) (?c2\<lparr>tracker := ?T\<rparr>)"
  have i: "phase_of ?c0 t = Idle" "contents ?c0 = Map.empty" "\<not> shut_down ?c0" "tracker ?c0 = sf_new" for t
    by (simp_all add: sf_init_def)
  have a: "sf_acquire ?h 7 sf_new = ((0, True), ?T)" by (simp add: sf_acquire_def sf_new_def Let_def)
  have b: "sf_acquire ?h 7 ?T = ((0, False), ?T)" by (simp add: sf_acquire_def sf_new_def Let_def)
  have "sf_reach ?h ?c0" by (rule sf_reach.step [OF sf_reach.init sf_step.set_enabled])
  moreover have "sf_step ?h ?c0 (goes 0 (Missed 7) ?c0)" by (rule sf_step.miss) (simp_all add: sf_init_def)
  moreover have "sf_step ?h (goes 0 (Missed 7) ?c0) ?c2" by (rule sf_step.miss) (simp_all add: sf_init_def)
  moreover have "sf_step ?h ?c2 ?c3" by (rule sf_step.lead [where T = ?T]) (use a i in \<open>simp_all add: sf_init_def\<close>)
  moreover have "sf_step ?h ?c3 (goes 2 (Waiting 7 0) (?c3\<lparr>tracker := record_coalesced ?T\<rparr>))"
    by (rule sf_step.follow [where T = ?T]) (use b in simp_all)
  moreover have "goes 2 (Waiting 7 0) (?c3\<lparr>tracker := record_coalesced ?T\<rparr>) = run_waiting"
    by (simp add: goes_def run_waiting_def sf_init_def fun_eq_iff)
  ultimately show ?thesis by (metis sf_reach.step)
qed

lemma run_waiting_phases: "phase_of run_waiting 0 = Leading 7 0" "phase_of run_waiting 2 = Waiting 7 0"
  by (simp_all add: run_waiting_def)

lemma run_signalled_reach: "sf_reach (\<lambda>_. 3) run_signalled"
proof -
  let ?c = "goes 0 (Fetched 7 0 (Inr 42)) (run_waiting\<lparr>contents := [7 \<mapsto> 42]\<rparr>)"
  have "sf_step (\<lambda>_. 3) run_waiting ?c"
    by (rule sf_step.fetch [OF run_waiting_phases(1), where crit = False and adm = True and v = 42])
      (simp add: fetch_insert_def run_waiting_def sf_init_def)
  moreover have "sf_step (\<lambda>_. 3) ?c run_signalled"
    using sf_step.signal [of ?c 0 7 0 "Inr 42" "\<lambda>_. 3"]
    by (simp add: run_signalled_def result_value_def result_exception_def goes_def)
  ultimately show ?thesis using run_waiting_reach by (metis sf_reach.step)
qed

lemma run_released_step: "(sf_step (\<lambda>_. 3))\<^sup>*\<^sup>* run_signalled run_released"
proof -
  have "phase_of run_signalled 2 = Waiting 7 0" by (simp add: run_signalled_def run_waiting_phases)
  moreover have "waits (tracker run_signalled) 0 = Got 42"
    by (simp add: run_signalled_def sf_signal_def state_complete_def wait_and_get_def)
  ultimately have "sf_step (\<lambda>_. 3) run_signalled run_released" unfolding run_released_def by (metis sf_step.wake waited.distinct(3))
  then show ?thesis by blast
qed

text \<open>
  C9. Stampede protection: in every reachable state, for any interleaving of calls of \<^verbatim>\<open>get_or_fetch\<close>, a key is in flight
  exactly when one call leads it, and no two calls lead the same key: at most one provider runs for a key at a time, and no
  entry is left behind, whether the provider returned, threw, or the value was refused.
\<close>

theorem one_leader_per_key:
  assumes "sf_reach hash c"
  shows "(inflight hash (tracker c) k = Some s \<longleftrightarrow> (\<exists>!t. leads (phase_of c t) k s)) \<and>
    (leads (phase_of c t) k s \<longrightarrow> leads (phase_of c t') k s' \<longrightarrow> t = t' \<and> s = s')"
proof -
  obtain K where "sf_good hash K c" using assms by (rule sf_reach_good)
  note d = sf_invD [OF this [unfolded sf_good_def]]
  have "t = t' \<and> s = s'" if "leads (phase_of c t) k s" "leads (phase_of c t') k s'"
  proof -
    have "s = s'" using d(5) [OF that(1)] d(5) [OF that(2)] by simp
    then show ?thesis using d(2) that by blast
  qed
  moreover have "inflight hash (tracker c) k = Some s \<longleftrightarrow> (\<exists>!t. leads (phase_of c t) k s)" using d(2,4,5) by blast
  ultimately show ?thesis by blast
qed

theorem one_leader_per_key_witness:
  "sf_reach (\<lambda>_. 3) run_waiting \<and> inflight (\<lambda>_. 3) (tracker run_waiting) 7 = Some 0 \<and> leads (phase_of run_waiting 0) 7 0"
  using one_leader_per_key [OF run_waiting_reach, of 7 0 0 0 0] run_waiting_reach
  by (simp add: run_waiting_phases inflight_def run_waiting_def sf_acquire_def sf_new_def Let_def)

text \<open>
  C34. Once the leader of a key has signalled, every follower released by its state, however late it wakes, asked for the
  same key and gets exactly the leader's outcome: the same exception, or the leader's value unless the cache holds a value
  for the key by then. In particular no follower reads an empty result.
\<close>

theorem followers_get_leaders_outcome:
  assumes "sf_reach hash c" "phase_of c u = Signalled k s r" "(sf_step hash)\<^sup>*\<^sup>* c c'" "phase_of c' t = Released k' s w"
  shows "k' = k \<and> w = outcome r \<and> follower_result w (contents c' k) =
       Some (case r of Inl e \<Rightarrow> Inl e | Inr v \<Rightarrow> Inr (case contents c' k of Some x \<Rightarrow> x | None \<Rightarrow> v))"
proof -
  obtain K where g: "sf_good hash K c" using assms(1) by (rule sf_reach_good)
  obtain K' where K': "sf_good hash K' c'" "sf_later K c K' c'" using sf_steps_good [OF assms(3) g] by blast
  have s: "s < sf_fresh (tracker c)" "inflight hash (tracker c) k = Some s" "waits (tracker c) s = outcome r"
    using sf_good_phase [OF g, of u] assms(2) by simp_all
  have k: "K s = k" using sf_invD(3) [OF g [unfolded sf_good_def] s(2)] by simp
  have w: "K' s = k'" "w = waits (tracker c') s" using sf_good_phase [OF K'(1), of t] assms(4) by simp_all
  have "k' = k" "w = outcome r" using K'(2) s w k unfolding sf_later_def by simp_all
  then show ?thesis by (simp add: outcome_def split: sum.split)
qed

theorem followers_get_leaders_outcome_witness:
  "phase_of run_signalled 0 = Signalled 7 0 (Inr 42) \<and> phase_of run_released 2 = Released 7 0 (Got 42) \<and>
   follower_result (Got 42) (contents run_released 7) = Some (Inr 42)"
proof -
  have s: "phase_of run_signalled 0 = Signalled 7 0 (Inr 42)" by (simp add: run_signalled_def)
  have r: "phase_of run_released 2 = Released 7 0 (Got 42)" by (simp add: run_released_def)
  have "contents run_released 7 = Some 42" by (simp add: run_released_def run_signalled_def)
  then show ?thesis
    using s r followers_get_leaders_outcome [OF run_signalled_reach s run_released_step r] by simp
qed

text \<open>
  C35. No follower is stuck: in every reachable state, a call that waits for a key can return in steps of its own and of
  the one call that leads the key, whatever the other calls do not do; it is never left waiting on a state nobody will
  complete.
\<close>

theorem follower_can_return:
  assumes "sf_reach hash c" "phase_of c t = Waiting k s"
  shows "can_return hash {u. leads (phase_of c u) k s} t c"
proof -
  obtain K where g: "sf_good hash K c" using assms(1) by (rule sf_reach_good)
  have w: "waits (tracker c) s = Blocked \<Longrightarrow> inflight hash (tracker c) k = Some s" "waits (tracker c) s \<noteq> Empty_dereference"
    using sf_good_phase [OF g, of t] assms(2) by simp_all
  show ?thesis
  proof (cases "waits (tracker c) s = Blocked")
    case True
    obtain u where u: "leads (phase_of c u) k s" using sf_invD(4) [OF g [unfolded sf_good_def] w(1) [OF True]] by blast
    then show ?thesis
    proof (cases rule: leadsE)
      case (3 r)
      then show ?thesis using sf_good_phase [OF g, of u] True by (metis outcome_simps(1) phase_ok.simps(3))
    qed (use assms(2) u in \<open>auto intro: can_return_leading can_return_fetched\<close>)
  next
    case False
    then show ?thesis using assms(2) w(2) by (intro can_return_waiting)
  qed
qed

theorem follower_can_return_witness: "can_return (\<lambda>_. 3) {u. leads (phase_of run_waiting u) 7 0} 2 run_waiting"
  by (rule follower_can_return [OF run_waiting_reach run_waiting_phases(2)])

end
