(* ===== verification/Crc32.thy ===== *)
theory Crc32
  imports Lru_Prelude
begin

text \<open>
  The checksum of the snapshot format, \<^verbatim>\<open>crc32\<close> of \<^verbatim>\<open>serialization.hpp\<close>: the table of the source, the loop over the bytes,
  the equivalence with the bit-by-bit division by the IEEE 802.3 polynomial, and the errors it detects.
\<close>

section \<open>The code\<close>

type_synonym bytes = "u8 list"

definition crc_table :: "u32 list" where
  "crc_table =
  [
   0x00000000, 0x77073096, 0xee0e612c, 0x990951ba, 0x076dc419, 0x706af48f, 0xe963a535, 0x9e6495a3,
   0x0edb8832, 0x79dcb8a4, 0xe0d5e91e, 0x97d2d988, 0x09b64c2b, 0x7eb17cbd, 0xe7b82d07, 0x90bf1d91,
   0x1db71064, 0x6ab020f2, 0xf3b97148, 0x84be41de, 0x1adad47d, 0x6ddde4eb, 0xf4d4b551, 0x83d385c7,
   0x136c9856, 0x646ba8c0, 0xfd62f97a, 0x8a65c9ec, 0x14015c4f, 0x63066cd9, 0xfa0f3d63, 0x8d080df5,
   0x3b6e20c8, 0x4c69105e, 0xd56041e4, 0xa2677172, 0x3c03e4d1, 0x4b04d447, 0xd20d85fd, 0xa50ab56b,
   0x35b5a8fa, 0x42b2986c, 0xdbbbc9d6, 0xacbcf940, 0x32d86ce3, 0x45df5c75, 0xdcd60dcf, 0xabd13d59,
   0x26d930ac, 0x51de003a, 0xc8d75180, 0xbfd06116, 0x21b4f4b5, 0x56b3c423, 0xcfba9599, 0xb8bda50f,
   0x2802b89e, 0x5f058808, 0xc60cd9b2, 0xb10be924, 0x2f6f7c87, 0x58684c11, 0xc1611dab, 0xb6662d3d,
   0x76dc4190, 0x01db7106, 0x98d220bc, 0xefd5102a, 0x71b18589, 0x06b6b51f, 0x9fbfe4a5, 0xe8b8d433,
   0x7807c9a2, 0x0f00f934, 0x9609a88e, 0xe10e9818, 0x7f6a0dbb, 0x086d3d2d, 0x91646c97, 0xe6635c01,
   0x6b6b51f4, 0x1c6c6162, 0x856530d8, 0xf262004e, 0x6c0695ed, 0x1b01a57b, 0x8208f4c1, 0xf50fc457,
   0x65b0d9c6, 0x12b7e950, 0x8bbeb8ea, 0xfcb9887c, 0x62dd1ddf, 0x15da2d49, 0x8cd37cf3, 0xfbd44c65,
   0x4db26158, 0x3ab551ce, 0xa3bc0074, 0xd4bb30e2, 0x4adfa541, 0x3dd895d7, 0xa4d1c46d, 0xd3d6f4fb,
   0x4369e96a, 0x346ed9fc, 0xad678846, 0xda60b8d0, 0x44042d73, 0x33031de5, 0xaa0a4c5f, 0xdd0d7cc9,
   0x5005713c, 0x270241aa, 0xbe0b1010, 0xc90c2086, 0x5768b525, 0x206f85b3, 0xb966d409, 0xce61e49f,
   0x5edef90e, 0x29d9c998, 0xb0d09822, 0xc7d7a8b4, 0x59b33d17, 0x2eb40d81, 0xb7bd5c3b, 0xc0ba6cad,
   0xedb88320, 0x9abfb3b6, 0x03b6e20c, 0x74b1d29a, 0xead54739, 0x9dd277af, 0x04db2615, 0x73dc1683,
   0xe3630b12, 0x94643b84, 0x0d6d6a3e, 0x7a6a5aa8, 0xe40ecf0b, 0x9309ff9d, 0x0a00ae27, 0x7d079eb1,
   0xf00f9344, 0x8708a3d2, 0x1e01f268, 0x6906c2fe, 0xf762575d, 0x806567cb, 0x196c3671, 0x6e6b06e7,
   0xfed41b76, 0x89d32be0, 0x10da7a5a, 0x67dd4acc, 0xf9b9df6f, 0x8ebeeff9, 0x17b7be43, 0x60b08ed5,
   0xd6d6a3e8, 0xa1d1937e, 0x38d8c2c4, 0x4fdff252, 0xd1bb67f1, 0xa6bc5767, 0x3fb506dd, 0x48b2364b,
   0xd80d2bda, 0xaf0a1b4c, 0x36034af6, 0x41047a60, 0xdf60efc3, 0xa867df55, 0x316e8eef, 0x4669be79,
   0xcb61b38c, 0xbc66831a, 0x256fd2a0, 0x5268e236, 0xcc0c7795, 0xbb0b4703, 0x220216b9, 0x5505262f,
   0xc5ba3bbe, 0xb2bd0b28, 0x2bb45a92, 0x5cb36a04, 0xc2d7ffa7, 0xb5d0cf31, 0x2cd99e8b, 0x5bdeae1d,
   0x9b64c2b0, 0xec63f226, 0x756aa39c, 0x026d930a, 0x9c0906a9, 0xeb0e363f, 0x72076785, 0x05005713,
   0x95bf4a82, 0xe2b87a14, 0x7bb12bae, 0x0cb61b38, 0x92d28e9b, 0xe5d5be0d, 0x7cdcefb7, 0x0bdbdf21,
   0x86d3d2d4, 0xf1d4e242, 0x68ddb3f8, 0x1fda836e, 0x81be16cd, 0xf6b9265b, 0x6fb077e1, 0x18b74777,
   0x88085ae6, 0xff0f6a70, 0x66063bca, 0x11010b5c, 0x8f659eff, 0xf862ae69, 0x616bffd3, 0x166ccf45,
   0xa00ae278, 0xd70dd2ee, 0x4e048354, 0x3903b3c2, 0xa7672661, 0xd06016f7, 0x4969474d, 0x3e6e77db,
   0xaed16a4a, 0xd9d65adc, 0x40df0b66, 0x37d83bf0, 0xa9bcae53, 0xdebb9ec5, 0x47b2cf7f, 0x30b5ffe9,
   0xbdbdf21c, 0xcabac28a, 0x53b39330, 0x24b4a3a6, 0xbad03605, 0xcdd70693, 0x54de5729, 0x23d967bf,
   0xb3667a2e, 0xc4614ab8, 0x5d681b02, 0x2a6f2b94, 0xb40bbe37, 0xc30c8ea1, 0x5a05df1b, 0x2d02ef8d
  ]"

definition crc_byte :: "u32 \<Rightarrow> u8 \<Rightarrow> u32" where
  "crc_byte crc b = crc_table ! unat ((crc XOR ucast b) AND 0xFF) XOR drop_bit 8 crc"

definition crc32 :: "bytes \<Rightarrow> u32" where
  "crc32 data = NOT (foldl crc_byte 0xFFFFFFFF data)"

section \<open>The reference: division by the polynomial, one bit at a time\<close>

definition crc_bit :: "u32 \<Rightarrow> u32" where
  "crc_bit c = (if bit c 0 then drop_bit 1 c XOR 0xEDB88320 else drop_bit 1 c)"

definition crc_bits :: "u32 \<Rightarrow> u32" where "crc_bits = (crc_bit ^^ 8)"

definition crc32_reference :: "bytes \<Rightarrow> u32" where
  "crc32_reference data = NOT (foldl (\<lambda>crc b. crc_bits (crc XOR ucast b)) 0xFFFFFFFF data)"

section \<open>The bit step is linear and injective\<close>

lemma xor_swap: "(x XOR p) XOR (y XOR q) = (x XOR y) XOR (p XOR (q :: 'a::len word))"
  by (rule bit_word_eqI) (auto simp: bit_xor_iff)

lemma xor_left_cancel: "x XOR a = x XOR b \<Longrightarrow> a = (b :: 'a::len word)"
proof -
  assume "x XOR a = x XOR b"
  then have "x XOR (x XOR a) = x XOR (x XOR b)" by simp
  then show "a = b" by (simp only: xor.assoc [symmetric] xor_self_eq xor.left_neutral)
qed

lemma crc_bit_alt: "crc_bit c = drop_bit 1 c XOR (if bit c 0 then 0xEDB88320 else 0)"
  by (simp add: crc_bit_def)

lemma crc_bit_xor: "crc_bit (a XOR b) = crc_bit a XOR crc_bit b"
proof -
  have "crc_bit a XOR crc_bit b = (drop_bit 1 a XOR drop_bit 1 b) XOR
      ((if bit a 0 then 0xEDB88320 else 0) XOR (if bit b 0 then 0xEDB88320 else 0))"
    unfolding crc_bit_alt by (rule xor_swap)
  then show ?thesis
    by (simp only: crc_bit_alt drop_bit_xor bit_xor_iff) (cases "bit a 0"; cases "bit b 0"; simp)
qed

lemma crc_bits_n_xor: "(crc_bit ^^ n) (a XOR b) = (crc_bit ^^ n) a XOR (crc_bit ^^ n) b"
  by (induction n) (simp_all add: crc_bit_xor)

lemma crc_bits_xor: "crc_bits (a XOR b) = crc_bits a XOR crc_bits b"
  by (simp add: crc_bits_def crc_bits_n_xor)

lemma xor_zero_iff: "a XOR b = 0 \<longleftrightarrow> a = (b :: 'a::len word)"
  by (metis xor.assoc xor_self_eq xor.left_neutral xor.right_neutral)

lemma crc_bit_zero:
  assumes z: "crc_bit c = 0"
  shows "c = 0"
proof -
  have t: "\<not> bit (drop_bit 1 c) 31" "bit (0xEDB88320 :: u32) 31"
    using bit_imp_le_length [of c 32] by (auto simp: bit_drop_bit_eq bit_numeral_rec)
  have n: "\<not> bit c 0"
  proof
    assume "bit c 0"
    then have "drop_bit 1 c = 0xEDB88320" using z by (simp add: crc_bit_def xor_zero_iff)
    then show False using t by simp
  qed
  then have d: "drop_bit 1 c = 0" using z by (simp add: crc_bit_def)
  have "\<not> bit c i" for i
  proof (cases i)
    case (Suc j)
    have "bit c i = bit (drop_bit 1 c) j" by (simp add: bit_drop_bit_eq Suc)
    then show ?thesis using d by simp
  qed (use n in simp)
  then show "c = 0" by (intro bit_word_eqI) simp
qed

lemma inj_crc_bit: "inj crc_bit"
proof (rule injI)
  fix a b assume "crc_bit a = crc_bit b"
  then have "crc_bit (a XOR b) = 0" by (simp add: crc_bit_xor)
  then have "a XOR b = 0" by (rule crc_bit_zero)
  then show "a = b" by (simp only: xor_zero_iff)
qed

lemma inj_crc_bits: "inj crc_bits"
  unfolding crc_bits_def by (rule inj_fn [OF inj_crc_bit])

text \<open>Bits that are not shifted out pass through unchanged.\<close>

lemma crc_bit_n_shift: "\<forall>i<n. \<not> bit c i \<Longrightarrow> (crc_bit ^^ n) c = drop_bit n c"
proof (induction n)
  case (Suc n)
  then have "(crc_bit ^^ n) c = drop_bit n c" by simp
  moreover have "\<not> bit (drop_bit n c) 0" using Suc.prems by (simp add: bit_drop_bit_eq)
  moreover have "crc_bit x = drop_bit 1 x" if "\<not> bit x 0" for x using that by (simp add: crc_bit_def)
  ultimately show ?case by (simp add: drop_bit_drop_bit)
qed simp

section \<open>The table\<close>

text \<open>The table is spanned by the entries at the powers of two.\<close>

fun spread :: "u32 list \<Rightarrow> u32 list" where
  "spread [] = [0]"
| "spread (b # bs) = (let xs = spread bs in xs @ map (\<lambda>x. b XOR x) xs)"

definition crc_basis :: "u32 list" where
  "crc_basis = [0xedb88320, 0x76dc4190, 0x3b6e20c8, 0x1db71064, 0x0edb8832, 0x076dc419, 0xee0e612c, 0x77073096]"

lemma crc_table_spread: "crc_table = spread crc_basis"
  by code_simp

lemma crc_basis_entries: "crc_basis = map crc_bits [128, 64, 32, 16, 8, 4, 2, 1]"
  by code_simp

lemma length_spread: "length (spread bs) = 2 ^ length bs"
  by (induction bs) (simp_all add: Let_def)

lemma of_nat_high_bit:
  assumes "i < 2 ^ n" "n < 32"
  shows "(of_nat (i + 2 ^ n) :: u32) = 2 ^ n XOR of_nat i"
proof -
  have "take_bit n i = i" using assms(1) by (simp add: take_bit_nat_eq_self)
  then have b: "\<not> bit (of_nat i :: u32) m" if "n \<le> m" for m
    using that by (metis bit_of_nat_iff_bit bit_take_bit_iff bit_unsigned_iff linorder_not_le bit_of_nat_iff)
  have "(of_nat (i + 2 ^ n) :: u32) = 2 ^ n + of_nat i" by simp
  also have "\<dots> = 2 ^ n OR of_nat i"
    by (rule disjunctive_add) (use b in \<open>auto simp: bit_exp_iff\<close>)
  also have "\<dots> = 2 ^ n XOR of_nat i"
    by (rule bit_word_eqI) (use b in \<open>auto simp: bit_or_iff bit_xor_iff bit_exp_iff\<close>)
  finally show ?thesis .
qed

lemma nth_spread:
  assumes "\<forall>j < length bs. bs ! j = crc_bits (2 ^ (length bs - 1 - j))" "i < 2 ^ length bs" "length bs < 32"
  shows "spread bs ! i = crc_bits (of_nat i)"
  using assms
proof (induction bs arbitrary: i)
  case Nil
  have "crc_bits 0 = 0" using crc_bits_xor [of 0 0] by simp
  then show ?case using Nil by simp
next
  case (Cons b bs)
  let ?n = "length bs"
  have ih: "spread bs ! i = crc_bits (of_nat i)" if "i < 2 ^ ?n" for i
  proof (rule Cons.IH [OF _ that])
    show "\<forall>j < length bs. bs ! j = crc_bits (2 ^ (length bs - 1 - j))" using Cons.prems(1) by force
    show "length bs < 32" using Cons.prems(3) by simp
  qed
  have b: "b = crc_bits (2 ^ ?n)" using Cons.prems(1) by force
  show ?case
  proof (cases "i < 2 ^ ?n")
    case True
    then show ?thesis using ih by (simp add: Let_def nth_append length_spread)
  next
    case False
    then obtain j where j: "i = j + 2 ^ ?n" "j < 2 ^ ?n"
      using Cons.prems(2) by (metis add.commute add_less_cancel_left le_add_diff_inverse2 length_Cons linorder_not_le mult_2 power_Suc)
    have "spread (b # bs) ! i = b XOR crc_bits (of_nat j)"
      using j ih [OF j(2)] by (simp add: Let_def nth_append length_spread)
    also have "\<dots> = crc_bits (of_nat i)"
      using of_nat_high_bit [OF j(2)] Cons.prems(3) by (simp add: j(1) b crc_bits_xor)
    finally show ?thesis .
  qed
qed

lemma crc_table_entry:
  assumes "i < 256"
  shows "crc_table ! i = crc_bits (of_nat i)"
proof -
  have "crc_basis ! j = crc_bits (2 ^ (7 - j))" if j8: "j < 8" for j
  proof -
    consider "j = 0" | "j = 1" | "j = 2" | "j = 3" | "j = 4" | "j = 5" | "j = 6" | "j = 7" using j8 by linarith
    then show ?thesis by cases (simp_all add: crc_basis_entries)
  qed
  moreover have l: "length crc_basis = 8" by (simp add: crc_basis_def)
  ultimately have "\<forall>j < length crc_basis. crc_basis ! j = crc_bits (2 ^ (length crc_basis - 1 - j))" by simp
  then show ?thesis unfolding crc_table_spread by (rule nth_spread) (use assms l in simp_all)
qed

section \<open>The byte step\<close>

lemma low_byte_split: "x = (x AND mask 8) XOR (x AND NOT (mask 8))" for x :: u32
  by (rule bit_word_eqI) (auto simp: bit_and_iff bit_xor_iff bit_not_iff)

lemma crc_byte_bits: "crc_byte crc b = crc_bits (crc XOR ucast b)"
proof -
  let ?x = "crc XOR ucast b"
  let ?l = "?x AND mask 8" and ?h = "?x AND NOT (mask 8)"
  have "unat ?l < 256" by (simp only: take_bit_eq_mask [symmetric] unat_take_bit_word) simp
  then have "crc_table ! unat ?l = crc_bits ?l" by (simp add: crc_table_entry)
  moreover have "crc_bits ?h = drop_bit 8 ?h"
    unfolding crc_bits_def by (rule crc_bit_n_shift) (simp only: bit_and_iff bit_not_iff bit_mask_iff, auto)
  moreover have "drop_bit 8 ?h = drop_bit 8 crc"
  proof (rule bit_word_eqI)
    fix i
    have "\<not> bit (ucast b :: u32) (8 + i)" using bit_imp_le_length [of b "8 + i"] by (auto simp: bit_ucast_iff)
    then show "bit (drop_bit 8 ?h) i = bit (drop_bit 8 crc) i"
      using bit_imp_le_length [of crc "8 + i"]
      by (simp only: bit_drop_bit_eq comp_def bit_and_iff bit_not_iff bit_xor_iff bit_mask_iff) auto
  qed
  moreover have "crc_bits ?x = crc_bits ?l XOR crc_bits ?h" by (subst low_byte_split) (rule crc_bits_xor)
  moreover have "(0xFF :: u32) = mask 8" by (simp add: mask_eq_exp_minus_1)
  ultimately show ?thesis unfolding crc_byte_def by (simp only:)
qed

section \<open>What it detects\<close>

text \<open>Up to four bytes, read in little-endian order, enter the register as one word.\<close>

fun le_word :: "bytes \<Rightarrow> u32" where
  "le_word [] = 0"
| "le_word (b # bs) = ucast b XOR push_bit 8 (le_word bs)"

lemma le_word_bits: "bit (le_word bs) i \<Longrightarrow> i < 8 * length bs"
proof (induction bs arbitrary: i)
  case (Cons b bs)
  then consider "bit (ucast b :: u32) i" | "bit (push_bit 8 (le_word bs)) i" by (auto simp: bit_xor_iff)
  then show ?case
  proof cases
    case 1
    then show ?thesis using bit_imp_le_length [of b i] by (simp add: bit_ucast_iff)
  next
    case 2
    then show ?thesis using Cons.IH [of "i - 8"] by (simp add: bit_push_bit_iff)
  qed
qed simp

lemma crc_bits_push: "length bs \<le> 3 \<Longrightarrow> crc_bits (push_bit 8 (le_word bs)) = le_word bs"
proof -
  assume l: "length bs \<le> 3"
  have "crc_bits (push_bit 8 (le_word bs)) = drop_bit 8 (push_bit 8 (le_word bs))"
    unfolding crc_bits_def by (rule crc_bit_n_shift) (simp add: bit_push_bit_iff)
  also have "\<dots> = le_word bs"
  proof (rule bit_word_eqI)
    fix i
    show "bit (drop_bit 8 (push_bit 8 (le_word bs))) i = bit (le_word bs) i"
      using le_word_bits [of bs i] l by (auto simp: bit_drop_bit_eq bit_push_bit_iff)
  qed
  finally show ?thesis .
qed

lemma foldl_crc_word:
  "length bs \<le> 4 \<Longrightarrow> foldl crc_byte c bs = (crc_bits ^^ length bs) (c XOR le_word bs)"
proof (induction bs arbitrary: c)
  case (Cons b bs)
  have "foldl crc_byte c (b # bs) = (crc_bits ^^ length bs) (crc_bits (c XOR ucast b) XOR le_word bs)"
    using Cons.IH [of "crc_byte c b"] Cons.prems by (simp add: crc_byte_bits [of c b])
  also have "\<dots> = (crc_bits ^^ length bs) (crc_bits ((c XOR ucast b) XOR push_bit 8 (le_word bs)))"
    using Cons.prems crc_bits_push [of bs] by (simp add: crc_bits_xor)
  finally show ?case by (simp add: xor.assoc funpow_swap1)
qed simp

lemma le_word_inj:
  assumes "length xs = length ys" "length xs \<le> 4" "le_word xs = le_word ys"
  shows "xs = ys"
  using assms
proof (induction xs ys rule: list_induct2)
  case (Cons x xs y ys)
  have e: "bit (le_word (x # xs)) i = bit (le_word (y # ys)) i" for i using Cons.prems(2) by simp
  have "x = y"
  proof (rule bit_word_eqI)
    fix i assume "i < LENGTH(8)"
    then show "bit x i = bit y i" using e [of i] by (simp add: bit_simps)
  qed
  moreover have "le_word xs = le_word ys"
  proof (rule bit_word_eqI)
    fix i assume "i < LENGTH(32)"
    show "bit (le_word xs) i = bit (le_word ys) i"
    proof (cases "i < 24")
      case True
      then show ?thesis using e [of "i + 8"] by (auto simp: bit_simps dest: bit_imp_le_length)
    next
      case False
      then show ?thesis using le_word_bits [of xs i] le_word_bits [of ys i] Cons.prems(1) Cons.hyps by auto
    qed
  qed
  ultimately show ?case using Cons by simp
qed simp

lemma inj_crc_byte: "crc_byte c b = crc_byte c' b \<Longrightarrow> c = c'"
proof -
  assume "crc_byte c b = crc_byte c' b"
  then have "c XOR ucast b = c' XOR ucast b" unfolding crc_byte_bits by (rule injD [OF inj_crc_bits])
  then have "(c XOR ucast b) XOR ucast b = (c' XOR ucast b) XOR ucast b" by simp
  then show "c = c'" by (simp only: xor.assoc xor_self_eq xor.right_neutral)
qed

lemma foldl_crc_inj: "foldl crc_byte c bs = foldl crc_byte c' bs \<Longrightarrow> c = c'"
  by (induction bs arbitrary: c c') (auto dest: inj_crc_byte)

lemma crc32_burst:
  assumes "length xs = length ys" "length xs \<le> 4" "xs \<noteq> ys"
  shows "crc32 (p @ xs @ s) \<noteq> crc32 (p @ ys @ s)"
proof
  assume "crc32 (p @ xs @ s) = crc32 (p @ ys @ s)"
  then have "foldl crc_byte 0xFFFFFFFF (p @ xs @ s) = foldl crc_byte 0xFFFFFFFF (p @ ys @ s)"
    unfolding crc32_def by simp
  then have "foldl crc_byte (foldl crc_byte 0xFFFFFFFF p) xs = foldl crc_byte (foldl crc_byte 0xFFFFFFFF p) ys"
    by (auto dest: foldl_crc_inj)
  then have "(crc_bits ^^ length ys) (foldl crc_byte 0xFFFFFFFF p XOR le_word xs) =
      (crc_bits ^^ length ys) (foldl crc_byte 0xFFFFFFFF p XOR le_word ys)"
    using assms(1,2) by (simp add: foldl_crc_word)
  then have "foldl crc_byte 0xFFFFFFFF p XOR le_word xs = foldl crc_byte 0xFFFFFFFF p XOR le_word ys"
    by (rule injD [OF inj_fn [OF inj_crc_bits]])
  then have "le_word xs = le_word ys" by (rule xor_left_cancel)
  then show False using le_word_inj assms by blast
qed

section \<open>Property\<close>

text \<open>
  C40. The table-driven \<^verbatim>\<open>crc32\<close> is the division by the IEEE 802.3 polynomial, one bit at a time: all 256 entries of the
  table are right, and so is the checksum of every byte sequence.
\<close>

theorem crc32_is_polynomial_division: "crc32 data = crc32_reference data"
proof -
  have "crc_byte = (\<lambda>crc b. crc_bits (crc XOR ucast b))" by (intro ext) (rule crc_byte_bits)
  then show ?thesis by (simp add: crc32_def crc32_reference_def)
qed

end
