(* ===== verification/Serialization.thy ===== *)
theory Serialization
  imports Crc32 Mm_Lru_Ops
begin

text \<open>
  The snapshot format of \<^verbatim>\<open>serialization.hpp\<close>: the byte writer and the bounds-checked reader, the encodings of keys and
  values, the header, the configuration, the list state and the items, writing a snapshot and parsing one.

  A writer is the buffer written so far. A reader is the data with a position; reading gives an error or a result with the
  reader advanced. Doubles are their 64 bits. Sizes do not reach \<open>2 ^ 64\<close>. File input and output is not modelled.
\<close>

section \<open>Little-endian words\<close>

definition le_bytes :: "nat \<Rightarrow> 'a::len word \<Rightarrow> bytes" where
  "le_bytes n w = map (\<lambda>i. ucast (drop_bit (8 * i) w)) [0..<n]"

definition of_le_bytes :: "bytes \<Rightarrow> 'a::len word" where
  "of_le_bytes bs = foldr (\<lambda>b w. ucast b OR push_bit 8 w) bs 0"

lemma length_le_bytes [simp]: "length (le_bytes n w) = n"
  by (simp add: le_bytes_def)

lemma bit_of_le_bytes:
  "bit (of_le_bytes bs :: 'a::len word) i \<longleftrightarrow> i < LENGTH('a) \<and> i < 8 * length bs \<and> bit (bs ! (i div 8)) (i mod 8)"
proof (induction bs arbitrary: i)
  case (Cons b bs)
  have "bit (of_le_bytes (b # bs) :: 'a word) i \<longleftrightarrow>
      bit (ucast b :: 'a word) i \<or> bit (push_bit 8 (of_le_bytes bs) :: 'a word) i"
    by (simp add: of_le_bytes_def bit_or_iff)
  moreover have "bit (ucast b :: 'a word) i \<longleftrightarrow> i < LENGTH('a) \<and> i < 8 \<and> bit b i"
    using bit_imp_le_length [of b i] by (auto simp: bit_ucast_iff)
  moreover have "bit (push_bit 8 (of_le_bytes bs) :: 'a word) i \<longleftrightarrow>
      i < LENGTH('a) \<and> 8 \<le> i \<and> i - 8 < 8 * length bs \<and> bit (bs ! ((i - 8) div 8)) ((i - 8) mod 8)"
    by (auto simp: bit_push_bit_iff Cons.IH)
  moreover have "(b # bs) ! (i div 8) = bs ! ((i - 8) div 8)" "i mod 8 = (i - 8) mod 8" if "8 \<le> i"
    using that by (auto simp: le_div_geq le_mod_geq)
  ultimately show ?case by (cases "i < 8") auto
qed (simp add: of_le_bytes_def)

lemma of_le_bytes_le_bytes:
  assumes "LENGTH('a) = 8 * n"
  shows "of_le_bytes (le_bytes n (w :: 'a::len word)) = w"
proof (rule bit_word_eqI)
  fix i assume i: "i < LENGTH('a)"
  then have "i div 8 < n" using assms by auto
  then have "bit (le_bytes n w ! (i div 8)) (i mod 8) = bit w (8 * (i div 8) + i mod 8)"
    by (simp add: le_bytes_def bit_ucast_iff bit_drop_bit_eq)
  then show "bit (of_le_bytes (le_bytes n w) :: 'a word) i = bit w i"
    using i assms by (simp add: bit_of_le_bytes)
qed

section \<open>The reader\<close>

datatype ser_error =
    Unexpected_end | Span_exceeds_data | Size_mismatch
  | String_limit | Byte_vector_limit | Vector_limit
  | Invalid_magic | Item_count_limit | Type_mismatch u32 | Unsupported_version u32 | Invalid_header_size
  | Checksum_mismatch | Cms_words_limit | Num_shards_mismatch | Patch_out_of_bounds

record binary_reader =
  rd_data :: bytes
  rd_pos :: nat

type_synonym 'a parser = "binary_reader \<Rightarrow> ser_error + ('a \<times> binary_reader)"

definition reader :: "bytes \<Rightarrow> binary_reader" where
  "reader data = \<lparr>rd_data = data, rd_pos = 0\<rparr>"

definition yield :: "'a \<Rightarrow> 'a parser" where "yield x r = Inr (x, r)"

definition and_then :: "'a parser \<Rightarrow> ('a \<Rightarrow> 'b parser) \<Rightarrow> 'b parser" where
  "and_then p f r = (case p r of Inl e \<Rightarrow> Inl e | Inr (x, r) \<Rightarrow> f x r)"

definition require :: "bool \<Rightarrow> ser_error \<Rightarrow> 'b parser \<Rightarrow> 'b parser" where
  "require c e p r = (if c then p r else Inl e)"

definition read_bytes :: "nat \<Rightarrow> bytes parser" where
  "read_bytes n r =
     (if rd_pos r + n > length (rd_data r) then Inl Unexpected_end
      else Inr (take n (drop (rd_pos r) (rd_data r)), r\<lparr>rd_pos := rd_pos r + n\<rparr>))"

definition read_u8 :: "u8 parser" where "read_u8 = and_then (read_bytes 1) (\<lambda>bs. yield (of_le_bytes bs))"
definition read_u32 :: "u32 parser" where "read_u32 = and_then (read_bytes 4) (\<lambda>bs. yield (of_le_bytes bs))"
definition read_u64 :: "u64 parser" where "read_u64 = and_then (read_bytes 8) (\<lambda>bs. yield (of_le_bytes bs))"

definition read_span :: "bytes parser" where
  "read_span = and_then read_u32 (\<lambda>len r.
     if rd_pos r + unat len > length (rd_data r) then Inl Span_exceeds_data
     else Inr (take (unat len) (drop (rd_pos r) (rd_data r)), r\<lparr>rd_pos := rd_pos r + unat len\<rparr>))"

definition reader_eof :: "binary_reader \<Rightarrow> bool" where "reader_eof r \<longleftrightarrow> rd_pos r \<ge> length (rd_data r)"
definition remaining :: "binary_reader \<Rightarrow> nat" where
  "remaining r = (if length (rd_data r) > rd_pos r then length (rd_data r) - rd_pos r else 0)"

primrec read_n :: "nat \<Rightarrow> 'a parser \<Rightarrow> 'a list parser" where
  "read_n 0 p = yield []"
| "read_n (Suc n) p = and_then p (\<lambda>x. and_then (read_n n p) (\<lambda>xs. yield (x # xs)))"

section \<open>The writer\<close>

definition write_bytes :: "bytes \<Rightarrow> bytes \<Rightarrow> bytes" where "write_bytes bs w = w @ bs"
definition write_u8 :: "u8 \<Rightarrow> bytes \<Rightarrow> bytes" where "write_u8 v = write_bytes (le_bytes 1 v)"
definition write_u32 :: "u32 \<Rightarrow> bytes \<Rightarrow> bytes" where "write_u32 v = write_bytes (le_bytes 4 v)"
definition write_u64 :: "u64 \<Rightarrow> bytes \<Rightarrow> bytes" where "write_u64 v = write_bytes (le_bytes 8 v)"

definition write_span :: "bytes \<Rightarrow> bytes \<Rightarrow> bytes" where
  "write_span data w = write_bytes data (write_u32 (of_nat (length data)) w)"

definition patch_at :: "nat \<Rightarrow> u32 \<Rightarrow> bytes \<Rightarrow> ser_error + bytes" where
  "patch_at off v w =
     (if off + 4 > length w then Inl Patch_out_of_bounds
      else Inr (take off w @ le_bytes 4 v @ drop (off + 4) w))"

section \<open>Keys and values\<close>

text \<open>
  The types that have an encoding, as the overloads of \<^verbatim>\<open>serde_write\<close> and \<^verbatim>\<open>serde_read\<close> have them, and their values. A
  value of a trivially copyable type is its bytes.
\<close>

datatype serde_type =
    String_type | Byte_vector_type | Pair_type serde_type serde_type | Vector_type serde_type
  | Optional_type serde_type | Trivial_type nat

datatype serde_value =
    String_value bytes | Byte_vector_value bytes | Pair_value serde_value serde_value | Vector_value "serde_value list"
  | Optional_value "serde_value option" | Trivial_value bytes

primrec serde_write :: "serde_value \<Rightarrow> bytes \<Rightarrow> bytes" where
  "serde_write (String_value s) = (\<lambda>w. write_bytes s (write_u32 (of_nat (length s)) w))"
| "serde_write (Byte_vector_value v) = (\<lambda>w. write_bytes v (write_u32 (of_nat (length v)) w))"
| "serde_write (Pair_value a b) = (\<lambda>w. serde_write b (serde_write a w))"
| "serde_write (Vector_value vs) = (\<lambda>w. fold (\<lambda>f w. f w) (map serde_write vs) (write_u32 (of_nat (length vs)) w))"
| "serde_write (Optional_value x) = (\<lambda>w. case map_option serde_write x of
     None \<Rightarrow> write_u8 0 w | Some f \<Rightarrow> f (write_u8 1 w))"
| "serde_write (Trivial_value bs) = (\<lambda>w. write_bytes bs (write_u32 (of_nat (length bs)) w))"

primrec serde_read :: "serde_type \<Rightarrow> serde_value parser" where
  "serde_read String_type = and_then read_u32 (\<lambda>len. require (\<not> len > 1000000) String_limit
     (and_then (if len > 0 then read_bytes (unat len) else yield []) (\<lambda>s. yield (String_value s))))"
| "serde_read Byte_vector_type = and_then read_u32 (\<lambda>len. require (\<not> len > 100000000) Byte_vector_limit
     (and_then (if len > 0 then read_bytes (unat len) else yield []) (\<lambda>v. yield (Byte_vector_value v))))"
| "serde_read (Pair_type a b) = and_then (serde_read a) (\<lambda>x. and_then (serde_read b) (\<lambda>y. yield (Pair_value x y)))"
| "serde_read (Vector_type t) = and_then read_u32 (\<lambda>n. require (\<not> n > 10000000) Vector_limit
     (and_then (read_n (unat n) (serde_read t)) (\<lambda>xs. yield (Vector_value xs))))"
| "serde_read (Optional_type t) = and_then read_u8 (\<lambda>has.
     if has \<noteq> 0 then and_then (serde_read t) (\<lambda>x. yield (Optional_value (Some x))) else yield (Optional_value None))"
| "serde_read (Trivial_type n) = and_then read_u32 (\<lambda>len. require (len = of_nat n) Size_mismatch
     (and_then (read_bytes n) (\<lambda>bs. yield (Trivial_value bs))))"

text \<open>A value of a type that is within the limits of the reader.\<close>

primrec serde_fits :: "serde_type \<Rightarrow> serde_value \<Rightarrow> bool" where
  "serde_fits String_type v \<longleftrightarrow> (case v of String_value s \<Rightarrow> length s \<le> 1000000 | _ \<Rightarrow> False)"
| "serde_fits Byte_vector_type v \<longleftrightarrow> (case v of Byte_vector_value b \<Rightarrow> length b \<le> 100000000 | _ \<Rightarrow> False)"
| "serde_fits (Pair_type s t) v \<longleftrightarrow> (case v of Pair_value a b \<Rightarrow> serde_fits s a \<and> serde_fits t b | _ \<Rightarrow> False)"
| "serde_fits (Vector_type t) v \<longleftrightarrow>
     (case v of Vector_value xs \<Rightarrow> length xs \<le> 10000000 \<and> list_all (serde_fits t) xs | _ \<Rightarrow> False)"
| "serde_fits (Optional_type t) v \<longleftrightarrow>
     (case v of Optional_value x \<Rightarrow> (case x of None \<Rightarrow> True | Some y \<Rightarrow> serde_fits t y) | _ \<Rightarrow> False)"
| "serde_fits (Trivial_type n) v \<longleftrightarrow> (case v of Trivial_value bs \<Rightarrow> length bs = n \<and> n < 2 ^ 32 | _ \<Rightarrow> False)"

section \<open>The parts of a snapshot\<close>

definition kSerializationMagic :: u32 where "kSerializationMagic = 0x5355524C"
definition kSerializationVersion :: u32 where "kSerializationVersion = 5"
definition kV5HeaderSize :: u32 where "kV5HeaderSize = 36"

datatype mm_type_id = Lru | Two_q | Tiny_lfu | W_tiny_lfu | Fifo | Sharded_lru

fun type_code :: "mm_type_id \<Rightarrow> u32" where
  "type_code Lru = 0" | "type_code Two_q = 1" | "type_code Tiny_lfu = 2" | "type_code W_tiny_lfu = 3"
| "type_code Fifo = 4" | "type_code Sharded_lru = 5"

record serialized_mm_config =
  sc_lru_refresh_time :: u32
  sc_lru_refresh_ratio :: u64
  sc_update_on_write :: bool
  sc_update_on_read :: bool
  sc_try_lock_update :: bool
  sc_lru_insertion_point_spec :: u8
  sc_mm_reconfigure_interval_secs :: u32
  sc_hot_ratio :: u64
  sc_warm_ratio :: u64
  sc_rebalance_on_record_access :: bool
  sc_cms_window_multiplier :: u32
  sc_cms_error_threshold :: u64
  sc_cms_hash_count :: u32

definition write_bool :: "bool \<Rightarrow> bytes \<Rightarrow> bytes" where "write_bool b = write_u8 (if b then 1 else 0)"
definition read_bool :: "bool parser" where "read_bool = and_then read_u8 (\<lambda>x. yield (x \<noteq> 0))"

definition config_write :: "serialized_mm_config \<Rightarrow> bytes \<Rightarrow> bytes" where
  "config_write c w =
     (let w = write_u32 (sc_lru_refresh_time c) w;
          w = write_u64 (sc_lru_refresh_ratio c) w;
          w = write_bool (sc_update_on_write c) w;
          w = write_bool (sc_update_on_read c) w;
          w = write_bool (sc_try_lock_update c) w;
          w = write_u8 (sc_lru_insertion_point_spec c) w;
          w = write_u32 (sc_mm_reconfigure_interval_secs c) w;
          w = write_u64 (sc_hot_ratio c) w;
          w = write_u64 (sc_warm_ratio c) w;
          w = write_bool (sc_rebalance_on_record_access c) w;
          w = write_u32 (sc_cms_window_multiplier c) w;
          w = write_u64 (sc_cms_error_threshold c) w
      in write_u32 (sc_cms_hash_count c) w)"

definition config_read :: "serialized_mm_config parser" where
  "config_read =
     and_then read_u32 (\<lambda>refresh. and_then read_u64 (\<lambda>ratio. and_then read_bool (\<lambda>on_write.
     and_then read_bool (\<lambda>on_read. and_then read_bool (\<lambda>try_lock. and_then read_u8 (\<lambda>spec.
     and_then read_u32 (\<lambda>interval. and_then read_u64 (\<lambda>hot. and_then read_u64 (\<lambda>warm.
     and_then read_bool (\<lambda>rebalance. and_then read_u32 (\<lambda>window. and_then read_u64 (\<lambda>threshold.
     and_then read_u32 (\<lambda>hashes.
       yield \<lparr>sc_lru_refresh_time = refresh, sc_lru_refresh_ratio = ratio, sc_update_on_write = on_write,
         sc_update_on_read = on_read, sc_try_lock_update = try_lock, sc_lru_insertion_point_spec = spec,
         sc_mm_reconfigure_interval_secs = interval, sc_hot_ratio = hot, sc_warm_ratio = warm,
         sc_rebalance_on_record_access = rebalance, sc_cms_window_multiplier = window,
         sc_cms_error_threshold = threshold, sc_cms_hash_count = hashes\<rparr>)))))))))))))"

type_synonym stored_item = "(serde_value, serde_value) serialized_item"

definition item_write :: "stored_item \<Rightarrow> bytes \<Rightarrow> bytes" where
  "item_write i w =
     (let w = serde_write (si_key i) w;
          w = serde_write (si_value i) w;
          w = write_u32 (si_update_time i) w;
          w = write_u8 (si_flags i) w
      in write_u8 (si_queue_id i) w)"

definition item_read :: "serde_type \<Rightarrow> serde_type \<Rightarrow> stored_item parser" where
  "item_read kt vt =
     and_then (serde_read kt) (\<lambda>k. and_then (serde_read vt) (\<lambda>v. and_then read_u32 (\<lambda>t.
     and_then read_u8 (\<lambda>f. and_then read_u8 (\<lambda>q.
       yield \<lparr>si_key = k, si_value = v, si_update_time = t, si_flags = f, si_queue_id = q\<rparr>)))))"

record serialized_list_state =
  ls_insertion_point_pos :: u32
  ls_tail_size :: u32

definition list_state_default :: serialized_list_state where
  "list_state_default = \<lparr>ls_insertion_point_pos = - 1, ls_tail_size = 0\<rparr>"

definition list_state_write :: "serialized_list_state \<Rightarrow> bytes \<Rightarrow> bytes" where
  "list_state_write l w =
     (let w = write_u32 (ls_insertion_point_pos l) w;
          w = write_u32 (ls_tail_size l) w;
          w = write_u32 0 w;
          w = write_u32 0 w
      in write_u32 0 w)"

definition list_state_read :: "serialized_list_state parser" where
  "list_state_read =
     and_then read_u32 (\<lambda>pos. and_then read_u32 (\<lambda>tail.
     and_then read_u32 (\<lambda>_. and_then read_u32 (\<lambda>_. and_then read_u32 (\<lambda>_.
       yield \<lparr>ls_insertion_point_pos = pos, ls_tail_size = tail\<rparr>)))))"

section \<open>Writing\<close>

record cache_snapshot =
  sn_type :: mm_type_id
  sn_feature_flags :: u64
  sn_config :: serialized_mm_config
  sn_list_state :: serialized_list_state
  sn_cms_state :: "u32 list"
  sn_items :: "stored_item list"

definition write_header :: "u32 \<Rightarrow> mm_type_id \<Rightarrow> u64 \<Rightarrow> bytes \<Rightarrow> bytes" where
  "write_header n type features w =
     (let w = write_u32 kSerializationMagic w;
          w = write_u32 kSerializationVersion w;
          w = write_u32 n w;
          w = write_u32 (type_code type) w;
          w = write_u32 kV5HeaderSize w;
          w = write_u32 0 w
      in write_u64 features w)"

text \<open>The placeholder for the checksum is written at \<open>off\<close>; everything after it is hashed.\<close>

definition patch_checksum :: "nat \<Rightarrow> bytes \<Rightarrow> ser_error + bytes" where
  "patch_checksum off w = patch_at off (crc32 (drop (off + 4) w)) w"

definition cms_write :: "u32 list \<Rightarrow> bytes \<Rightarrow> bytes" where
  "cms_write ws w = fold write_u32 ws (write_u32 (of_nat (length ws)) w)"

definition extra_write :: "cache_snapshot \<Rightarrow> bytes \<Rightarrow> bytes" where
  "extra_write sn =
     (if sn_type sn = Lru \<or> sn_type sn = Sharded_lru then list_state_write (sn_list_state sn)
      else if sn_type sn = Tiny_lfu \<or> sn_type sn = W_tiny_lfu then cms_write (sn_cms_state sn)
      else (\<lambda>w. w))"

definition serialize_from_snapshot :: "cache_snapshot \<Rightarrow> ser_error + bytes" where
  "serialize_from_snapshot sn =
     (let w = write_header (of_nat (length (sn_items sn))) (sn_type sn) (sn_feature_flags sn) [];
          checksum_offset = length w;
          w = write_u32 0 w;
          w = config_write (sn_config sn) w;
          w = extra_write sn w;
          w = fold item_write (sn_items sn) w
      in patch_checksum checksum_offset w)"

text \<open>
  \<^verbatim>\<open>serialize_impl\<close> for a strategy of size \<open>n\<close>: the configuration and the extra state are written by its arguments, the
  items are those the iterator visits.
\<close>

definition serialize_impl ::
  "nat \<Rightarrow> mm_type_id \<Rightarrow> u64 \<Rightarrow> serialized_mm_config \<Rightarrow> (bytes \<Rightarrow> bytes) \<Rightarrow> stored_item list \<Rightarrow> ser_error + bytes" where
  "serialize_impl n type features cfg write_extra items =
     (let w = write_header (of_nat n) type features [];
          checksum_offset = length w;
          w = write_u32 0 w;
          w = config_write cfg w;
          w = write_extra w;
          w = fold item_write items w
      in patch_checksum checksum_offset w)"

section \<open>Parsing\<close>

record parsed_deserialization_data =
  pd_feature_flags :: u64
  pd_config :: serialized_mm_config
  pd_list_state :: serialized_list_state
  pd_cms_state :: "u32 list"
  pd_items :: "stored_item list"

definition cms_read :: "u32 list parser" where
  "cms_read = and_then read_u32 (\<lambda>n. require (\<not> n > 1000000) Cms_words_limit (read_n (unat n) read_u32))"

definition extra_read :: "mm_type_id \<Rightarrow> (serialized_list_state \<times> u32 list) parser" where
  "extra_read type =
     (if type = Lru \<or> type = Sharded_lru then and_then list_state_read (\<lambda>l. yield (l, []))
      else if type = Tiny_lfu \<or> type = W_tiny_lfu then and_then cms_read (\<lambda>ws. yield (list_state_default, ws))
      else yield (list_state_default, []))"

definition body_read ::
  "serde_type \<Rightarrow> serde_type \<Rightarrow> mm_type_id \<Rightarrow> u64 \<Rightarrow> u32 \<Rightarrow> parsed_deserialization_data parser" where
  "body_read kt vt type features n =
     and_then config_read (\<lambda>cfg. and_then (extra_read type) (\<lambda>(l, ws).
     and_then (read_n (unat n) (item_read kt vt)) (\<lambda>items.
       yield \<lparr>pd_feature_flags = features, pd_config = cfg, pd_list_state = l, pd_cms_state = ws, pd_items = items\<rparr>)))"

text \<open>
  The two checks of the header that depend on the whole input, that \<^verbatim>\<open>header_size\<close> is in range and the checksum, are
  arguments of \<open>parse_with\<close>.
\<close>

definition parse_with ::
  "(u32 \<Rightarrow> bool) \<Rightarrow> (u32 \<Rightarrow> u32 \<Rightarrow> bool) \<Rightarrow> serde_type \<Rightarrow> serde_type \<Rightarrow> mm_type_id \<Rightarrow> parsed_deserialization_data parser" where
  "parse_with size_ok sum_ok kt vt expected =
     and_then read_u32 (\<lambda>magic. require (magic = kSerializationMagic) Invalid_magic (
     and_then read_u32 (\<lambda>version.
     and_then read_u32 (\<lambda>item_count. require (\<not> item_count > 10000000) Item_count_limit (
     and_then read_u32 (\<lambda>mm_type. require (mm_type = type_code expected) (Type_mismatch mm_type) (
     require (version = kSerializationVersion) (Unsupported_version version) (
     and_then read_u32 (\<lambda>header_size. require (size_ok header_size) Invalid_header_size (
     and_then read_u32 (\<lambda>flags.
     and_then read_u64 (\<lambda>features.
     and_then read_u32 (\<lambda>stored_checksum. require (sum_ok header_size stored_checksum) Checksum_mismatch (
       body_read kt vt expected features item_count))))))))))))))"

definition header_size_ok :: "bytes \<Rightarrow> u32 \<Rightarrow> bool" where
  "header_size_ok data header_size \<longleftrightarrow> \<not> (header_size < kV5HeaderSize \<or> unat header_size > length data)"

definition checksum_ok :: "bytes \<Rightarrow> u32 \<Rightarrow> u32 \<Rightarrow> bool" where
  "checksum_ok data header_size stored \<longleftrightarrow> crc32 (drop (unat header_size) data) = stored"

definition parse_serialized_data ::
  "serde_type \<Rightarrow> serde_type \<Rightarrow> mm_type_id \<Rightarrow> bytes \<Rightarrow> ser_error + parsed_deserialization_data" where
  "parse_serialized_data kt vt expected data =
     (case parse_with (header_size_ok data) (checksum_ok data) kt vt expected (reader data) of
        Inl e \<Rightarrow> Inl e
      | Inr (d, _) \<Rightarrow> Inr d)"

section \<open>Inspecting a header\<close>

record serialization_header_info =
  hi_magic :: u32
  hi_version :: u32
  hi_item_count :: u32
  hi_mm_type :: u32
  hi_header_size :: u32
  hi_flags :: u32
  hi_feature_flags :: u64
  hi_checksum :: u32
  hi_computed_checksum :: u32
  hi_magic_ok :: bool
  hi_version_supported :: bool
  hi_checksum_ok :: bool
  hi_payload_offset :: nat

definition header_info_default :: serialization_header_info where
  "header_info_default = \<lparr>hi_magic = 0, hi_version = 0, hi_item_count = 0, hi_mm_type = 0, hi_header_size = 0, hi_flags = 0,
     hi_feature_flags = 0, hi_checksum = 0, hi_computed_checksum = 0, hi_magic_ok = False, hi_version_supported = False,
     hi_checksum_ok = False, hi_payload_offset = 0\<rparr>"

text \<open>The fixed field of \<open>n\<close> bytes at an offset; every read of the inspection is within the size it has checked.\<close>

definition field_at :: "nat \<Rightarrow> nat \<Rightarrow> bytes \<Rightarrow> 'a::len word" where
  "field_at off n data = of_le_bytes (take n (drop off data))"

definition inspect_serialization_header :: "bytes \<Rightarrow> serialization_header_info" where
  "inspect_serialization_header data =
     (let i = header_info_default in
      if length data < 8 then i
      else
        let i = i\<lparr>hi_magic := field_at 0 4 data\<rparr>;
            i = i\<lparr>hi_magic_ok := (hi_magic i = kSerializationMagic)\<rparr>;
            i = i\<lparr>hi_version := field_at 4 4 data\<rparr>;
            i = i\<lparr>hi_version_supported := (hi_version i = kSerializationVersion)\<rparr> in
        if \<not> hi_magic_ok i then i
        else if hi_version i \<noteq> kSerializationVersion then i\<lparr>hi_version_supported := False\<rparr>
        else if length data < unat kV5HeaderSize then i
        else
          let i = i\<lparr>hi_item_count := field_at 8 4 data\<rparr> in
          if hi_item_count i > 10000000 then i\<lparr>hi_version_supported := False\<rparr>
          else
            let i = i\<lparr>hi_mm_type := field_at 12 4 data, hi_header_size := field_at 16 4 data, hi_flags := field_at 20 4 data,
                      hi_feature_flags := field_at 24 8 data, hi_checksum := field_at 32 4 data\<rparr> in
            if hi_header_size i < kV5HeaderSize \<or> unat (hi_header_size i) > length data
            then i\<lparr>hi_version_supported := False\<rparr>
            else
              let i = i\<lparr>hi_payload_offset := unat (hi_header_size i),
                        hi_computed_checksum := crc32 (drop (unat (hi_header_size i)) data)\<rparr>
              in i\<lparr>hi_checksum_ok := (hi_computed_checksum i = hi_checksum i)\<rparr>)"

section \<open>The sharded format\<close>

definition serialize_sharded :: "bytes list \<Rightarrow> ser_error + bytes" where
  "serialize_sharded shards =
     (let w = write_header (of_nat (length shards)) Sharded_lru 0 [];
          checksum_offset = length w;
          w = write_u32 0 w;
          w = fold write_span shards w
      in patch_checksum checksum_offset w)"

definition shard_read :: "serde_type \<Rightarrow> serde_type \<Rightarrow> parsed_deserialization_data parser" where
  "shard_read kt vt = and_then read_span (\<lambda>span r.
     case parse_serialized_data kt vt Lru span of Inl e \<Rightarrow> Inl e | Inr d \<Rightarrow> Inr (d, r))"

definition parse_sharded ::
  "serde_type \<Rightarrow> serde_type \<Rightarrow> nat \<Rightarrow> bytes \<Rightarrow> ser_error + parsed_deserialization_data list" where
  "parse_sharded kt vt shards data =
     (case (and_then read_u32 (\<lambda>magic. require (magic = kSerializationMagic) Invalid_magic (
            and_then read_u32 (\<lambda>version. require (version = kSerializationVersion) (Unsupported_version version) (
            and_then read_u32 (\<lambda>num_shards.
            and_then read_u32 (\<lambda>mm_type. require (mm_type = type_code Sharded_lru) (Type_mismatch mm_type) (
            and_then read_u32 (\<lambda>header_size. require (header_size_ok data header_size) Invalid_header_size (
            and_then read_u32 (\<lambda>flags.
            and_then read_u64 (\<lambda>features.
            and_then read_u32 (\<lambda>stored. require (checksum_ok data header_size stored) Checksum_mismatch (
            require (unat num_shards = shards) Num_shards_mismatch (
              read_n (unat num_shards) (shard_read kt vt)))))))))))))))) (reader data) of
        Inl e \<Rightarrow> Inl e
      | Inr (ds, _) \<Rightarrow> Inr ds)"

section \<open>Reading back and streaming\<close>

text \<open>\<open>reads p bs x\<close>: wherever \<open>bs\<close> stands in the data, \<open>p\<close> consumes exactly \<open>bs\<close> and gives \<open>x\<close>.\<close>

definition reads :: "'a parser \<Rightarrow> bytes \<Rightarrow> 'a \<Rightarrow> bool" where
  "reads p bs x \<longleftrightarrow> (\<forall>pre post. p \<lparr>rd_data = pre @ bs @ post, rd_pos = length pre\<rparr> =
     Inr (x, \<lparr>rd_data = pre @ bs @ post, rd_pos = length pre + length bs\<rparr>))"

text \<open>A parser that succeeds does so on every extension of the data, with the same result and position.\<close>

definition streaming :: "'a parser \<Rightarrow> bool" where
  "streaming p \<longleftrightarrow> (\<forall>data pos x r. pos \<le> length data \<longrightarrow> p \<lparr>rd_data = data, rd_pos = pos\<rparr> = Inr (x, r) \<longrightarrow>
     rd_data r = data \<and> pos \<le> rd_pos r \<and> rd_pos r \<le> length data \<and>
     (\<forall>post. p \<lparr>rd_data = data @ post, rd_pos = pos\<rparr> = Inr (x, \<lparr>rd_data = data @ post, rd_pos = rd_pos r\<rparr>)))"

named_theorems reads_intros
named_theorems streaming_intros

lemma readsI:
  "(\<And>pre post. p \<lparr>rd_data = pre @ bs @ post, rd_pos = length pre\<rparr> =
     Inr (x, \<lparr>rd_data = pre @ bs @ post, rd_pos = length pre + length bs\<rparr>)) \<Longrightarrow> reads p bs x"
  by (simp add: reads_def)

lemma readsD:
  "reads p bs x \<Longrightarrow> p \<lparr>rd_data = pre @ bs @ post, rd_pos = length pre\<rparr> =
     Inr (x, \<lparr>rd_data = pre @ bs @ post, rd_pos = length pre + length bs\<rparr>)"
  by (simp add: reads_def)

lemma reads_yield [reads_intros]: "reads (yield x) [] x"
  by (simp add: reads_def yield_def)

lemma reads_then [reads_intros]:
  assumes "reads p a x" "reads (f x) b y"
  shows "reads (and_then p f) (a @ b) y"
proof (rule readsI)
  fix pre post
  show "and_then p f \<lparr>rd_data = pre @ (a @ b) @ post, rd_pos = length pre\<rparr> =
      Inr (y, \<lparr>rd_data = pre @ (a @ b) @ post, rd_pos = length pre + length (a @ b)\<rparr>)"
    using readsD [OF assms(1), of pre "b @ post"] readsD [OF assms(2), of "pre @ a" post]
    by (simp add: and_then_def add.assoc)
qed

lemma reads_map [reads_intros]: "reads p a x \<Longrightarrow> reads (and_then p (\<lambda>z. yield (g z))) a (g x)"
  using reads_then [of p a x "\<lambda>z. yield (g z)" "[]" "g x"] by (simp add: reads_yield)

lemma reads_require [reads_intros]: "c \<Longrightarrow> reads p b y \<Longrightarrow> reads (require c e p) b y"
  by (simp add: reads_def require_def)

lemma reads_bytes: "length bs = n \<Longrightarrow> reads (read_bytes n) bs bs"
  by (auto simp: reads_def read_bytes_def)

lemma streamingI:
  assumes "\<And>data pos x r. pos \<le> length data \<Longrightarrow> p \<lparr>rd_data = data, rd_pos = pos\<rparr> = Inr (x, r) \<Longrightarrow>
     rd_data r = data \<and> pos \<le> rd_pos r \<and> rd_pos r \<le> length data \<and>
     (\<forall>post. p \<lparr>rd_data = data @ post, rd_pos = pos\<rparr> = Inr (x, \<lparr>rd_data = data @ post, rd_pos = rd_pos r\<rparr>))"
  shows "streaming p"
  unfolding streaming_def using assms by blast

lemma streamingD:
  assumes "streaming p" "pos \<le> length data" "p \<lparr>rd_data = data, rd_pos = pos\<rparr> = Inr (x, r)"
  shows "r = \<lparr>rd_data = data, rd_pos = rd_pos r\<rparr>" "pos \<le> rd_pos r" "rd_pos r \<le> length data"
    "p \<lparr>rd_data = data @ post, rd_pos = pos\<rparr> = Inr (x, \<lparr>rd_data = data @ post, rd_pos = rd_pos r\<rparr>)"
proof -
  have "rd_data r = data \<and> pos \<le> rd_pos r \<and> rd_pos r \<le> length data \<and>
     (\<forall>post. p \<lparr>rd_data = data @ post, rd_pos = pos\<rparr> = Inr (x, \<lparr>rd_data = data @ post, rd_pos = rd_pos r\<rparr>))"
    using assms unfolding streaming_def by blast
  then show "r = \<lparr>rd_data = data, rd_pos = rd_pos r\<rparr>" "pos \<le> rd_pos r" "rd_pos r \<le> length data"
    "p \<lparr>rd_data = data @ post, rd_pos = pos\<rparr> = Inr (x, \<lparr>rd_data = data @ post, rd_pos = rd_pos r\<rparr>)"
    by simp_all
qed

lemma streaming_yield [streaming_intros]: "streaming (yield x)"
  by (auto simp: streaming_def yield_def)

lemma streaming_fail: "streaming (\<lambda>r. Inl e)"
  by (simp add: streaming_def)

lemma streaming_require [streaming_intros]: "streaming p \<Longrightarrow> streaming (require c e p)"
  by (cases c) (simp_all add: require_def [abs_def] streaming_fail)

lemma streaming_bytes [streaming_intros]: "streaming (read_bytes n)"
  by (auto simp: streaming_def read_bytes_def split: if_splits)

lemma streaming_then [streaming_intros]:
  assumes "streaming p" "\<And>x. streaming (f x)"
  shows "streaming (and_then p f)"
proof (rule streamingI)
  fix data pos y r
  assume l: "pos \<le> length data" and e: "and_then p f \<lparr>rd_data = data, rd_pos = pos\<rparr> = Inr (y, r)"
  obtain x q where q: "p \<lparr>rd_data = data, rd_pos = pos\<rparr> = Inr (x, q)" "f x q = Inr (y, r)"
    using e by (auto simp: and_then_def split: sum.splits prod.splits)
  note d = streamingD [OF assms(1) l q(1)]
  have fq: "f x \<lparr>rd_data = data, rd_pos = rd_pos q\<rparr> = Inr (y, r)" using q(2) d(1) by simp
  note d' = streamingD [OF assms(2) d(3) fq]
  have "and_then p f \<lparr>rd_data = data @ post, rd_pos = pos\<rparr> = Inr (y, \<lparr>rd_data = data @ post, rd_pos = rd_pos r\<rparr>)" for post
    using d(4) [of post] d'(4) [of post] by (simp add: and_then_def)
  moreover have "rd_data r = data" using d'(1) by (metis binary_reader.select_convs(1))
  ultimately show "rd_data r = data \<and> pos \<le> rd_pos r \<and> rd_pos r \<le> length data \<and>
     (\<forall>post. and_then p f \<lparr>rd_data = data @ post, rd_pos = pos\<rparr> = Inr (y, \<lparr>rd_data = data @ post, rd_pos = rd_pos r\<rparr>))"
    using d(2) d'(2,3) by simp
qed

lemma streaming_if [streaming_intros]: "streaming p \<Longrightarrow> streaming q \<Longrightarrow> streaming (if c then p else q)"
  by simp

lemma streaming_read_n [streaming_intros]: "streaming p \<Longrightarrow> streaming (read_n n p)"
  by (induction n) (auto intro!: streaming_intros)

section \<open>Codecs\<close>

text \<open>
  What every pair of a writer and a reader of the format promises: the writer only appends; what it writes for a value
  that fits is read back, and exactly consumed; the reader streams. Sequences then are read back too.
\<close>

locale codec =
  fixes encode :: "'a \<Rightarrow> bytes \<Rightarrow> bytes" and decode :: "'a parser" and fits :: "'a \<Rightarrow> bool"
  assumes appends: "encode x w = w @ encode x []"
    and reads_back: "fits x \<Longrightarrow> reads decode (encode x []) x"
    and streams: "streaming decode"
begin

lemma fold_appends: "fold encode xs w = w @ fold encode xs []"
proof (induction xs arbitrary: w)
  case (Cons x xs)
  show ?case using Cons [of "encode x w"] Cons [of "encode x []"] appends [of x w] by simp
qed simp

lemma reads_many: "list_all fits xs \<Longrightarrow> reads (read_n (length xs) decode) (fold encode xs []) xs"
proof (induction xs)
  case (Cons x xs)
  have "reads (and_then decode (\<lambda>x. and_then (read_n (length xs) decode) (\<lambda>xs. yield (x # xs))))
      (encode x [] @ fold encode xs []) (x # xs)"
    using Cons by (intro reads_then [OF reads_back] reads_map) auto
  then show ?case using fold_appends [of xs "encode x []"] by simp
qed (simp add: reads_yield)

lemma streams_many: "streaming (read_n n decode)"
  by (rule streaming_read_n [OF streams])

end

text \<open>The words.\<close>

lemma streaming_words [streaming_intros]: "streaming read_u8" "streaming read_u32" "streaming read_u64"
  unfolding read_u8_def read_u32_def read_u64_def by (intro streaming_intros)+

lemma reads_word:
  assumes "LENGTH('a) = 8 * n"
  shows "reads (and_then (read_bytes n) (\<lambda>bs. yield (of_le_bytes bs :: 'a::len word))) (le_bytes n w) w"
  using reads_map [OF reads_bytes [OF length_le_bytes], of n "of_le_bytes :: bytes \<Rightarrow> 'a word" w]
    of_le_bytes_le_bytes [OF assms, of w] by simp

lemma reads_words:
  "reads read_u8 (le_bytes 1 a) a" "reads read_u32 (le_bytes 4 b) b" "reads read_u64 (le_bytes 8 c) c"
  unfolding read_u8_def read_u32_def read_u64_def by (rule reads_word; simp)+

lemma written_words [simp]:
  "write_u8 a w = w @ le_bytes 1 a" "write_u32 b w = w @ le_bytes 4 b" "write_u64 c w = w @ le_bytes 8 c"
  "write_bytes bs w = w @ bs"
  by (simp_all add: write_u8_def write_u32_def write_u64_def write_bytes_def)

interpretation u32_codec: codec write_u32 read_u32 "\<lambda>_. True"
  by unfold_locales (simp_all add: reads_words streaming_words)

lemma reads_bool [reads_intros]: "reads read_bool (le_bytes 1 (if b then 1 else 0 :: u8)) b"
  using reads_map [OF reads_words(1), of "\<lambda>x. x \<noteq> 0" "if b then 1 else 0"] by (simp add: read_bool_def split: if_splits)

lemma streaming_bool [streaming_intros]: "streaming read_bool"
  unfolding read_bool_def by (intro streaming_intros)

lemmas word_reads = reads_words reads_bool

text \<open>The encodings of keys and values.\<close>

lemma length_limit: "length xs \<le> m \<Longrightarrow> m < 2 ^ 32 \<Longrightarrow> unat (of_nat (length xs) :: u32) = length xs"
  by (simp add: unat_of_nat)

lemma not_above:
  assumes "length xs \<le> m" "m < 2 ^ 32"
  shows "\<not> (of_nat (length xs) :: u32) > of_nat m"
  using assms length_limit [OF assms] by (simp add: word_less_nat_alt unat_of_nat)

lemma reads_counted:
  assumes "length bs \<le> m" "m < 2 ^ 32" "l = of_nat m"
  shows "reads (and_then read_u32 (\<lambda>len. require (\<not> len > l) e
     (and_then (if len > 0 then read_bytes (unat len) else yield []) (\<lambda>s. yield (g s)))))
     (le_bytes 4 (of_nat (length bs) :: u32) @ bs) (g bs)"
proof (intro reads_then [OF reads_words(2)] reads_require reads_map)
  show "\<not> (of_nat (length bs) :: u32) > l" using not_above [OF assms(1,2)] assms(3) by simp
  show "reads (if 0 < (of_nat (length bs) :: u32) then read_bytes (unat (of_nat (length bs) :: u32)) else yield []) bs bs"
  proof (cases "bs = []")
    case False
    have "unat (of_nat (length bs) :: u32) = length bs" by (rule length_limit [OF assms(1,2)])
    moreover from this have "0 < (of_nat (length bs) :: u32)" using False by (simp add: word_less_nat_alt)
    ultimately show ?thesis by (simp add: reads_bytes)
  qed (simp add: reads_yield)
qed

lemma fold_appending:
  assumes "\<And>f w. f \<in> set fs \<Longrightarrow> f w = w @ f []"
  shows "fold (\<lambda>f w. f w) fs w = w @ fold (\<lambda>f w. f w) fs ([] :: 'a list)"
  using assms
proof (induction fs arbitrary: w)
  case (Cons f fs)
  have ih: "fold (\<lambda>f w. f w) fs u = u @ fold (\<lambda>f w. f w) fs []" for u
    by (rule Cons.IH, rule Cons.prems) simp
  have "f w = w @ f []" by (rule Cons.prems) simp
  then show ?case using ih [of "f w"] ih [of "f []"] by (simp only: fold_simps append_assoc)
qed simp

lemma serde_appends: "serde_write v w = w @ serde_write v []"
proof (induction v arbitrary: w)
  case (Pair_value a b)
  show ?case using Pair_value(1) [of w] Pair_value(2) [of "serde_write a w"] Pair_value(2) [of "serde_write a []"] by simp
next
  case (Vector_value vs)
  have f: "fold (\<lambda>f w. f w) (map serde_write vs) u = u @ fold (\<lambda>f w. f w) (map serde_write vs) []" for u
    by (rule fold_appending) (use Vector_value in auto)
  show ?case
    using f [of "write_u32 (of_nat (length vs)) w"] f [of "write_u32 (of_nat (length vs)) []"]
    by (simp only: serde_write.simps written_words append_Nil append_assoc)
next
  case (Optional_value x)
  show ?case
  proof (cases x)
    case (Some y)
    have "serde_write y u = u @ serde_write y []" for u by (rule Optional_value) (simp add: Some)
    from this [of "write_u8 1 w"] this [of "write_u8 1 []"] show ?thesis
      by (simp only: Some serde_write.simps option.map option.case written_words append_Nil append_assoc)
  qed simp
qed simp_all

lemma fold_serde: "fold (\<lambda>f w. f w) (map serde_write vs) w = fold serde_write vs w"
  by (induction vs arbitrary: w) simp_all

lemma serde_streams: "streaming (serde_read t)"
  by (induction t) (auto intro!: streaming_intros)

lemma serde_reads_back: "serde_fits t v \<Longrightarrow> reads (serde_read t) (serde_write v []) v"
proof (induction t arbitrary: v)
  case String_type
  then obtain s where "v = String_value s" "length s \<le> 1000000" by (cases v) auto
  then show ?case using reads_counted [of s 1000000 1000000 String_limit String_value] by simp
next
  case Byte_vector_type
  then obtain s where "v = Byte_vector_value s" "length s \<le> 100000000" by (cases v) auto
  then show ?case using reads_counted [of s 100000000 100000000 Byte_vector_limit Byte_vector_value] by simp
next
  case (Pair_type s t)
  then obtain a b where v: "v = Pair_value a b" "serde_fits s a" "serde_fits t b" by (cases v) auto
  have "reads (and_then (serde_read s) (\<lambda>x. and_then (serde_read t) (\<lambda>y. yield (Pair_value x y))))
      (serde_write a [] @ serde_write b []) (Pair_value a b)"
    using Pair_type v by (intro reads_then [OF Pair_type(1)] reads_map [OF Pair_type(2)]) auto
  then show ?case using v(1) serde_appends [of b "serde_write a []"] by simp
next
  case (Vector_type t)
  then obtain xs where v: "v = Vector_value xs" "length xs \<le> 10000000" "list_all (serde_fits t) xs" by (cases v) auto
  have c: "codec serde_write (serde_read t) (serde_fits t)"
    by unfold_locales (rule serde_appends, rule Vector_type(1), assumption, rule serde_streams)
  have n: "unat (of_nat (length xs) :: u32) = length xs" by (rule length_limit [OF v(2)]) simp
  have "reads (and_then (read_n (length xs) (serde_read t)) (\<lambda>xs. yield (Vector_value xs))) (fold serde_write xs []) v"
    unfolding v(1) by (rule reads_map [OF codec.reads_many [OF c v(3)]])
  then have "reads (require (\<not> (of_nat (length xs) :: u32) > 10000000) Vector_limit
      (and_then (read_n (unat (of_nat (length xs) :: u32)) (serde_read t)) (\<lambda>xs. yield (Vector_value xs))))
      (fold serde_write xs []) v"
    unfolding n by (intro reads_require) (use not_above [OF v(2)] in simp)
  then have "reads (serde_read (Vector_type t)) (le_bytes 4 (of_nat (length xs) :: u32) @ fold serde_write xs []) v"
    unfolding serde_read.simps by (rule reads_then [OF reads_words(2)])
  then show ?case
    using codec.fold_appends [OF c, of xs "write_u32 (of_nat (length xs)) []"] by (simp add: v(1) fold_serde)
next
  case (Optional_type t)
  then obtain x where v: "v = Optional_value x" by (cases v) auto
  show ?case
  proof (cases x)
    case None
    have "reads (serde_read (Optional_type t)) (le_bytes 1 (0 :: u8) @ []) (Optional_value None)"
      unfolding serde_read.simps by (rule reads_then [OF reads_words(1)]) (simp add: reads_yield)
    then show ?thesis using v None by simp
  next
    case (Some y)
    then have y: "reads (serde_read t) (serde_write y []) y" using Optional_type v by simp
    have "reads (serde_read (Optional_type t)) (le_bytes 1 (1 :: u8) @ serde_write y []) (Optional_value (Some y))"
      unfolding serde_read.simps by (rule reads_then [OF reads_words(1)]) (use reads_map [OF y] in simp)
    then show ?thesis using serde_appends [of y "le_bytes 1 (1 :: u8)"] v Some by simp
  qed
next
  case (Trivial_type n)
  then obtain bs where v: "v = Trivial_value bs" "length bs = n" by (cases v) auto
  have "reads (serde_read (Trivial_type n)) (le_bytes 4 (of_nat (length bs) :: u32) @ bs) v"
    unfolding serde_read.simps v(1) by (intro reads_then [OF reads_words(2)] reads_require reads_map reads_bytes) (use v in auto)
  then show ?case by (simp add: v(1))
qed

interpretation serde_codec: codec serde_write "serde_read t" "serde_fits t" for t
  by unfold_locales (rule serde_appends, rule serde_reads_back, assumption, rule serde_streams)

text \<open>Configuration, list state and items.\<close>

lemmas written_simps = Let_def written_words write_bool_def append_assoc append_Nil append_Nil2

lemma config_reads_back: "reads config_read (config_write c []) c"
proof (cases c)
  case (fields a b c d e f g h i j k l m)
  show ?thesis
    unfolding fields config_write_def config_read_def by (simp only: written_simps serialized_mm_config.select_convs)
      (intro reads_then [OF reads_words(1)] reads_then [OF reads_words(2)] reads_then [OF reads_words(3)]
        reads_then [OF reads_bool] reads_map [OF reads_words(2)])
qed

interpretation config_codec: codec config_write config_read "\<lambda>_. True"
  by unfold_locales (simp add: config_write_def written_simps, rule config_reads_back,
    unfold config_read_def, intro streaming_intros)

lemma list_state_reads_back: "reads list_state_read (list_state_write l []) l"
proof (cases l)
  case (fields a b)
  show ?thesis
    unfolding fields list_state_write_def list_state_read_def
    by (simp only: written_simps serialized_list_state.select_convs)
      (intro reads_then [OF reads_words(2)] reads_map [OF reads_words(2)])
qed

interpretation list_state_codec: codec list_state_write list_state_read "\<lambda>_. True"
  by unfold_locales (simp add: list_state_write_def written_simps, rule list_state_reads_back,
    unfold list_state_read_def, intro streaming_intros)

definition item_fits :: "serde_type \<Rightarrow> serde_type \<Rightarrow> stored_item \<Rightarrow> bool" where
  "item_fits kt vt i \<longleftrightarrow> serde_fits kt (si_key i) \<and> serde_fits vt (si_value i)"

lemma item_written: "item_write i w = w @ serde_write (si_key i) [] @ serde_write (si_value i) [] @
    le_bytes 4 (si_update_time i) @ le_bytes 1 (si_flags i) @ le_bytes 1 (si_queue_id i)"
  using serde_appends [of "si_key i" w] serde_appends [of "si_value i" "serde_write (si_key i) w"]
  by (simp add: item_write_def Let_def)

lemma item_reads_back: "item_fits kt vt i \<Longrightarrow> reads (item_read kt vt) (item_write i []) i"
proof (cases i)
  case (fields k v t f q)
  assume "item_fits kt vt i"
  then have "reads (serde_read kt) (serde_write k []) k" "reads (serde_read vt) (serde_write v []) v"
    using fields by (simp_all add: item_fits_def serde_reads_back)
  then show ?thesis
    unfolding fields item_written item_read_def by (simp only: append_Nil serialized_item.select_convs)
      (rule reads_then, assumption, rule reads_then, assumption, intro reads_then [OF reads_words(1)]
        reads_then [OF reads_words(2)] reads_map [OF reads_words(1)])
qed

interpretation item_codec: codec item_write "item_read kt vt" "item_fits kt vt" for kt vt
  by unfold_locales (simp add: item_written, rule item_reads_back, assumption,
    unfold item_read_def, intro streaming_intros serde_streams)

end
