(* ===== verification/Snapshot.thy ===== *)
theory Snapshot
  imports Serialization Count_Min_Sketch
begin

text \<open>
  What the snapshot format guarantees: a snapshot within the limits is read back, a truncated one never is, and a burst of
  up to four changed bytes after the header is detected; and what it does not: the header itself is not protected, and
  the limits of the reader are below what the writer accepts.
\<close>

section \<open>Layout\<close>

definition header_bytes :: "u32 \<Rightarrow> mm_type_id \<Rightarrow> u64 \<Rightarrow> bytes" where
  "header_bytes n type features = le_bytes 4 kSerializationMagic @ le_bytes 4 kSerializationVersion @ le_bytes 4 n @
     le_bytes 4 (type_code type) @ le_bytes 4 kV5HeaderSize @ le_bytes 4 (0 :: u32) @ le_bytes 8 features"

definition body_bytes :: "cache_snapshot \<Rightarrow> bytes" where
  "body_bytes sn = config_write (sn_config sn) [] @ extra_write sn [] @ fold item_write (sn_items sn) []"

lemma length_header_bytes [simp]: "length (header_bytes n type f) = 32"
  by (simp add: header_bytes_def)

lemma written_header: "write_header n type f w = w @ header_bytes n type f"
  by (simp add: write_header_def header_bytes_def Let_def)

lemma patched:
  assumes "length h = off"
  shows "patch_checksum off (h @ le_bytes 4 (0 :: u32) @ body) = Inr (h @ le_bytes 4 (crc32 body) @ body)"
  using assms by (simp add: patch_checksum_def patch_at_def)

lemma cms_written: "cms_write ws w = w @ le_bytes 4 (of_nat (length ws) :: u32) @ fold write_u32 ws []"
  using u32_codec.fold_appends [of ws "write_u32 (of_nat (length ws)) w"] by (simp add: cms_write_def)

lemma extra_appends: "extra_write sn w = w @ extra_write sn []"
  using list_state_codec.appends [of "sn_list_state sn" w] cms_written [of "sn_cms_state sn" w] cms_written [of "sn_cms_state sn" "[]"]
  by (simp add: extra_write_def)

lemma serialized_snapshot:
  "serialize_from_snapshot sn = Inr (header_bytes (of_nat (length (sn_items sn))) (sn_type sn) (sn_feature_flags sn) @
     le_bytes 4 (crc32 (body_bytes sn)) @ body_bytes sn)"
proof -
  let ?h = "header_bytes (of_nat (length (sn_items sn))) (sn_type sn) (sn_feature_flags sn)"
  let ?w = "config_write (sn_config sn) (?h @ le_bytes 4 (0 :: u32))"
  have "fold item_write (sn_items sn) (extra_write sn ?w) = ?h @ le_bytes 4 (0 :: u32) @ body_bytes sn"
    using item_codec.fold_appends [of "sn_items sn" "extra_write sn ?w"] extra_appends [of sn ?w]
      config_codec.appends [of "sn_config sn" "?h @ le_bytes 4 (0 :: u32)"]
    by (simp only: body_bytes_def append_assoc)
  then show ?thesis
    using patched [of ?h 32 "body_bytes sn"]
    by (simp only: serialize_from_snapshot_def Let_def written_header append_Nil written_words length_header_bytes)
qed

text \<open>Collecting a snapshot and writing it later gives the bytes that writing the cache directly gives.\<close>

lemma snapshot_equals_direct:
  "serialize_from_snapshot sn = serialize_impl (length (sn_items sn)) (sn_type sn) (sn_feature_flags sn) (sn_config sn)
     (extra_write sn) (sn_items sn)"
  by (simp add: serialize_from_snapshot_def serialize_impl_def)

section \<open>Parsing a header\<close>

lemma reads_step:
  assumes "reads p a x" "drop pos data = a @ post" "pos \<le> length data"
  shows "and_then p f \<lparr>rd_data = data, rd_pos = pos\<rparr> = f x \<lparr>rd_data = data, rd_pos = pos + length a\<rparr>"
proof -
  have d: "data = take pos data @ a @ post" using assms(2) by (metis append_take_drop_id)
  have l: "length (take pos data) = pos" using assms(3) by simp
  have "p \<lparr>rd_data = data, rd_pos = pos\<rparr> = Inr (x, \<lparr>rd_data = data, rd_pos = pos + length a\<rparr>)"
    using readsD [OF assms(1), of "take pos data" post] unfolding l d [symmetric] .
  then show ?thesis by (simp add: and_then_def)
qed

lemma parse_header:
  assumes "data = header_bytes n type f @ le_bytes 4 stored @ rest"
  shows "parse_with so su kt vt type \<lparr>rd_data = data, rd_pos = 0\<rparr> =
    (if n > 10000000 then Inl Item_count_limit
     else if \<not> so kV5HeaderSize then Inl Invalid_header_size
     else if \<not> su kV5HeaderSize stored then Inl Checksum_mismatch
     else body_read kt vt type f n \<lparr>rd_data = data, rd_pos = 36\<rparr>)"
proof -
  have l: "length data = 36 + length rest" using assms by simp
  have d: "drop 0 data = le_bytes 4 kSerializationMagic @ drop 4 data"
    "drop 4 data = le_bytes 4 kSerializationVersion @ drop 8 data" "drop 8 data = le_bytes 4 n @ drop 12 data"
    "drop 12 data = le_bytes 4 (type_code type) @ drop 16 data" "drop 16 data = le_bytes 4 kV5HeaderSize @ drop 20 data"
    "drop 20 data = le_bytes 4 (0 :: u32) @ drop 24 data" "drop 24 data = le_bytes 8 f @ drop 32 data"
    "drop 32 data = le_bytes 4 stored @ drop 36 data"
    by (simp_all add: assms header_bytes_def)
  note s32 = reads_step [OF reads_words(2)] and s64 = reads_step [OF reads_words(3)]
  show ?thesis
    unfolding parse_with_def
    by (simp add: s32 [OF d(1)] s32 [OF d(2)] s32 [OF d(3)] s32 [OF d(4)] s32 [OF d(5)] s32 [OF d(6)] s64 [OF d(7)]
        s32 [OF d(8)] l require_def)
qed

lemma parse_layout:
  assumes "data = header_bytes n type f @ le_bytes 4 (crc32 (body @ rest)) @ body @ rest" "\<not> n > 10000000"
    "reads (body_read kt vt type f n) body d"
  shows "parse_with (header_size_ok data) (checksum_ok data) kt vt type (reader data) =
    Inr (d, \<lparr>rd_data = data, rd_pos = 36 + length body\<rparr>)"
proof -
  have h: "header_size_ok data kV5HeaderSize" by (simp add: header_size_ok_def kV5HeaderSize_def assms(1))
  have c: "checksum_ok data kV5HeaderSize (crc32 (body @ rest))"
    by (simp add: checksum_ok_def kV5HeaderSize_def assms(1))
  have "body_read kt vt type f n \<lparr>rd_data = data, rd_pos = 36\<rparr> = Inr (d, \<lparr>rd_data = data, rd_pos = 36 + length body\<rparr>)"
    using readsD [OF assms(3), of "header_bytes n type f @ le_bytes 4 (crc32 (body @ rest))" rest] assms(1) by simp
  then show ?thesis using parse_header [OF assms(1)] h c assms(2) by (simp add: reader_def)
qed

section \<open>Snapshots within the limits\<close>

definition snapshot_fits :: "serde_type \<Rightarrow> serde_type \<Rightarrow> cache_snapshot \<Rightarrow> bool" where
  "snapshot_fits kt vt sn \<longleftrightarrow> length (sn_items sn) \<le> 10000000 \<and> list_all (item_fits kt vt) (sn_items sn) \<and>
     (sn_type sn = Tiny_lfu \<or> sn_type sn = W_tiny_lfu \<longrightarrow> length (sn_cms_state sn) \<le> 1000000)"

text \<open>What a snapshot holds for its type; the other parts are not written.\<close>

definition snapshot_data :: "cache_snapshot \<Rightarrow> stored_item list \<Rightarrow> parsed_deserialization_data" where
  "snapshot_data sn items = \<lparr>pd_feature_flags = sn_feature_flags sn, pd_config = sn_config sn,
     pd_list_state = (if sn_type sn = Lru \<or> sn_type sn = Sharded_lru then sn_list_state sn else list_state_default),
     pd_cms_state = (if sn_type sn = Tiny_lfu \<or> sn_type sn = W_tiny_lfu then sn_cms_state sn else []),
     pd_items = items\<rparr>"

lemma reads_cms:
  assumes "length ws \<le> 1000000"
  shows "reads cms_read (cms_write ws []) ws"
proof -
  have "unat (of_nat (length ws) :: u32) = length ws" by (rule length_limit [OF assms]) simp
  then have "reads (require (\<not> (of_nat (length ws) :: u32) > 1000000) Cms_words_limit (read_n (unat (of_nat (length ws) :: u32)) read_u32))
      (fold write_u32 ws []) ws"
    using u32_codec.reads_many [of ws] not_above [OF assms] by (intro reads_require) (simp_all add: list_all_iff)
  then show ?thesis unfolding cms_read_def cms_written append_Nil by (rule reads_then [OF reads_words(2)])
qed

lemma reads_extra:
  assumes "sn_type sn = Tiny_lfu \<or> sn_type sn = W_tiny_lfu \<longrightarrow> length (sn_cms_state sn) \<le> 1000000"
  shows "reads (extra_read (sn_type sn)) (extra_write sn []) (pd_list_state (snapshot_data sn xs), pd_cms_state (snapshot_data sn xs))"
  using assms reads_map [OF reads_cms, of "sn_cms_state sn" "Pair list_state_default"]
    reads_map [OF list_state_reads_back, of "\<lambda>l. (l, [])" "sn_list_state sn"]
  by (auto simp: extra_read_def extra_write_def snapshot_data_def reads_yield)

lemma reads_body:
  assumes "snapshot_fits kt vt sn" "xs = take m (sn_items sn)" "m \<le> length (sn_items sn)"
  shows "reads (body_read kt vt (sn_type sn) (sn_feature_flags sn) (of_nat m))
    (config_write (sn_config sn) [] @ extra_write sn [] @ fold item_write xs []) (snapshot_data sn xs)"
proof -
  have m: "unat (of_nat m :: u32) = length xs"
    using assms by (simp add: snapshot_fits_def unat_of_nat)
  have i: "reads (read_n (length xs) (item_read kt vt)) (fold item_write xs []) xs"
    using assms by (intro item_codec.reads_many) (auto simp: snapshot_fits_def list_all_iff dest: in_set_takeD)
  let ?l = "pd_list_state (snapshot_data sn xs)" and ?c = "pd_cms_state (snapshot_data sn xs)"
  have "reads (case (?l, ?c) of (l, ws) \<Rightarrow> and_then (read_n (unat (of_nat m :: u32)) (item_read kt vt)) (\<lambda>items.
       yield \<lparr>pd_feature_flags = sn_feature_flags sn, pd_config = sn_config sn, pd_list_state = l, pd_cms_state = ws,
         pd_items = items\<rparr>)) (fold item_write xs []) (snapshot_data sn xs)"
    using reads_map [OF i, of "\<lambda>items. \<lparr>pd_feature_flags = sn_feature_flags sn, pd_config = sn_config sn,
      pd_list_state = ?l, pd_cms_state = ?c, pd_items = items\<rparr>"] by (simp add: m snapshot_data_def)
  moreover have "reads (extra_read (sn_type sn)) (extra_write sn []) (?l, ?c)"
    using assms(1) by (intro reads_extra) (simp add: snapshot_fits_def)
  ultimately show ?thesis
    unfolding body_read_def by (intro reads_then [OF config_reads_back] reads_then [where x = "(?l, ?c)"])
qed

lemma count_limit: "m \<le> 10000000 \<Longrightarrow> \<not> (of_nat m :: u32) > 10000000"
  by (simp add: word_less_nat_alt unat_of_nat)

lemma fold_item_split: "fold item_write (take m xs) [] @ fold item_write (drop m xs) [] = fold item_write xs []"
  by (metis append_take_drop_id fold_append comp_apply item_codec.fold_appends)

text \<open>A header that announces the first \<open>m\<close> items gives exactly those, whatever follows them.\<close>

lemma parse_snapshot:
  assumes "snapshot_fits kt vt sn" "m \<le> length (sn_items sn)"
    "data = header_bytes (of_nat m) (sn_type sn) (sn_feature_flags sn) @ le_bytes 4 (crc32 (body_bytes sn)) @ body_bytes sn"
  shows "\<exists>pos. parse_with (header_size_ok data) (checksum_ok data) kt vt (sn_type sn) (reader data) =
      Inr (snapshot_data sn (take m (sn_items sn)), \<lparr>rd_data = data, rd_pos = pos\<rparr>) \<and>
      (m = length (sn_items sn) \<longrightarrow> pos = length data)"
proof -
  let ?xs = "take m (sn_items sn)"
  let ?b = "config_write (sn_config sn) [] @ extra_write sn [] @ fold item_write ?xs []"
  let ?rest = "fold item_write (drop m (sn_items sn)) []"
  have b: "body_bytes sn = ?b @ ?rest" by (simp add: body_bytes_def fold_item_split)
  have "\<not> (of_nat m :: u32) > 10000000" using assms(1,2) by (intro count_limit) (simp add: snapshot_fits_def)
  then have "parse_with (header_size_ok data) (checksum_ok data) kt vt (sn_type sn) (reader data) =
      Inr (snapshot_data sn ?xs, \<lparr>rd_data = data, rd_pos = 36 + length ?b\<rparr>)"
    using reads_body [OF assms(1) refl assms(2)] assms(3) unfolding b by (intro parse_layout) auto
  moreover have "36 + length ?b = length data" if "m = length (sn_items sn)" using that by (simp add: assms(3) b)
  ultimately show ?thesis by blast
qed

section \<open>Truncated and corrupted data\<close>

lemma streaming_extra: "streaming (extra_read type)"
  unfolding extra_read_def list_state_read_def cms_read_def by (intro streaming_intros)

lemma streaming_body: "streaming (body_read kt vt type f n)"
  unfolding body_read_def by (auto intro!: streaming_intros streaming_extra config_codec.streams item_codec.streams split: prod.split)

lemma streaming_parse: "streaming (parse_with so su kt vt type)"
  unfolding parse_with_def by (intro streaming_intros streaming_body)

text \<open>The checks on the whole input only reject.\<close>

lemma parse_unchecked:
  assumes "parse_with so su kt vt type r = Inr y"
  shows "parse_with (\<lambda>_. True) (\<lambda>_ _. True) kt vt type r = Inr y"
  using assms unfolding parse_with_def
  by (auto simp: and_then_def require_def split: sum.splits prod.splits if_splits)

lemma parse_result: "parse_serialized_data kt vt type data = Inr d \<longleftrightarrow>
    (\<exists>r. parse_with (header_size_ok data) (checksum_ok data) kt vt type (reader data) = Inr (d, r))"
  by (auto simp: parse_serialized_data_def split: sum.splits)

section \<open>The sharded format\<close>

lemma span_written: "write_span bs w = w @ le_bytes 4 (of_nat (length bs) :: u32) @ bs"
  by (simp add: write_span_def)

lemma reads_span:
  assumes "length bs < 2 ^ 32"
  shows "reads read_span (write_span bs []) bs"
proof (rule readsI)
  fix pre post
  let ?l = "le_bytes 4 (of_nat (length bs) :: u32)"
  have "unat (of_nat (length bs) :: u32) = length bs" using assms by (simp add: unat_of_nat)
  then show "read_span \<lparr>rd_data = pre @ write_span bs [] @ post, rd_pos = length pre\<rparr> =
      Inr (bs, \<lparr>rd_data = pre @ write_span bs [] @ post, rd_pos = length pre + length (write_span bs [])\<rparr>)"
    unfolding read_span_def
    using readsD [OF reads_words(2) [of "of_nat (length bs)"], of pre "bs @ post"] by (simp add: and_then_def span_written)
qed

definition shard_pair_fits :: "serde_type \<Rightarrow> serde_type \<Rightarrow> bytes \<times> parsed_deserialization_data \<Rightarrow> bool" where
  "shard_pair_fits kt vt p \<longleftrightarrow> length (fst p) < 2 ^ 32 \<and> parse_serialized_data kt vt Lru (fst p) = Inr (snd p)"

lemma fold_span_appends: "fold write_span bss w = w @ fold write_span bss []"
proof (induction bss arbitrary: w)
  case (Cons b bss)
  show ?case using Cons [of "write_span b w"] Cons [of "write_span b []"] span_written [of b w] span_written [of b "[]"] by simp
qed simp

lemma reads_shards:
  "list_all (shard_pair_fits kt vt) ps \<Longrightarrow>
   reads (read_n (length ps) (shard_read kt vt)) (fold write_span (map fst ps) []) (map snd ps)"
proof (induction ps)
  case (Cons p ps)
  have "reads (shard_read kt vt) (write_span (fst p) []) (snd p)"
  proof -
    have "reads (and_then read_span (\<lambda>span r. case parse_serialized_data kt vt Lru span of Inl e \<Rightarrow> Inl e | Inr d \<Rightarrow> Inr (d, r)))
        (write_span (fst p) [] @ []) (snd p)"
      by (rule reads_then [OF reads_span]) (use Cons.prems in \<open>simp_all add: shard_pair_fits_def reads_def\<close>)
    then show ?thesis by (simp add: shard_read_def)
  qed
  moreover have "reads (and_then (read_n (length ps) (shard_read kt vt)) (\<lambda>xs. yield (snd p # xs)))
      (fold write_span (map fst ps) []) (snd p # map snd ps)"
    using Cons by (intro reads_map [where g = "\<lambda>xs. snd p # xs"]) auto
  ultimately have "reads (read_n (length (p # ps)) (shard_read kt vt)) (write_span (fst p) [] @ fold write_span (map fst ps) [])
      (snd p # map snd ps)"
    unfolding list.size read_n.simps add_0_right add_Suc_right by (rule reads_then)
  then show ?case using fold_span_appends [of "map fst ps" "write_span (fst p) []"] by simp
qed (simp add: reads_yield)

text \<open>The sharded snapshot gives back what its shards do.\<close>

lemma sharded_roundtrip:
  assumes "list_all (shard_pair_fits kt vt) ps" "length ps < 2 ^ 32"
  shows "\<exists>w. serialize_sharded (map fst ps) = Inr w \<and> parse_sharded kt vt (length ps) w = Inr (map snd ps)"
proof -
  let ?n = "of_nat (length ps) :: u32" and ?b = "fold write_span (map fst ps) []"
  let ?h = "header_bytes ?n Sharded_lru 0"
  define w where "w = ?h @ le_bytes 4 (crc32 ?b) @ ?b"
  have "fold write_span (map fst ps) (?h @ le_bytes 4 (0 :: u32)) = ?h @ le_bytes 4 (0 :: u32) @ ?b"
    using fold_span_appends [of "map fst ps" "?h @ le_bytes 4 (0 :: u32)"] by simp
  then have s: "serialize_sharded (map fst ps) = Inr w"
    using patched [of ?h 32 ?b] unfolding w_def
    by (simp only: serialize_sharded_def Let_def written_header append_Nil written_words length_header_bytes length_map)
  have l: "length w = 36 + length ?b" by (simp add: w_def)
  have d: "drop 0 w = le_bytes 4 kSerializationMagic @ drop 4 w"
    "drop 4 w = le_bytes 4 kSerializationVersion @ drop 8 w" "drop 8 w = le_bytes 4 ?n @ drop 12 w"
    "drop 12 w = le_bytes 4 (type_code Sharded_lru) @ drop 16 w" "drop 16 w = le_bytes 4 kV5HeaderSize @ drop 20 w"
    "drop 20 w = le_bytes 4 (0 :: u32) @ drop 24 w" "drop 24 w = le_bytes 8 (0 :: u64) @ drop 32 w"
    "drop 32 w = le_bytes 4 (crc32 ?b) @ drop 36 w"
    by (simp_all add: w_def header_bytes_def)
  have h: "header_size_ok w kV5HeaderSize" "checksum_ok w kV5HeaderSize (crc32 ?b)" "unat ?n = length ps"
    using assms(2) by (simp_all add: header_size_ok_def checksum_ok_def kV5HeaderSize_def w_def unat_of_nat)
  have r: "read_n (length ps) (shard_read kt vt) \<lparr>rd_data = w, rd_pos = 36\<rparr> =
      Inr (map snd ps, \<lparr>rd_data = w, rd_pos = 36 + length ?b\<rparr>)"
    using readsD [OF reads_shards [OF assms(1)], of "?h @ le_bytes 4 (crc32 ?b)" "[]"] by (simp add: w_def)
  note s32 = reads_step [OF reads_words(2)] and s64 = reads_step [OF reads_words(3)]
  have "parse_sharded kt vt (length ps) w = Inr (map snd ps)"
    unfolding parse_sharded_def reader_def
    by (simp add: s32 [OF d(1)] s32 [OF d(2)] s32 [OF d(3)] s32 [OF d(4)] s32 [OF d(5)] s32 [OF d(6)] s64 [OF d(7)]
        s32 [OF d(8)] l require_def h r)
  then show ?thesis using s by blast
qed

section \<open>Inspection\<close>

lemma field_at_read:
  assumes "drop off data = le_bytes n v @ post" "LENGTH('a) = 8 * n"
  shows "field_at off n data = (v :: 'a::len word)"
  using assms by (simp add: field_at_def of_le_bytes_le_bytes)

text \<open>The inspection accepts what was written.\<close>

lemma inspect_written:
  assumes "serialize_from_snapshot sn = Inr w" "length (sn_items sn) \<le> 10000000"
  shows "hi_checksum_ok (inspect_serialization_header w) \<and> hi_version_supported (inspect_serialization_header w) \<and>
    hi_mm_type (inspect_serialization_header w) = type_code (sn_type sn) \<and>
    hi_item_count (inspect_serialization_header w) = of_nat (length (sn_items sn)) \<and>
    hi_payload_offset (inspect_serialization_header w) = 36"
proof -
  let ?n = "of_nat (length (sn_items sn)) :: u32"
  have w: "w = header_bytes ?n (sn_type sn) (sn_feature_flags sn) @ le_bytes 4 (crc32 (body_bytes sn)) @ body_bytes sn"
    using assms(1) unfolding serialized_snapshot by simp
  have f: "field_at 0 4 w = kSerializationMagic" "field_at 4 4 w = kSerializationVersion" "field_at 8 4 w = ?n"
    "field_at 12 4 w = type_code (sn_type sn)" "field_at 16 4 w = kV5HeaderSize" "field_at 32 4 w = crc32 (body_bytes sn)"
    by (rule field_at_read [OF _]; simp add: w header_bytes_def)+
  have l: "length w = 36 + length (body_bytes sn)" "drop 36 w = body_bytes sn" by (simp_all add: w)
  show ?thesis
    unfolding inspect_serialization_header_def
    using count_limit [OF assms(2)] by (simp add: Let_def f l kV5HeaderSize_def)
qed

section \<open>Properties\<close>

text \<open>A small snapshot of an \<^verbatim>\<open>mm_lru\<close> with two items, integers as keys and strings as values.\<close>

definition small_snapshot :: cache_snapshot where
  "small_snapshot = \<lparr>sn_type = Lru, sn_feature_flags = 0,
     sn_config = \<lparr>sc_lru_refresh_time = 60, sc_lru_refresh_ratio = 0, sc_update_on_write = False, sc_update_on_read = True,
       sc_try_lock_update = True, sc_lru_insertion_point_spec = 0, sc_mm_reconfigure_interval_secs = 0, sc_hot_ratio = 0,
       sc_warm_ratio = 0, sc_rebalance_on_record_access = True, sc_cms_window_multiplier = 32, sc_cms_error_threshold = 5,
       sc_cms_hash_count = 4\<rparr>,
     sn_list_state = list_state_default, sn_cms_state = [],
     sn_items = [\<lparr>si_key = Trivial_value [1, 0, 0, 0], si_value = String_value [104, 105], si_update_time = 7, si_flags = 0,
         si_queue_id = 0\<rparr>,
       \<lparr>si_key = Trivial_value [2, 0, 0, 0], si_value = String_value [], si_update_time = 3, si_flags = 2, si_queue_id = 0\<rparr>]\<rparr>"

lemma small_snapshot_fits: "snapshot_fits (Trivial_type 4) String_type small_snapshot"
  by (simp add: snapshot_fits_def small_snapshot_def item_fits_def)

lemma small_snapshot_long: "36 < length (header_bytes n type f @ le_bytes 4 (crc32 (body_bytes sn)) @ body_bytes sn)"
  by (simp add: body_bytes_def config_write_def Let_def write_bool_def)

lemma small_snapshot_parts:
  "\<exists>p b s. serialize_from_snapshot small_snapshot = Inr (p @ [b] @ s) \<and> length p = 36"
proof -
  obtain w where w: "serialize_from_snapshot small_snapshot = Inr w" "36 < length w"
    unfolding serialized_snapshot using small_snapshot_long by blast
  have "w = take 36 w @ [w ! 36] @ drop 37 w" using id_take_nth_drop [OF w(2)] by simp
  then show ?thesis using w by (intro exI [of _ "take 36 w"] exI [of _ "w ! 36"] exI [of _ "drop 37 w"]) simp
qed

text \<open>
  C11. Round trip: a snapshot of any strategy whose keys, values, items and sketch are within the limits of the reader is
  written and parsed back to the same configuration, list state or sketch, and items in the same order.
\<close>

theorem snapshot_roundtrip:
  assumes "snapshot_fits kt vt sn"
  shows "\<exists>w. serialize_from_snapshot sn = Inr w \<and>
    parse_serialized_data kt vt (sn_type sn) w = Inr (snapshot_data sn (sn_items sn))"
proof -
  let ?w = "header_bytes (of_nat (length (sn_items sn))) (sn_type sn) (sn_feature_flags sn) @
     le_bytes 4 (crc32 (body_bytes sn)) @ body_bytes sn"
  have "parse_serialized_data kt vt (sn_type sn) ?w = Inr (snapshot_data sn (sn_items sn))"
    unfolding parse_result using parse_snapshot [OF assms order_refl refl] by auto
  then show ?thesis using serialized_snapshot [of sn] by blast
qed

theorem snapshot_roundtrip_witness:
  "\<exists>w. serialize_from_snapshot small_snapshot = Inr w \<and>
    parse_serialized_data (Trivial_type 4) String_type Lru w = Inr (snapshot_data small_snapshot (sn_items small_snapshot))"
  using snapshot_roundtrip [OF small_snapshot_fits] by (simp add: small_snapshot_def)

text \<open>
  C36. A truncated snapshot is never accepted: every proper prefix of a written snapshot is rejected with an error, even if
  its checksum happens to agree.
\<close>

theorem truncated_snapshot_rejected:
  assumes "snapshot_fits kt vt sn" "serialize_from_snapshot sn = Inr (p @ e)" "e \<noteq> []"
  shows "\<exists>err. parse_serialized_data kt vt (sn_type sn) p = Inl err"
proof (cases "parse_serialized_data kt vt (sn_type sn) p")
  case (Inr d)
  let ?all = "parse_with (\<lambda>_. True) (\<lambda>_ _. True) kt vt (sn_type sn)"
  obtain r where "parse_with (header_size_ok p) (checksum_ok p) kt vt (sn_type sn) (reader p) = Inr (d, r)"
    using Inr unfolding parse_result by blast
  then have r: "?all \<lparr>rd_data = p, rd_pos = 0\<rparr> = Inr (d, r)" unfolding reader_def by (rule parse_unchecked)
  note s = streamingD [OF streaming_parse le0 r]
  have w: "p @ e = header_bytes (of_nat (length (sn_items sn))) (sn_type sn) (sn_feature_flags sn) @
     le_bytes 4 (crc32 (body_bytes sn)) @ body_bytes sn"
    using assms(2) unfolding serialized_snapshot by simp
  obtain d' where "parse_with (header_size_ok (p @ e)) (checksum_ok (p @ e)) kt vt (sn_type sn) (reader (p @ e)) =
      Inr (d', \<lparr>rd_data = p @ e, rd_pos = length (p @ e)\<rparr>)"
    using parse_snapshot [OF assms(1) order_refl w] by auto
  then have "?all \<lparr>rd_data = p @ e, rd_pos = 0\<rparr> = Inr (d', \<lparr>rd_data = p @ e, rd_pos = length (p @ e)\<rparr>)"
    unfolding reader_def by (rule parse_unchecked)
  then have "rd_pos r = length (p @ e)" using s(4) [of e] by simp
  then show ?thesis using s(3) assms(3) by simp
qed blast

theorem truncated_snapshot_rejected_witness:
  "\<exists>p e err. serialize_from_snapshot small_snapshot = Inr (p @ e) \<and> e \<noteq> [] \<and> length p = 36 \<and>
     parse_serialized_data (Trivial_type 4) String_type Lru p = Inl err"
proof -
  obtain p b s where p: "serialize_from_snapshot small_snapshot = Inr (p @ [b] @ s)" "length p = 36"
    using small_snapshot_parts by blast
  have "sn_type small_snapshot = Lru" by (simp add: small_snapshot_def)
  then show ?thesis using truncated_snapshot_rejected [OF small_snapshot_fits p(1)] p by fastforce
qed

text \<open>
  C37. Corruption after the header is detected: if up to four consecutive bytes after the 36 bytes of the header of a
  written snapshot are changed, parsing it fails with the checksum error.
\<close>

theorem payload_burst_detected:
  assumes "length (sn_items sn) \<le> 10000000" "serialize_from_snapshot sn = Inr (p @ xs @ s)" "36 \<le> length p"
    "length xs = length ys" "length xs \<le> 4" "xs \<noteq> ys"
  shows "parse_serialized_data kt vt (sn_type sn) (p @ ys @ s) = Inl Checksum_mismatch"
proof -
  let ?h = "header_bytes (of_nat (length (sn_items sn))) (sn_type sn) (sn_feature_flags sn)"
  let ?c = "le_bytes 4 (crc32 (body_bytes sn))"
  have w: "p @ xs @ s = (?h @ ?c) @ body_bytes sn" using assms(2) unfolding serialized_snapshot by simp
  define q where "q = drop 36 p"
  have "take 36 (p @ xs @ s) = ?h @ ?c" "drop 36 (p @ xs @ s) = body_bytes sn" by (simp_all add: w)
  then have q: "take 36 p = ?h @ ?c" "body_bytes sn = q @ xs @ s" using assms(3) by (simp_all add: q_def)
  have "p = (?h @ ?c) @ q" by (metis append_take_drop_id q(1) q_def)
  then have e: "p @ ys @ s = ?h @ ?c @ q @ ys @ s" by (simp only: append_assoc)
  have "\<not> (of_nat (length (sn_items sn)) :: u32) > 10000000" by (rule count_limit [OF assms(1)])
  moreover have "\<not> checksum_ok (p @ ys @ s) kV5HeaderSize (crc32 (body_bytes sn))"
  proof -
    have "drop (unat kV5HeaderSize) (p @ ys @ s) = q @ ys @ s" unfolding e by (simp add: kV5HeaderSize_def)
    then show ?thesis using crc32_burst [OF assms(4-6), of q s] unfolding checksum_ok_def q(2) by simp
  qed
  moreover have "header_size_ok (p @ ys @ s) kV5HeaderSize"
    unfolding e by (simp add: header_size_ok_def kV5HeaderSize_def)
  ultimately show ?thesis
    using parse_header [OF e, of "header_size_ok (p @ ys @ s)" "checksum_ok (p @ ys @ s)" kt vt]
    by (simp add: parse_serialized_data_def reader_def)
qed

theorem payload_burst_detected_witness:
  "\<exists>p b s. serialize_from_snapshot small_snapshot = Inr (p @ [b] @ s) \<and>
     parse_serialized_data (Trivial_type 4) String_type Lru (p @ [NOT b] @ s) = Inl Checksum_mismatch"
proof -
  obtain p b s where p: "serialize_from_snapshot small_snapshot = Inr (p @ [b] @ s)" "length p = 36"
    using small_snapshot_parts by blast
  have "sn_type small_snapshot = Lru" "length (sn_items small_snapshot) \<le> 10000000" by (simp_all add: small_snapshot_def)
  moreover have "[b] \<noteq> [NOT b]"
  proof -
    have "bit b 0 \<noteq> bit (NOT b) 0" by (simp add: bit_not_iff)
    then show ?thesis by auto
  qed
  ultimately show ?thesis
    using payload_burst_detected [of small_snapshot p "[b]" s "[NOT b]" "Trivial_type 4" String_type] p by auto
qed

text \<open>
  C38. The header is not protected by the checksum: if the item count of a written snapshot is replaced by a smaller one,
  the snapshot is accepted without an error and the remaining items are lost.
\<close>

theorem damaged_item_count_loses_items:
  assumes "snapshot_fits kt vt sn" "serialize_from_snapshot sn = Inr w" "m < length (sn_items sn)"
  shows "parse_serialized_data kt vt (sn_type sn) (take 8 w @ le_bytes 4 (of_nat m :: u32) @ drop 12 w) =
    Inr (snapshot_data sn (take m (sn_items sn)))"
proof -
  have "take 8 w @ le_bytes 4 (of_nat m :: u32) @ drop 12 w =
      header_bytes (of_nat m) (sn_type sn) (sn_feature_flags sn) @ le_bytes 4 (crc32 (body_bytes sn)) @ body_bytes sn"
    using assms(2) unfolding serialized_snapshot by (auto simp: header_bytes_def)
  then show ?thesis unfolding parse_result using parse_snapshot [OF assms(1) less_imp_le [OF assms(3)]] by metis
qed

theorem damaged_item_count_loses_items_witness:
  "\<exists>w. serialize_from_snapshot small_snapshot = Inr w \<and>
     parse_serialized_data (Trivial_type 4) String_type Lru (take 8 w @ le_bytes 4 (1 :: u32) @ drop 12 w) =
       Inr (snapshot_data small_snapshot (take 1 (sn_items small_snapshot)))"
proof -
  obtain w where w: "serialize_from_snapshot small_snapshot = Inr w" unfolding serialized_snapshot by blast
  have "sn_type small_snapshot = Lru" "1 < length (sn_items small_snapshot)" by (simp_all add: small_snapshot_def)
  then show ?thesis using damaged_item_count_loses_items [OF small_snapshot_fits w, of 1] w by auto
qed

text \<open>
  C39. The sketch of a TinyLFU cache whose state has more than 1,000,000 words is written into the snapshot and the snapshot
  is then rejected by the parser. The default configuration gives such a sketch for 40,000 items.
\<close>

theorem sketch_snapshot_not_loadable:
  assumes "save_state S = Inr (sn_cms_state sn)" "1000000 < serialized_state_words S" "cms_ok S"
    "serialized_state_words S \<le> 2 ^ 32 - 1" "sn_type sn = Tiny_lfu" "length (sn_items sn) \<le> 10000000"
  shows "\<exists>w. serialize_from_snapshot sn = Inr w \<and> parse_serialized_data kt vt Tiny_lfu w = Inl Cms_words_limit"
proof -
  let ?n = "of_nat (length (sn_items sn)) :: u32" and ?ws = "sn_cms_state sn"
  define b where "b = body_bytes sn"
  define w where "w = header_bytes ?n Tiny_lfu (sn_feature_flags sn) @ le_bytes 4 (crc32 b) @ b"
  have ws: "length ?ws = serialized_state_words S"
    using save_state_words(1) [OF assms(3,4)] assms(1) by (simp add: serialized_state_words_def)
  have b: "b = config_write (sn_config sn) [] @ le_bytes 4 (of_nat (length ?ws) :: u32) @ fold write_u32 ?ws [] @
      fold item_write (sn_items sn) []"
    by (simp add: b_def body_bytes_def extra_write_def assms(5) cms_written)
  have d: "drop 36 w = config_write (sn_config sn) [] @ drop (36 + length (config_write (sn_config sn) [])) w"
    "drop (36 + length (config_write (sn_config sn) [])) w = le_bytes 4 (of_nat (length ?ws) :: u32) @
      fold write_u32 ?ws [] @ fold item_write (sn_items sn) []"
    by (simp_all add: w_def b)
  have big: "(of_nat (length ?ws) :: u32) > 1000000"
    using assms(2,4) ws by (simp add: word_less_nat_alt unat_of_nat)
  have l: "36 \<le> length w" "36 + length (config_write (sn_config sn) []) \<le> length w" by (simp_all add: w_def b)
  have "body_read kt vt Tiny_lfu (sn_feature_flags sn) ?n \<lparr>rd_data = w, rd_pos = 36\<rparr> = Inl Cms_words_limit"
    unfolding body_read_def reads_step [OF config_reads_back d(1) l(1)]
    using reads_step [OF reads_words(2) d(2) l(2), of "\<lambda>n. require (\<not> n > 1000000) Cms_words_limit (read_n (unat n) read_u32)"] big
    by (simp add: extra_read_def cms_read_def and_then_def require_def)
  moreover have "header_size_ok w kV5HeaderSize" "checksum_ok w kV5HeaderSize (crc32 b)"
    by (simp_all add: header_size_ok_def checksum_ok_def kV5HeaderSize_def w_def)
  ultimately have "parse_serialized_data kt vt Tiny_lfu w = Inl Cms_words_limit"
    using parse_header [OF w_def, of "header_size_ok w" "checksum_ok w" kt vt] count_limit [OF assms(6)]
    by (simp add: parse_serialized_data_def reader_def)
  moreover have "serialize_from_snapshot sn = Inr w" unfolding serialized_snapshot w_def b_def assms(5) by simp
  ultimately show ?thesis by blast
qed

theorem sketch_snapshot_not_loadable_witness:
  "\<exists>S sn w. cms_new (\<lambda>capacity. 695880) 40000 32 4 = Some S \<and> save_state S = Inr (sn_cms_state sn) \<and>
     serialize_from_snapshot sn = Inr w \<and> parse_serialized_data String_type String_type Tiny_lfu w = Inl Cms_words_limit"
proof -
  have "next_pow2 695880 = Some (2 ^ 20)" by (rule next_pow2_between) simp_all
  from cms_new_dims [OF this, of 40000 32 4] obtain S
    where s: "cms_new (\<lambda>_. 695880) 40000 32 4 = Some S" "width S = 262144" "depth S = 4" by auto
  have ok: "cms_ok S" using cms_new_ok [OF s(1)] by blast
  then have n: "length (table S) = 1048576" using s(2,3) unfolding cms_ok_def by simp
  then have le: "serialized_state_words S \<le> 2 ^ 32 - 1" "1000000 < serialized_state_words S"
    unfolding serialized_state_words_def by simp_all
  obtain ws where ws: "save_state S = Inr ws" using save_state_words(1) [OF ok le(1)] by blast
  let ?sn = "small_snapshot\<lparr>sn_type := Tiny_lfu, sn_cms_state := ws, sn_items := []\<rparr>"
  have "\<exists>w. serialize_from_snapshot ?sn = Inr w \<and> parse_serialized_data String_type String_type Tiny_lfu w = Inl Cms_words_limit"
    by (rule sketch_snapshot_not_loadable [OF _ le(2) ok le(1)]) (simp_all add: ws)
  moreover have "save_state S = Inr (sn_cms_state ?sn)" using ws by simp
  ultimately show ?thesis using s(1) by blast
qed

end
