(* ===== verification/Warm_Restart.thy ===== *)
theory Warm_Restart
  imports Snapshot Mm_Lru_Ends
begin

text \<open>
  Saving and restoring an \<^verbatim>\<open>mm_lru\<close>: \<^verbatim>\<open>collect_snapshot\<close> of \<^verbatim>\<open>lru.hpp\<close>, \<^verbatim>\<open>deserialize\<close> and \<^verbatim>\<open>rebuild_from_parsed\<close> of
  \<^verbatim>\<open>serialization.hpp\<close>, composed with the strategy of theory \<open>Mm_Lru_Ops\<close> and the format of theory \<open>Serialization\<close>.
  The bits of the floating-point refresh ratio and what they mean are parameters.
\<close>

section \<open>The code\<close>









section \<open>Rebuilding the list\<close>






text \<open>The fields that rebuilding an item writes.\<close>

definition with_nodes ::
  "('k, 'v) mm_lru \<Rightarrow> (addr \<Rightarrow> ('k, 'v) cache_item) \<Rightarrow> addr \<Rightarrow> addr list \<Rightarrow> ('k \<Rightarrow> addr option) \<Rightarrow> cache_stats \<Rightarrow> ('k, 'v) mm_lru" where
  "with_nodes S st n xs m q = S\<lparr>ml_store := st, ml_fresh := n, ml_items := xs, ml_map := m, ml_stats := q\<rparr>"


lemma with_nodes_sel [simp]:
  "ml_store (with_nodes S st n xs m q) = st" "ml_fresh (with_nodes S st n xs m q) = n" "ml_items (with_nodes S st n xs m q) = xs"
  "ml_map (with_nodes S st n xs m q) = m" "ml_stats (with_nodes S st n xs m q) = q"
  "pending_deletion (with_nodes S st n xs m q) = pending_deletion S" "ml_retired (with_nodes S st n xs m q) = ml_retired S"
  "unpinned_tail (with_nodes S st n xs m q) = unpinned_tail S" "insertion_point (with_nodes S st n xs m q) = insertion_point S"
  "same_env S (with_nodes S st n xs m q)"
  by (simp_all add: with_nodes_def same_env_def)










section \<open>Tail flags and configuration\<close>















section \<open>Property\<close>









end
