(* ===== verification/Spec2Isabelle.thy ===== *)
theory Spec2Isabelle
  imports Refcount_Threads Compressed_Ptr Mm_Lru_Ends Admission Space_Saving Count_Min_Sketch Latency_Histogram Singleflight Warm_Restart
begin

text \<open>
  Verification of the C++ header library \<^verbatim>\<open>lru\<close> (a CacheLib-style LRU cache).
\<close>

end
